(* ===== verification/C_Prelude.thy ===== *)
theory C_Prelude
  imports Main "HOL-Library.Word"
begin

text \<open>
  What the components share: the effect of a C function that may end the process
  (\<open>cm\<close>, a state transformer whose error is a value), byte lists that are read
  and overwritten in place, C strings, and the decimal conversions of \<^verbatim>\<open>printf\<close>,
  \<^verbatim>\<open>atoi\<close> and \<^verbatim>\<open>strtol\<close>. The simplification rules of the group
  \<open>cm_simps\<close> run a straight-line piece of code symbolically.
\<close>

named_theorems cm_simps
named_theorems layout_simps

section \<open>Definitions\<close>

subsection \<open>State, result, abnormal end\<close>

text \<open>
  \<open>('s, 'e, 'a) cm\<close> is a piece of code over the state \<open>'s\<close>: it ends the process
  with a reason \<open>'e\<close> (\<^verbatim>\<open>err_dump\<close>, \<^verbatim>\<open>err_quit\<close>, a failed
  buffer bound), or returns a value with the new state.
\<close>

type_synonym ('s, 'e, 'a) cm = "'s \<Rightarrow> 'e + ('a \<times> 's)"

definition ret :: "'a \<Rightarrow> ('s, 'e, 'a) cm" where
  "ret x = (\<lambda>s. Inr (x, s))"

definition fail_with :: "'e \<Rightarrow> ('s, 'e, 'a) cm" where
  "fail_with e = (\<lambda>s. Inl e)"

definition bnd :: "('s, 'e, 'a) cm \<Rightarrow> ('a \<Rightarrow> ('s, 'e, 'b) cm) \<Rightarrow> ('s, 'e, 'b) cm" where
  "bnd m f = (\<lambda>s. case m s of Inl e \<Rightarrow> Inl e | Inr (x, s') \<Rightarrow> f x s')"

definition thn :: "('s, 'e, 'a) cm \<Rightarrow> ('s, 'e, 'b) cm \<Rightarrow> ('s, 'e, 'b) cm" where
  "thn m n = bnd m (\<lambda>_. n)"

definition gets :: "('s \<Rightarrow> 'a) \<Rightarrow> ('s, 'e, 'a) cm" where
  "gets f = (\<lambda>s. Inr (f s, s))"

definition modify :: "('s \<Rightarrow> 's) \<Rightarrow> ('s, 'e, unit) cm" where
  "modify f = (\<lambda>s. Inr ((), f s))"

definition require :: "bool \<Rightarrow> 'e \<Rightarrow> ('s, 'e, unit) cm" where
  "require b e = (if b then ret () else fail_with e)"

subsection \<open>Byte lists and C strings\<close>

abbreviation (input) NUL :: char where "NUL \<equiv> CHR 0x00"
abbreviation (input) NEWLINE :: char where "NEWLINE \<equiv> CHR 0x0A"

definition slice_at :: "nat \<Rightarrow> nat \<Rightarrow> 'a list \<Rightarrow> 'a list" where
  "slice_at p n xs = take n (drop p xs)"

text \<open>Writing \<open>bs\<close> at offset \<open>p\<close>; a hole past the end is filled with null bytes.\<close>

definition overwrite :: "char list \<Rightarrow> nat \<Rightarrow> char list \<Rightarrow> char list" where
  "overwrite xs p bs =
     take p (xs @ replicate (p - length xs) NUL) @ bs @ drop (p + length bs) xs"

text \<open>The C string in a buffer: everything before the first null byte.\<close>

definition cstr :: "char list \<Rightarrow> string" where
  "cstr bs = takeWhile (\<lambda>c. c \<noteq> NUL) bs"

text \<open>A \<^verbatim>\<open>char\<close> is signed: bytes above 127 are negative.\<close>

definition schar :: "char \<Rightarrow> int" where
  "schar c = (let n = (of_char c :: int) in if n < 128 then n else n - 256)"

text \<open>The size of a line buffer in both libraries.\<close>

abbreviation (input) MAXLINE :: nat where "MAXLINE \<equiv> 4096"

subsection \<open>Decimal conversions\<close>

definition digit_char :: "nat \<Rightarrow> char" where
  "digit_char d = char_of (48 + d)"

fun dec :: "nat \<Rightarrow> string" where
  "dec n = (if n < 10 then [digit_char n] else dec (n div 10) @ [digit_char (n mod 10)])"

text \<open>The conversion \<^verbatim>\<open>%d\<close>.\<close>

definition sdec :: "int \<Rightarrow> string" where
  "sdec v = (if v < 0 then CHR ''-'' # dec (nat (- v)) else dec (nat v))"

text \<open>The conversion \<^verbatim>\<open>%*d\<close>: at least \<open>w\<close> characters, blanks in front.\<close>

definition pad :: "nat \<Rightarrow> string \<Rightarrow> string" where
  "pad w s = replicate (w - length s) CHR '' '' @ s"

definition isdigit :: "char \<Rightarrow> bool" where
  "isdigit c \<longleftrightarrow> 48 \<le> (of_char c :: nat) \<and> (of_char c :: nat) \<le> 57"

text \<open>\<^verbatim>\<open>isspace\<close> in the C locale: blank, and the codes 9 to 13.\<close>

definition isspace :: "char \<Rightarrow> bool" where
  "isspace c \<longleftrightarrow> (of_char c :: nat) = 32 \<or> 9 \<le> (of_char c :: nat) \<and> (of_char c :: nat) \<le> 13"

fun digits_val :: "nat \<Rightarrow> string \<Rightarrow> nat" where
  "digits_val acc [] = acc"
| "digits_val acc (c # cs) = digits_val (10 * acc + (of_char c - 48)) cs"

definition LONG_MAX :: int where "LONG_MAX = 2 ^ 63 - 1"
definition LONG_MIN :: int where "LONG_MIN = - (2 ^ 63)"

definition clamp_long :: "int \<Rightarrow> int" where
  "clamp_long v = max LONG_MIN (min LONG_MAX v)"

text \<open>
  \<^verbatim>\<open>strtol (s, ., 10)\<close>, which is also \<^verbatim>\<open>atol\<close>: blanks, an optional
  sign, digits up to the first other character; saturated at the ends of the range.
\<close>

definition atol :: "string \<Rightarrow> int" where
  "atol s =
     (let t = dropWhile isspace (cstr s);
          neg = (t \<noteq> [] \<and> hd t = CHR ''-'');
          u = (if t \<noteq> [] \<and> (hd t = CHR ''-'' \<or> hd t = CHR ''+'') then tl t else t);
          v = int (digits_val 0 (takeWhile isdigit u))
      in clamp_long (if neg then - v else v))"

section \<open>Running code symbolically\<close>

lemma ret_apply [cm_simps, simp]: "ret x s = Inr (x, s)"
  by (simp add: ret_def)

lemma fail_with_apply [cm_simps, simp]: "fail_with e s = Inl e"
  by (simp add: fail_with_def)

lemma gets_apply [cm_simps, simp]: "gets f s = Inr (f s, s)"
  by (simp add: gets_def)

lemma modify_apply [cm_simps, simp]: "modify f s = Inr ((), f s)"
  by (simp add: modify_def)

lemma bnd_Inr [cm_simps]: "m s = Inr (x, s') \<Longrightarrow> bnd m f s = f x s'"
  by (simp add: bnd_def)

lemma bnd_Inl [cm_simps]: "m s = Inl e \<Longrightarrow> bnd m f s = Inl e"
  by (simp add: bnd_def)

lemma thn_Inr [cm_simps]: "m s = Inr (x, s') \<Longrightarrow> thn m n s = n s'"
  by (simp add: thn_def bnd_def)

lemma thn_Inl [cm_simps]: "m s = Inl e \<Longrightarrow> thn m n s = Inl e"
  by (simp add: thn_def bnd_def)

lemma require_apply [cm_simps]: "require b e s = (if b then Inr ((), s) else Inl e)"
  by (simp add: require_def)

lemma bnd_eq_Inr:
  "bnd m f s = Inr r \<longleftrightarrow> (\<exists>x s'. m s = Inr (x, s') \<and> f x s' = Inr r)"
  by (auto simp: bnd_def split: sum.splits)

lemma thn_eq_Inr:
  "thn m n s = Inr r \<longleftrightarrow> (\<exists>x s'. m s = Inr (x, s') \<and> n s' = Inr r)"
  by (simp add: thn_def bnd_eq_Inr)

lemma require_eq_Inr: "require b e s = Inr r \<longleftrightarrow> b \<and> r = ((), s)"
  by (auto simp: require_apply)

section \<open>Slices and overwriting\<close>

lemma length_slice: "p + n \<le> length xs \<Longrightarrow> length (slice_at p n xs) = n"
  by (simp add: slice_at_def)

lemma slice_append_left [layout_simps]:
  "p + n \<le> length xs \<Longrightarrow> slice_at p n (xs @ ys) = slice_at p n xs"
  by (simp add: slice_at_def)

lemma slice_append_right [layout_simps]:
  "length xs \<le> p \<Longrightarrow> slice_at p n (xs @ ys) = slice_at (p - length xs) n ys"
  by (simp add: slice_at_def)

lemma slice_0 [layout_simps]: "slice_at 0 n xs = take n xs"
  by (simp add: slice_at_def)

lemma overwrite_inside:
  "p + length bs \<le> length xs \<Longrightarrow> overwrite xs p bs = take p xs @ bs @ drop (p + length bs) xs"
  by (simp add: overwrite_def)

lemma overwrite_append_left [layout_simps]:
  "p + length bs \<le> length xs \<Longrightarrow> overwrite (xs @ ys) p bs = overwrite xs p bs @ ys"
  by (simp add: overwrite_inside)

lemma overwrite_append_right [layout_simps]:
  "length xs \<le> p \<Longrightarrow> overwrite (xs @ ys) p bs = xs @ overwrite ys (p - length xs) bs"
  by (simp add: overwrite_def)

lemma overwrite_end [layout_simps]: "p = length xs \<Longrightarrow> overwrite xs p bs = xs @ bs"
  by (simp add: overwrite_def)

lemma length_overwrite [layout_simps]:
  "p + length bs \<le> length xs \<Longrightarrow> length (overwrite xs p bs) = length xs"
  by (simp add: overwrite_inside)

lemma overwrite_all: "length bs = length xs \<Longrightarrow> overwrite xs 0 bs = bs"
  by (simp add: overwrite_inside)

section \<open>C strings\<close>

lemma cstr_id [simp]: "NUL \<notin> set s \<Longrightarrow> cstr s = s"
  by (auto simp: cstr_def takeWhile_eq_all_conv)

lemma NUL_notin_cstr [simp]: "NUL \<notin> set (cstr s)"
  by (auto simp: cstr_def dest: set_takeWhileD)

lemma takeWhile_sep [simp]: "c \<notin> set a \<Longrightarrow> takeWhile (\<lambda>x. x \<noteq> c) (a @ c # b) = a"
  by (simp add: takeWhile_append)

lemma dropWhile_sep [simp]: "c \<notin> set a \<Longrightarrow> dropWhile (\<lambda>x. x \<noteq> c) (a @ c # b) = c # b"
  by (simp add: dropWhile_append)

section \<open>Decimal conversions\<close>

declare dec.simps [simp del]

lemma of_char_digit [simp]: "d < 10 \<Longrightarrow> (of_char (digit_char d) :: nat) = 48 + d"
  by (simp add: digit_char_def)

lemma dec_ne [simp]: "dec n \<noteq> []"
  by (subst dec.simps) simp

lemma isdigit_dec: "c \<in> set (dec n) \<Longrightarrow> isdigit c"
proof (induction n rule: dec.induct)
  case (1 n)
  show ?case
  proof (cases "n < 10")
    case True
    with "1.prems" show ?thesis by (simp add: dec.simps [of n] isdigit_def)
  next
    case False
    then have "dec n = dec (n div 10) @ [digit_char (n mod 10)]"
      by (subst dec.simps) simp
    with False "1.prems" "1.IH" show ?thesis by (auto simp: isdigit_def)
  qed
qed

lemma not_digit_dec: "\<not> isdigit c \<Longrightarrow> c \<notin> set (dec n)"
  using isdigit_dec by blast

lemma NUL_dec [simp]: "NUL \<notin> set (dec n)"
  by (rule not_digit_dec) (simp add: isdigit_def)

lemma colon_dec [simp]: "CHR '':'' \<notin> set (dec n)"
  by (rule not_digit_dec) (simp add: isdigit_def)

lemma digits_val_append: "digits_val a (xs @ ys) = digits_val (digits_val a xs) ys"
  by (induction xs arbitrary: a) auto

lemma digits_val_dec [simp]: "digits_val 0 (dec n) = n"
proof (induction n rule: dec.induct)
  case (1 n)
  show ?case
  proof (cases "n < 10")
    case True
    then show ?thesis by (simp add: dec.simps [of n])
  next
    case False
    then have "dec n = dec (n div 10) @ [digit_char (n mod 10)]"
      by (subst dec.simps) simp
    with False "1.IH" show ?thesis by (simp add: digits_val_append)
  qed
qed

lemma length_dec_le: "n < 10 ^ Suc k \<Longrightarrow> length (dec n) \<le> Suc k"
proof (induction k arbitrary: n)
  case 0
  then show ?case by (subst dec.simps) simp
next
  case (Suc k)
  show ?case
  proof (cases "n < 10")
    case True
    then show ?thesis by (subst dec.simps) simp
  next
    case False
    have "n div 10 < 10 ^ Suc k" using Suc.prems by (simp add: less_mult_imp_div_less)
    then have "length (dec (n div 10)) \<le> Suc k" by (rule Suc.IH)
    with False show ?thesis by (subst dec.simps) simp
  qed
qed

lemma takeWhile_isdigit_dec [simp]: "takeWhile isdigit (dec n) = dec n"
  by (simp add: takeWhile_eq_all_conv isdigit_dec)

lemma length_pad: "length (pad w s) = max w (length s)"
  by (simp add: pad_def)

lemma set_pad: "set (pad w s) \<subseteq> insert CHR '' '' (set s)"
  by (auto simp: pad_def)

lemma dropWhile_isspace_pad [simp]:
  assumes "\<And>c. c \<in> set s \<Longrightarrow> isdigit c"
  shows "dropWhile isspace (pad w s) = s"
proof -
  have "isspace CHR '' ''" by (simp add: isspace_def)
  moreover have "dropWhile isspace s = s"
    using assms by (cases s) (force simp: isspace_def isdigit_def)+
  ultimately show ?thesis
    by (simp add: pad_def dropWhile_append)
qed

text \<open>Printing a number in a field and reading the field back gives the number.\<close>

lemma atol_pad_dec:
  assumes "int n \<le> LONG_MAX"
  shows "atol (pad w (dec n)) = int n"
proof -
  have nul: "NUL \<notin> set (pad w (dec n))"
    using set_pad [of w "dec n"] NUL_dec [of n] by auto
  have drop: "dropWhile isspace (pad w (dec n)) = dec n"
    by (rule dropWhile_isspace_pad) (rule isdigit_dec)
  have "isdigit (hd (dec n))" by (rule isdigit_dec [of _ n]) simp
  then have sign: "hd (dec n) \<noteq> CHR ''-''" "hd (dec n) \<noteq> CHR ''+''"
    by (auto simp: isdigit_def)
  from nul drop sign assms show ?thesis
    by (simp add: atol_def Let_def clamp_long_def LONG_MIN_def LONG_MAX_def)
qed

lemma atol_dec: "int n \<le> LONG_MAX \<Longrightarrow> atol (dec n) = int n"
  using atol_pad_dec [of n 0] by (simp add: pad_def)

section \<open>Records laid out one after the other\<close>

text \<open>The offset of the \<open>i\<close>-th of a list of encoded records.\<close>

definition off_of :: "('r \<Rightarrow> char list) \<Rightarrow> 'r list \<Rightarrow> nat \<Rightarrow> nat" where
  "off_of f xs i = length (concat (map f (take i xs)))"

lemma concat_split_at:
  assumes "i < length xs"
  shows "concat (map f xs) = concat (map f (take i xs)) @ f (xs ! i) @ concat (map f (drop (Suc i) xs))"
proof -
  have "xs = take i xs @ xs ! i # drop (Suc i) xs"
    using assms by (rule id_take_nth_drop)
  then show ?thesis by (metis concat.simps(2) concat_append list.simps(9) map_append)
qed

lemma slice_concat_at:
  assumes "i < length xs" and "p + n \<le> length (f (xs ! i))"
  shows "slice_at (off_of f xs i + p) n (concat (map f xs)) = slice_at p n (f (xs ! i))"
  using assms
  by (simp add: concat_split_at [OF assms(1)] off_of_def slice_append_right slice_append_left)

lemma slice_concat_all:
  "i < length xs \<Longrightarrow> n = length (f (xs ! i)) \<Longrightarrow>
   slice_at (off_of f xs i) n (concat (map f xs)) = f (xs ! i)"
  using slice_concat_at [of i xs 0 n f] by (simp add: slice_0)

lemma overwrite_concat_at:
  assumes "i < length xs" and "p + length bs \<le> length (f (xs ! i))"
    and "overwrite (f (xs ! i)) p bs = f y"
  shows "overwrite (concat (map f xs)) (off_of f xs i + p) bs = concat (map f (xs[i := y]))"
proof -
  have i': "i < length (xs[i := y])" using assms(1) by simp
  have "concat (map f (xs[i := y])) =
      concat (map f (take i xs)) @ f y @ concat (map f (drop (Suc i) xs))"
    using assms(1) by (simp add: concat_split_at [OF i'])
  moreover have "overwrite (concat (map f xs)) (off_of f xs i + p) bs =
      concat (map f (take i xs)) @ overwrite (f (xs ! i)) p bs @ concat (map f (drop (Suc i) xs))"
    using assms(1,2)
    by (simp add: concat_split_at [OF assms(1)] off_of_def overwrite_append_right overwrite_append_left)
  ultimately show ?thesis using assms(3) by simp
qed

lemma off_of_Suc: "i < length xs \<Longrightarrow> off_of f xs (Suc i) = off_of f xs i + length (f (xs ! i))"
  by (simp add: off_of_def take_Suc_conv_app_nth)

lemma off_of_length: "off_of f xs (length xs) = length (concat (map f xs))"
  by (simp add: off_of_def)

lemma off_of_append: "i \<le> length xs \<Longrightarrow> off_of f (xs @ ys) i = off_of f xs i"
  by (simp add: off_of_def)

lemma off_of_mono: "i \<le> j \<Longrightarrow> off_of f xs i \<le> off_of f xs j"
proof -
  assume "i \<le> j"
  then have "take j xs = take i xs @ drop i (take j xs)"
    by (metis append_take_drop_id min.absorb1 take_take)
  then have "concat (map f (take j xs)) =
      concat (map f (take i xs)) @ concat (map f (drop i (take j xs)))"
    by (metis concat_append map_append)
  then show ?thesis by (simp add: off_of_def)
qed

lemma off_of_strict_mono:
  assumes "i < j" and "j \<le> length xs" and "f (xs ! i) \<noteq> []"
  shows "off_of f xs i < off_of f xs j"
proof -
  have "off_of f xs i < off_of f xs (Suc i)"
    using assms by (simp add: off_of_Suc)
  also have "\<dots> \<le> off_of f xs j" using assms(1) by (intro off_of_mono) simp
  finally show ?thesis .
qed

lemma off_of_update:
  assumes "length (f y) = length (f (xs ! i))"
  shows "off_of f (xs[i := y]) k = off_of f xs k"
proof (cases "i < length xs")
  case False
  then show ?thesis by (simp add: list_update_beyond)
next
  case True
  show ?thesis
  proof (cases "i < k")
    case False
    then show ?thesis by (simp add: off_of_def)
  next
    case less: True
    have "map (length \<circ> f) ((take k xs)[i := y]) = map (length \<circ> f) (take k xs)"
      using assms True less
      by (simp add: map_update list_update_same_conv)
    then show ?thesis
      by (simp add: off_of_def take_update_swap length_concat comp_def)
  qed
qed

lemma off_of_const:
  assumes "\<And>x. x \<in> set xs \<Longrightarrow> length (f x) = w" and "i \<le> length xs"
  shows "off_of f xs i = w * i"
proof -
  have "\<And>x. x \<in> set (take i xs) \<Longrightarrow> length (f x) = w"
    using assms(1) by (meson in_set_takeD)
  then have "sum_list (map (length \<circ> f) (take i xs)) = w * length (take i xs)"
    by (induction "take i xs" rule: list.induct) (auto simp: sum_list_triv cong: map_cong)
  with assms(2) show ?thesis by (simp add: off_of_def length_concat comp_def)
qed

text \<open>The two's complement of an unsigned value.\<close>

lemma shift_mod: "0 \<le> u \<Longrightarrow> u < 2 * m \<Longrightarrow> (u + m) mod (2 * m) - m = (if u < m then u else u - 2 * m)"
  for u m :: int
  using mod_pos_geq [of "2 * m" "u + m"] by (auto simp: mod_pos_pos_trivial)

end
