(* ===== verification/Posix_File.thy ===== *)
theory Posix_File
  imports C_Prelude
begin

text \<open>
  What the programs use of a regular file: its bytes, the offset of the open
  descriptor, and the process's own advisory record locks, one lock type per byte as
  \<^verbatim>\<open>fcntl\<close> keeps them. \<open>lock_reg\<close> is the helper of
  \<^verbatim>\<open>apue.3e/lib/lockreg.c\<close>.
\<close>

section \<open>Definitions\<close>

datatype whence = SEEK_SET | SEEK_CUR | SEEK_END

datatype lock_type = F_RDLCK | F_WRLCK | F_UNLCK

record ofile =
  fbytes :: "char list"
  fpos :: nat
  flocks :: "nat \<Rightarrow> lock_type option"

record flock =
  l_type :: lock_type
  l_start :: int
  l_whence :: whence
  l_len :: int

definition seek_base :: "whence \<Rightarrow> ofile \<Rightarrow> int" where
  "seek_base w f =
     (case w of SEEK_SET \<Rightarrow> 0 | SEEK_CUR \<Rightarrow> int (fpos f) | SEEK_END \<Rightarrow> int (length (fbytes f)))"

text \<open>\<^verbatim>\<open>lseek\<close>: a negative resulting offset is refused (\<open>None\<close>).\<close>

definition lseek :: "int \<Rightarrow> whence \<Rightarrow> ofile \<Rightarrow> (int \<times> ofile) option" where
  "lseek off w f =
     (let p = seek_base w f + off
      in if p < 0 then None else Some (p, f\<lparr>fpos := nat p\<rparr>))"

definition read_file :: "nat \<Rightarrow> ofile \<Rightarrow> char list \<times> ofile" where
  "read_file n f =
     (let bs = slice_at (fpos f) n (fbytes f) in (bs, f\<lparr>fpos := fpos f + length bs\<rparr>))"

definition write_file :: "char list \<Rightarrow> ofile \<Rightarrow> ofile" where
  "write_file bs f =
     f\<lparr>fbytes := overwrite (fbytes f) (fpos f) bs, fpos := fpos f + length bs\<rparr>"

text \<open>
  \<^verbatim>\<open>fcntl (F_SETLK)\<close> on the process's own locks: the new type replaces
  whatever the process held on the bytes of the region; length 0 reaches to the end.
\<close>

definition set_lock :: "lock_type \<Rightarrow> int \<Rightarrow> int \<Rightarrow> (nat \<Rightarrow> lock_type option) \<Rightarrow> nat \<Rightarrow> lock_type option"
where
  "set_lock ty start len t =
     (\<lambda>i. if start \<le> int i \<and> (len = 0 \<or> int i < start + len)
          then (if ty = F_UNLCK then None else Some ty) else t i)"

definition fcntl_setlk :: "flock \<Rightarrow> ofile \<Rightarrow> ofile" where
  "fcntl_setlk l f =
     f\<lparr>flocks := set_lock (l_type l) (seek_base (l_whence l) f + l_start l) (l_len l) (flocks f)\<rparr>"

definition lock_reg :: "lock_type \<Rightarrow> int \<Rightarrow> whence \<Rightarrow> int \<Rightarrow> ofile \<Rightarrow> ofile" where
  "lock_reg type offset whence len f =
     fcntl_setlk \<lparr>l_type = type, l_start = offset, l_whence = whence, l_len = len\<rparr> f"

definition no_locks :: "nat \<Rightarrow> lock_type option" where
  "no_locks = (\<lambda>_. None)"

section \<open>Properties\<close>

lemma lseek_set [simp]:
  "0 \<le> off \<Longrightarrow> lseek off SEEK_SET f = Some (off, f\<lparr>fpos := nat off\<rparr>)"
  by (simp add: lseek_def seek_base_def)

lemma lseek_set_neg [simp]: "off < 0 \<Longrightarrow> lseek off SEEK_SET f = None"
  by (simp add: lseek_def seek_base_def)

lemma lseek_cur [simp]: "lseek 0 SEEK_CUR f = Some (int (fpos f), f)"
  by (simp add: lseek_def seek_base_def)

lemma lseek_end [simp]:
  "lseek 0 SEEK_END f = Some (int (length (fbytes f)), f\<lparr>fpos := length (fbytes f)\<rparr>)"
  by (simp add: lseek_def seek_base_def)

lemma fbytes_lock_reg [simp]: "fbytes (lock_reg t o' w l f) = fbytes f"
  by (simp add: lock_reg_def fcntl_setlk_def)

lemma fpos_lock_reg [simp]: "fpos (lock_reg t o' w l f) = fpos f"
  by (simp add: lock_reg_def fcntl_setlk_def)

lemma flocks_lock_reg_set [simp]:
  "flocks (lock_reg t o' SEEK_SET l f) = set_lock t o' l (flocks f)"
  by (simp add: lock_reg_def fcntl_setlk_def seek_base_def)

text \<open>Taking a lock on free bytes and releasing the same region gives the table back.\<close>

lemma set_lock_unlock:
  assumes "\<And>i. start \<le> int i \<Longrightarrow> len = 0 \<or> int i < start + len \<Longrightarrow> t i = None"
  shows "set_lock F_UNLCK start len (set_lock ty start len t) = t"
  using assms by (auto simp: set_lock_def fun_eq_iff)

text \<open>Regions that do not meet do not disturb each other.\<close>

lemma set_lock_commute:
  assumes "\<And>i. \<not> (a \<le> int i \<and> (l = 0 \<or> int i < a + l) \<and> b \<le> int i \<and> (m = 0 \<or> int i < b + m))"
  shows "set_lock t a l (set_lock u b m L) = set_lock u b m (set_lock t a l L)"
  using assms by (auto simp: set_lock_def fun_eq_iff)

lemma set_lock_unlock_empty [simp]:
  "set_lock F_UNLCK start len (set_lock ty start len no_locks) = no_locks"
  by (rule set_lock_unlock) (simp add: no_locks_def)

lemma length_read_file: "length (fst (read_file n f)) \<le> n"
  by (simp add: read_file_def slice_at_def Let_def)

end
