(* ===== verification/Db.thy ===== *)
theory Db
  imports Posix_File
begin

text \<open>
  The database library of \<^verbatim>\<open>apue.3e/db/db.c\<close>, function by function, on the
  bytes of its two files. A \<open>DB\<close> record is the library's handle; the open files
  are part of it. Every system call takes a fault predicate: where it holds, the call
  fails as the operating system reports failure (\<open>-1\<close>), and the code takes its
  error branch. Ending the process (\<^verbatim>\<open>err_dump\<close>, \<^verbatim>\<open>err_quit\<close>,
  \<^verbatim>\<open>err_sys\<close>) is an \<open>Inl\<close> value with the message. Strings are lists of
  nonnull characters, as a \<^verbatim>\<open>const char *\<close> holds them.
\<close>

section \<open>Constants, the handle, errors\<close>

abbreviation (input) IDXLEN_SZ :: nat where "IDXLEN_SZ \<equiv> 4"
abbreviation (input) SEP :: char where "SEP \<equiv> CHR '':''"
abbreviation (input) SPACE :: char where "SPACE \<equiv> CHR '' ''"
abbreviation (input) PTR_SZ :: nat where "PTR_SZ \<equiv> 7"
abbreviation (input) PTR_MAX :: nat where "PTR_MAX \<equiv> 9999999"
abbreviation (input) NHASH_DEF :: nat where "NHASH_DEF \<equiv> 137"
abbreviation (input) FREE_OFF :: int where "FREE_OFF \<equiv> 0"
abbreviation (input) HASH_OFF :: int where "HASH_OFF \<equiv> 7"
abbreviation (input) IDXLEN_MIN :: nat where "IDXLEN_MIN \<equiv> 6"
abbreviation (input) IDXLEN_MAX :: nat where "IDXLEN_MAX \<equiv> 1024"
abbreviation (input) DATLEN_MIN :: nat where "DATLEN_MIN \<equiv> 2"
abbreviation (input) DATLEN_MAX :: nat where "DATLEN_MAX \<equiv> 1024"

abbreviation (input) DB_INSERT :: int where "DB_INSERT \<equiv> 1"
abbreviation (input) DB_REPLACE :: int where "DB_REPLACE \<equiv> 2"
abbreviation (input) DB_STORE :: int where "DB_STORE \<equiv> 3"

abbreviation (input) EINVAL :: int where "EINVAL \<equiv> 22"
abbreviation (input) ENOENT :: int where "ENOENT \<equiv> 2"

type_synonym COUNT = "64 word"

record DB =
  idxfd :: ofile
  datfd :: ofile
  idxbuf :: string
  datbuf :: string
  dbname :: string
  idxoff :: int
  idxlen :: nat
  datoff :: int
  datlen :: nat
  ptrval :: int
  ptroff :: int
  chainoff :: int
  hashoff :: int
  nhash :: nat
  cnt_delok :: COUNT
  cnt_delerr :: COUNT
  cnt_fetchok :: COUNT
  cnt_fetcherr :: COUNT
  cnt_nextrec :: COUNT
  cnt_stor1 :: COUNT
  cnt_stor2 :: COUNT
  cnt_stor3 :: COUNT
  cnt_stor4 :: COUNT
  cnt_storerr :: COUNT
  errno :: int

text \<open>
  How the process can end inside the library. \<open>Overflow\<close> is a write past a
  buffer the library allocated, \<open>Diverges\<close> a chain walk that never ends.
\<close>

datatype db_err = ErrDump string | ErrQuit string | ErrSys string | Overflow string | Diverges

type_synonym 'a dbm = "(DB, db_err, 'a) cm"

datatype which = Idx | Dat

datatype sysc =
    Sys_lseek which int whence
  | Sys_read which nat
  | Sys_write which "char list"
  | Sys_lock which lock_type int int
  | Sys_fstat which
  | Sys_alloc string

type_synonym faults = "sysc \<Rightarrow> DB \<Rightarrow> bool"

definition no_faults :: faults where
  "no_faults = (\<lambda>_ _. False)"

section \<open>System calls on the two descriptors\<close>

fun sel :: "which \<Rightarrow> DB \<Rightarrow> ofile" where
  "sel Idx s = idxfd s"
| "sel Dat s = datfd s"

fun upd :: "which \<Rightarrow> ofile \<Rightarrow> DB \<Rightarrow> DB" where
  "upd Idx f s = s\<lparr>idxfd := f\<rparr>"
| "upd Dat f s = s\<lparr>datfd := f\<rparr>"

definition sys_lseek :: "faults \<Rightarrow> which \<Rightarrow> int \<Rightarrow> whence \<Rightarrow> int dbm" where
  "sys_lseek F w off wh =
     (\<lambda>s. if F (Sys_lseek w off wh) s then Inr (-1, s)
          else case lseek off wh (sel w s) of
            None \<Rightarrow> Inr (-1, s)
          | Some (p, f) \<Rightarrow> Inr (p, upd w f s))"

text \<open>\<^verbatim>\<open>read\<close> and \<^verbatim>\<open>readv\<close>: the count and the bytes.\<close>

definition sys_read :: "faults \<Rightarrow> which \<Rightarrow> nat \<Rightarrow> (int \<times> char list) dbm" where
  "sys_read F w n =
     (\<lambda>s. if F (Sys_read w n) s then Inr ((-1, []), s)
          else case read_file n (sel w s) of
            (bs, f) \<Rightarrow> Inr ((int (length bs), bs), upd w f s))"

text \<open>\<^verbatim>\<open>write\<close> and \<^verbatim>\<open>writev\<close>.\<close>

definition sys_write :: "faults \<Rightarrow> which \<Rightarrow> char list \<Rightarrow> int dbm" where
  "sys_write F w bs =
     (\<lambda>s. if F (Sys_write w bs) s then Inr (-1, s)
          else Inr (int (length bs), upd w (write_file bs (sel w s)) s))"

text \<open>The macros \<^verbatim>\<open>readw_lock\<close>, \<^verbatim>\<open>writew_lock\<close> and \<^verbatim>\<open>un_lock\<close>, which all call \<open>lock_reg\<close>.\<close>

definition sys_lock :: "faults \<Rightarrow> which \<Rightarrow> lock_type \<Rightarrow> int \<Rightarrow> int \<Rightarrow> int dbm" where
  "sys_lock F w ty off len =
     (\<lambda>s. if F (Sys_lock w ty off len) s then Inr (-1, s)
          else Inr (0, upd w (lock_reg ty off SEEK_SET len (sel w s)) s))"

definition readw_lock :: "faults \<Rightarrow> which \<Rightarrow> int \<Rightarrow> int \<Rightarrow> int dbm" where
  "readw_lock F w off len = sys_lock F w F_RDLCK off len"

definition writew_lock :: "faults \<Rightarrow> which \<Rightarrow> int \<Rightarrow> int \<Rightarrow> int dbm" where
  "writew_lock F w off len = sys_lock F w F_WRLCK off len"

definition un_lock :: "faults \<Rightarrow> which \<Rightarrow> int \<Rightarrow> int \<Rightarrow> int dbm" where
  "un_lock F w off len = sys_lock F w F_UNLCK off len"

text \<open>The idiom \<^verbatim>\<open>if (call < 0) err_dump (msg)\<close>.\<close>

definition or_dump :: "int dbm \<Rightarrow> string \<Rightarrow> unit dbm" where
  "or_dump m msg = bnd m (\<lambda>r. require (0 \<le> r) (ErrDump msg))"

section \<open>Reading\<close>

text \<open>\<^verbatim>\<open>_db_hash\<close>: each character times its 1-based index, in 64 bits.\<close>

fun hash_loop :: "64 word \<Rightarrow> int \<Rightarrow> string \<Rightarrow> 64 word" where
  "hash_loop hval i [] = hval"
| "hash_loop hval i (c # key) = hash_loop (hval + word_of_int (schar c * i)) (i + 1) key"

definition db_hash :: "nat \<Rightarrow> string \<Rightarrow> nat" where
  "db_hash nh key = unat (hash_loop 0 1 key) mod nh"

definition db_readptr :: "faults \<Rightarrow> int \<Rightarrow> int dbm" where
  "db_readptr F offset =
     bnd (sys_lseek F Idx offset SEEK_SET) (\<lambda>r.
     thn (require (r \<noteq> -1) (ErrDump ''_db_readptr: lseek error to ptr field''))
     (bnd (sys_read F Idx PTR_SZ) (\<lambda>(n, asciiptr).
     thn (require (n = int PTR_SZ) (ErrDump ''_db_readptr: read error of ptr field''))
     (ret (atol asciiptr)))))"

text \<open>
  The separators: the record's text up to its newline is cut at the first two
  occurrences of \<open>SEP\<close>; a third one is an error.
\<close>

definition split_sep :: "string \<Rightarrow> (string \<times> string) option" where
  "split_sep t =
     (if SEP \<in> set t then Some (takeWhile (\<lambda>c. c \<noteq> SEP) t, tl (dropWhile (\<lambda>c. c \<noteq> SEP) t))
      else None)"

definition db_readidx :: "faults \<Rightarrow> int \<Rightarrow> int dbm" where
  "db_readidx F offset =
     bnd (sys_lseek F Idx offset (if offset = 0 then SEEK_CUR else SEEK_SET)) (\<lambda>p.
     thn (modify (\<lambda>s. s\<lparr>idxoff := p\<rparr>))
     (thn (require (p \<noteq> -1) (ErrDump ''_db_readidx: lseek error''))
     (bnd (sys_read F Idx (PTR_SZ + IDXLEN_SZ)) (\<lambda>(i, hdr).
     if i \<noteq> int (PTR_SZ + IDXLEN_SZ)
     then (if i = 0 \<and> offset = 0 then ret (-1)
           else fail_with (ErrDump ''_db_readidx: readv error of index record''))
     else
     thn (modify (\<lambda>s. s\<lparr>ptrval := atol (take PTR_SZ hdr)\<rparr>))
     (bnd (ret (nat (atol (drop PTR_SZ hdr) mod 2 ^ 64))) (\<lambda>len.
     thn (modify (\<lambda>s. s\<lparr>idxlen := len\<rparr>))
     (thn (require (\<not> (len < IDXLEN_MIN \<or> len > IDXLEN_MAX)) (ErrDump ''_db_readidx: invalid length''))
     (bnd (sys_read F Idx len) (\<lambda>(i, rec).
     thn (require (i = int len) (ErrDump ''_db_readidx: read error of index record''))
     (thn (require (last rec = NEWLINE) (ErrDump ''_db_readidx: missing newline''))
     (case split_sep (cstr (butlast rec)) of
        None \<Rightarrow> fail_with (ErrDump ''_db_readidx: missing first separator'')
      | Some (key, rest) \<Rightarrow>
     (case split_sep rest of
        None \<Rightarrow> fail_with (ErrDump ''_db_readidx: missing second separator'')
      | Some (ptr1, ptr2) \<Rightarrow>
     thn (modify (\<lambda>s. s\<lparr>idxbuf := key\<rparr>))
     (thn (require (SEP \<notin> set ptr2) (ErrDump ''_db_readidx: too many separators''))
     (thn (modify (\<lambda>s. s\<lparr>datoff := atol ptr1\<rparr>))
     (thn (require (\<not> atol ptr1 < 0) (ErrDump ''_db_readidx: starting offset < 0''))
     (bnd (ret (nat (atol ptr2 mod 2 ^ 64))) (\<lambda>dlen.
     thn (modify (\<lambda>s. s\<lparr>datlen := dlen\<rparr>))
     (thn (require (\<not> (dlen = 0 \<or> dlen > DATLEN_MAX)) (ErrDump ''_db_readidx: invalid length''))
     (gets ptrval)))))))))))))))))))"

definition db_readdat :: "faults \<Rightarrow> string dbm" where
  "db_readdat F =
     bnd (gets datoff) (\<lambda>off.
     bnd (gets datlen) (\<lambda>len.
     bnd (sys_lseek F Dat off SEEK_SET) (\<lambda>r.
     thn (require (r \<noteq> -1) (ErrDump ''_db_readdat: lseek error''))
     (bnd (sys_read F Dat len) (\<lambda>(n, bs).
     thn (require (n = int len) (ErrDump ''_db_readdat: read error''))
     (thn (require (last bs = NEWLINE) (ErrDump ''_db_readdat: missing newline''))
     (thn (modify (\<lambda>s. s\<lparr>datbuf := cstr (butlast bs)\<rparr>))
     (gets datbuf))))))))"

text \<open>
  The chain walk of \<^verbatim>\<open>_db_find_and_lock\<close>. Every offset it visits lies inside
  the index file, so a walk of more steps than the file has bytes has come back to
  an offset it has already seen and never ends.
\<close>

fun find_loop :: "nat \<Rightarrow> faults \<Rightarrow> string \<Rightarrow> int \<Rightarrow> int dbm" where
  "find_loop 0 F key offset = (if offset = 0 then ret 0 else fail_with Diverges)"
| "find_loop (Suc fuel) F key offset =
     (if offset = 0 then ret 0
      else
        bnd (db_readidx F offset) (\<lambda>nextoffset.
        bnd (gets idxbuf) (\<lambda>buf.
        if buf = key then ret offset
        else thn (modify (\<lambda>s. s\<lparr>ptroff := offset\<rparr>)) (find_loop fuel F key nextoffset))))"

definition db_find_and_lock :: "faults \<Rightarrow> string \<Rightarrow> bool \<Rightarrow> int dbm" where
  "db_find_and_lock F key writelock =
     thn (modify (\<lambda>s. s\<lparr>chainoff := int (db_hash (nhash s) key * PTR_SZ) + hashoff s\<rparr>))
     (thn (modify (\<lambda>s. s\<lparr>ptroff := chainoff s\<rparr>))
     (bnd (gets chainoff) (\<lambda>coff.
     thn (if writelock
          then or_dump (writew_lock F Idx coff 1) ''_db_find_and_lock: writew_lock error''
          else or_dump (readw_lock F Idx coff 1) ''_db_find_and_lock: readw_lock error'')
     (bnd (gets ptroff) (\<lambda>poff.
     bnd (db_readptr F poff) (\<lambda>first.
     bnd (gets (\<lambda>s. length (fbytes (idxfd s)))) (\<lambda>fuel.
     bnd (find_loop fuel F key first) (\<lambda>offset.
     ret (if offset = 0 then -1 else 0)))))))))"

definition db_fetch :: "faults \<Rightarrow> string \<Rightarrow> string option dbm" where
  "db_fetch F key =
     bnd (db_find_and_lock F key False) (\<lambda>rc.
     bnd (if rc < 0
          then thn (modify (\<lambda>s. s\<lparr>cnt_fetcherr := cnt_fetcherr s + 1\<rparr>)) (ret None)
          else bnd (db_readdat F) (\<lambda>d.
               thn (modify (\<lambda>s. s\<lparr>cnt_fetchok := cnt_fetchok s + 1\<rparr>)) (ret (Some d)))) (\<lambda>ptr.
     bnd (gets chainoff) (\<lambda>coff.
     thn (or_dump (un_lock F Idx coff 1) ''db_fetch: un_lock error'')
     (ret ptr))))"

section \<open>Writing\<close>

text \<open>\<^verbatim>\<open>sprintf (., "%*lld", w, v)\<close> for a value that was checked not to be negative.\<close>

definition fmt_ptr :: "nat \<Rightarrow> int \<Rightarrow> string" where
  "fmt_ptr w v = pad w (dec (nat v))"

definition db_writedat :: "faults \<Rightarrow> string \<Rightarrow> int \<Rightarrow> whence \<Rightarrow> unit dbm" where
  "db_writedat F data offset wh =
     thn (if wh = SEEK_END
          then or_dump (writew_lock F Dat 0 0) ''_db_writedat: writew_lock error'' else ret ())
     (bnd (sys_lseek F Dat offset wh) (\<lambda>p.
     thn (modify (\<lambda>s. s\<lparr>datoff := p\<rparr>))
     (thn (require (p \<noteq> -1) (ErrDump ''_db_writedat: lseek error''))
     (thn (modify (\<lambda>s. s\<lparr>datlen := length data + 1\<rparr>))
     (bnd (sys_write F Dat (data @ [NEWLINE])) (\<lambda>n.
     thn (require (n = int (length data + 1)) (ErrDump ''_db_writedat: writev error of data record''))
     (if wh = SEEK_END
      then or_dump (un_lock F Dat 0 0) ''_db_writedat: un_lock error'' else ret ())))))))"

text \<open>
  \<^verbatim>\<open>_db_writeidx\<close> formats the record into \<open>idxbuf\<close>, an allocation of
  \<open>IDXLEN_MAX + 2\<close> bytes, before it looks at the record's length.
\<close>

definition db_writeidx :: "faults \<Rightarrow> string \<Rightarrow> int \<Rightarrow> whence \<Rightarrow> int \<Rightarrow> unit dbm" where
  "db_writeidx F key offset wh ptr =
     thn (modify (\<lambda>s. s\<lparr>ptrval := ptr\<rparr>))
     (thn (require (\<not> (ptr < 0 \<or> ptr > int PTR_MAX)) (ErrQuit ''_db_writeidx: invalid ptr''))
     (bnd (gets (\<lambda>s. key @ [SEP] @ dec (nat (datoff s)) @ [SEP] @ dec (datlen s) @ [NEWLINE])) (\<lambda>buf.
     thn (require (length buf + 1 \<le> IDXLEN_MAX + 2) (Overflow ''idxbuf''))
     (thn (modify (\<lambda>s. s\<lparr>idxbuf := buf\<rparr>))
     (thn (require (\<not> (length buf < IDXLEN_MIN \<or> length buf > IDXLEN_MAX))
            (ErrDump ''_db_writeidx: invalid length''))
     (bnd (gets (\<lambda>s. int ((nhash s + 1) * PTR_SZ) + 1)) (\<lambda>start.
     thn (if wh = SEEK_END
          then or_dump (writew_lock F Idx start 0) ''_db_writeidx: writew_lock error'' else ret ())
     (bnd (sys_lseek F Idx offset wh) (\<lambda>p.
     thn (modify (\<lambda>s. s\<lparr>idxoff := p\<rparr>))
     (thn (require (p \<noteq> -1) (ErrDump ''_db_writeidx: lseek error''))
     (bnd (sys_write F Idx (fmt_ptr PTR_SZ ptr @ fmt_ptr IDXLEN_SZ (int (length buf)) @ buf)) (\<lambda>n.
     thn (require (n = int (PTR_SZ + IDXLEN_SZ + length buf))
            (ErrDump ''_db_writeidx: writev error of index record''))
     (if wh = SEEK_END
      then or_dump (un_lock F Idx start 0) ''_db_writeidx: un_lock error'' else ret ())))))))))))))"

definition db_writeptr :: "faults \<Rightarrow> int \<Rightarrow> int \<Rightarrow> unit dbm" where
  "db_writeptr F offset ptr =
     thn (require (\<not> (ptr < 0 \<or> ptr > int PTR_MAX)) (ErrQuit ''_db_writeptr: invalid ptr''))
     (bnd (sys_lseek F Idx offset SEEK_SET) (\<lambda>r.
     thn (require (r \<noteq> -1) (ErrDump ''_db_writeptr: lseek error to ptr field''))
     (bnd (sys_write F Idx (fmt_ptr PTR_SZ ptr)) (\<lambda>n.
     require (n = int PTR_SZ) (ErrDump ''_db_writeptr: write error of ptr field'')))))"

definition db_dodelete :: "faults \<Rightarrow> unit dbm" where
  "db_dodelete F =
     thn (modify (\<lambda>s. s\<lparr>datbuf := replicate (datlen s - 1) SPACE,
                         idxbuf := replicate (length (idxbuf s)) SPACE\<rparr>))
     (thn (or_dump (writew_lock F Idx FREE_OFF 1) ''_db_dodelete: writew_lock error'')
     (bnd (gets datbuf) (\<lambda>data.
     bnd (gets datoff) (\<lambda>off.
     thn (db_writedat F data off SEEK_SET)
     (bnd (db_readptr F FREE_OFF) (\<lambda>freeptr.
     bnd (gets ptrval) (\<lambda>saveptr.
     bnd (gets idxbuf) (\<lambda>key.
     bnd (gets idxoff) (\<lambda>ioff.
     thn (db_writeidx F key ioff SEEK_SET freeptr)
     (bnd (gets idxoff) (\<lambda>ioff'.
     thn (db_writeptr F FREE_OFF ioff')
     (bnd (gets ptroff) (\<lambda>poff.
     thn (db_writeptr F poff saveptr)
     (or_dump (un_lock F Idx FREE_OFF 1) ''_db_dodelete: un_lock error''))))))))))))))"

definition db_delete :: "faults \<Rightarrow> string \<Rightarrow> int dbm" where
  "db_delete F key =
     bnd (db_find_and_lock F key True) (\<lambda>found.
     bnd (if found = 0
          then thn (db_dodelete F)
               (thn (modify (\<lambda>s. s\<lparr>cnt_delok := cnt_delok s + 1\<rparr>)) (ret 0))
          else thn (modify (\<lambda>s. s\<lparr>cnt_delerr := cnt_delerr s + 1\<rparr>)) (ret (-1))) (\<lambda>rc.
     bnd (gets chainoff) (\<lambda>coff.
     thn (or_dump (un_lock F Idx coff 1) ''db_delete: un_lock error'')
     (ret rc))))"

text \<open>
  The free list walk of \<^verbatim>\<open>_db_findfree\<close>: the pair of the offset found
  (0 for none) and the offset of the pointer that leads to it. The bound on the
  number of steps is the one of \<open>find_loop\<close>.
\<close>

fun findfree_loop :: "nat \<Rightarrow> faults \<Rightarrow> nat \<Rightarrow> nat \<Rightarrow> int \<Rightarrow> int \<Rightarrow> (int \<times> int) dbm" where
  "findfree_loop 0 F keylen dlen saveoffset offset =
     (if offset = 0 then ret (0, saveoffset) else fail_with Diverges)"
| "findfree_loop (Suc fuel) F keylen dlen saveoffset offset =
     (if offset = 0 then ret (0, saveoffset)
      else
        bnd (db_readidx F offset) (\<lambda>nextoffset.
        bnd (gets (\<lambda>s. length (idxbuf s) = keylen \<and> datlen s = dlen)) (\<lambda>hit.
        if hit then ret (offset, saveoffset)
        else findfree_loop fuel F keylen dlen offset nextoffset)))"

definition db_findfree :: "faults \<Rightarrow> nat \<Rightarrow> nat \<Rightarrow> int dbm" where
  "db_findfree F keylen dlen =
     thn (or_dump (writew_lock F Idx FREE_OFF 1) ''_db_findfree: writew_lock error'')
     (bnd (db_readptr F FREE_OFF) (\<lambda>first.
     bnd (gets (\<lambda>s. length (fbytes (idxfd s)))) (\<lambda>fuel.
     bnd (findfree_loop fuel F keylen dlen FREE_OFF first) (\<lambda>(offset, saveoffset).
     bnd (if offset = 0 then ret (-1)
          else bnd (gets ptrval) (\<lambda>p. thn (db_writeptr F saveoffset p) (ret 0))) (\<lambda>rc.
     thn (or_dump (un_lock F Idx FREE_OFF 1) ''_db_findfree: un_lock error'')
     (ret rc))))))"

text \<open>\<^verbatim>\<open>db_store\<close>; the label \<^verbatim>\<open>doreturn\<close> is the continuation after the inner block.\<close>

definition db_store :: "faults \<Rightarrow> string \<Rightarrow> string \<Rightarrow> int \<Rightarrow> int dbm" where
  "db_store F key data flag =
     (if flag \<noteq> DB_INSERT \<and> flag \<noteq> DB_REPLACE \<and> flag \<noteq> DB_STORE
      then thn (modify (\<lambda>s. s\<lparr>errno := EINVAL\<rparr>)) (ret (-1))
      else
      bnd (ret (length key)) (\<lambda>keylen.
      bnd (ret (length data + 1)) (\<lambda>dlen.
      thn (require (\<not> (dlen < DATLEN_MIN \<or> dlen > DATLEN_MAX)) (ErrDump ''db_store: invalid data length''))
      (bnd (db_find_and_lock F key True) (\<lambda>found.
      bnd
       (if found < 0
        then
          (if flag = DB_REPLACE
           then thn (modify (\<lambda>s. s\<lparr>cnt_storerr := cnt_storerr s + 1, errno := ENOENT\<rparr>)) (ret (-1))
           else
             bnd (gets chainoff) (\<lambda>coff.
             bnd (db_readptr F coff) (\<lambda>ptr.
             bnd (db_findfree F keylen dlen) (\<lambda>fr.
             if fr < 0
             then
               thn (db_writedat F data 0 SEEK_END)
               (thn (db_writeidx F key 0 SEEK_END ptr)
               (bnd (gets idxoff) (\<lambda>ioff.
               thn (db_writeptr F coff ioff)
               (thn (modify (\<lambda>s. s\<lparr>cnt_stor1 := cnt_stor1 s + 1\<rparr>)) (ret 0)))))
             else
               bnd (gets datoff) (\<lambda>off.
               thn (db_writedat F data off SEEK_SET)
               (bnd (gets idxoff) (\<lambda>ioff.
               thn (db_writeidx F key ioff SEEK_SET ptr)
               (bnd (gets idxoff) (\<lambda>ioff'.
               thn (db_writeptr F coff ioff')
               (thn (modify (\<lambda>s. s\<lparr>cnt_stor2 := cnt_stor2 s + 1\<rparr>)) (ret 0))))))))))
          )
        else if flag = DB_INSERT
        then thn (modify (\<lambda>s. s\<lparr>cnt_storerr := cnt_storerr s + 1\<rparr>)) (ret 1)
        else
          bnd (gets datlen) (\<lambda>olen.
          if dlen \<noteq> olen
          then
            thn (db_dodelete F)
            (bnd (gets chainoff) (\<lambda>coff.
            bnd (db_readptr F coff) (\<lambda>ptr.
            thn (db_writedat F data 0 SEEK_END)
            (thn (db_writeidx F key 0 SEEK_END ptr)
            (bnd (gets idxoff) (\<lambda>ioff.
            thn (db_writeptr F coff ioff)
            (thn (modify (\<lambda>s. s\<lparr>cnt_stor3 := cnt_stor3 s + 1\<rparr>)) (ret 0))))))))
          else
            bnd (gets datoff) (\<lambda>off.
            thn (db_writedat F data off SEEK_SET)
            (thn (modify (\<lambda>s. s\<lparr>cnt_stor4 := cnt_stor4 s + 1\<rparr>)) (ret 0))))) (\<lambda>rc.
      bnd (gets chainoff) (\<lambda>coff.
      thn (or_dump (un_lock F Idx coff 1) ''db_store: un_lock error'')
      (ret rc))))))))"

section \<open>Opening, closing, walking\<close>

definition db_rewind :: "faults \<Rightarrow> unit dbm" where
  "db_rewind F =
     bnd (gets (\<lambda>s. int ((nhash s + 1) * PTR_SZ))) (\<lambda>offset.
     bnd (sys_lseek F Idx (offset + 1) SEEK_SET) (\<lambda>p.
     thn (modify (\<lambda>s. s\<lparr>idxoff := p\<rparr>))
     (require (p \<noteq> -1) (ErrDump ''db_rewind: lseek error''))))"

text \<open>
  The \<^verbatim>\<open>do\<close> loop of \<^verbatim>\<open>db_nextrec\<close>: \<open>False\<close> at the end of the
  index file, \<open>True\<close> with a record whose key is not all blank. Every turn reads
  at least one byte, so the file's length bounds the turns.
\<close>

fun nextrec_loop :: "nat \<Rightarrow> faults \<Rightarrow> bool dbm" where
  "nextrec_loop 0 F = fail_with Diverges"
| "nextrec_loop (Suc fuel) F =
     bnd (db_readidx F 0) (\<lambda>r.
     if r < 0 then ret False
     else bnd (gets (\<lambda>s. list_all (\<lambda>c. c = SPACE) (idxbuf s))) (\<lambda>blank.
          if blank then nextrec_loop fuel F else ret True))"

text \<open>The key copied out and the data, or \<open>None\<close> at the end.\<close>

definition db_nextrec :: "faults \<Rightarrow> (string \<times> string) option dbm" where
  "db_nextrec F =
     thn (or_dump (readw_lock F Idx FREE_OFF 1) ''db_nextrec: readw_lock error'')
     (bnd (gets (\<lambda>s. Suc (length (fbytes (idxfd s))))) (\<lambda>fuel.
     bnd (nextrec_loop fuel F) (\<lambda>more.
     bnd (if more
          then bnd (gets idxbuf) (\<lambda>key.
               bnd (db_readdat F) (\<lambda>d.
               thn (modify (\<lambda>s. s\<lparr>cnt_nextrec := cnt_nextrec s + 1\<rparr>)) (ret (Some (key, d)))))
          else ret None) (\<lambda>res.
     thn (or_dump (un_lock F Idx FREE_OFF 1) ''db_nextrec: un_lock error'')
     (ret res)))))"

text \<open>
  A directory as a map from path names to contents. \<^verbatim>\<open>open\<close> refuses a path
  that is missing without \<open>O_CREAT\<close>, or that the permissions deny (\<open>deny\<close>).
\<close>

type_synonym fs = "string \<rightharpoonup> char list"

definition O_CREAT :: "32 word" where "O_CREAT = 0x40"
definition O_TRUNC :: "32 word" where "O_TRUNC = 0x200"

unbundle bit_operations_syntax

definition fs_open :: "(string \<Rightarrow> bool) \<Rightarrow> string \<Rightarrow> 32 word \<Rightarrow> fs \<Rightarrow> ofile option \<times> fs" where
  "fs_open deny path oflag d =
     (if deny path then (None, d)
      else case d path of
        None \<Rightarrow>
          if oflag AND O_CREAT \<noteq> 0
          then (Some \<lparr>fbytes = [], fpos = 0, flocks = no_locks\<rparr>, d(path \<mapsto> [])) else (None, d)
      | Some bs \<Rightarrow>
          let bs' = (if oflag AND O_TRUNC \<noteq> 0 then [] else bs)
          in (Some \<lparr>fbytes = bs', fpos = 0, flocks = no_locks\<rparr>, d(path \<mapsto> bs')))"

text \<open>
  \<^verbatim>\<open>_db_alloc\<close>: the zeroed structure with no descriptors, then the three
  buffers; a failed allocation ends the process.
\<close>

definition closed_file :: ofile where
  "closed_file = \<lparr>fbytes = [], fpos = 0, flocks = no_locks\<rparr>"

definition db_zero :: DB where
  "db_zero =
     \<lparr>idxfd = closed_file, datfd = closed_file, idxbuf = [], datbuf = [], dbname = [], idxoff = 0,
      idxlen = 0, datoff = 0, datlen = 0, ptrval = 0, ptroff = 0, chainoff = 0, hashoff = 0, nhash = 0,
      cnt_delok = 0, cnt_delerr = 0, cnt_fetchok = 0, cnt_fetcherr = 0, cnt_nextrec = 0,
      cnt_stor1 = 0, cnt_stor2 = 0, cnt_stor3 = 0, cnt_stor4 = 0, cnt_storerr = 0, errno = 0\<rparr>"

definition sys_alloc :: "faults \<Rightarrow> string \<Rightarrow> string \<Rightarrow> unit dbm" where
  "sys_alloc F what msg = (\<lambda>s. if F (Sys_alloc what) s then Inl (ErrDump msg) else Inr ((), s))"

definition db_alloc :: "faults \<Rightarrow> unit dbm" where
  "db_alloc F =
     thn (sys_alloc F ''DB'' ''_db_alloc: calloc error for DB'')
     (thn (modify (\<lambda>_. db_zero))
     (thn (sys_alloc F ''name'' ''_db_alloc: malloc error for name'')
     (thn (sys_alloc F ''idxbuf'' ''_db_alloc: malloc error for index buffer'')
     (sys_alloc F ''datbuf'' ''_db_alloc: malloc error for data buffer''))))"

text \<open>The initial table: \<open>NHASH_DEF + 1\<close> pointers of value 0 and a newline.\<close>

definition db_init_table :: "char list" where
  "db_init_table = concat (replicate (NHASH_DEF + 1) (fmt_ptr PTR_SZ 0)) @ [NEWLINE]"

definition db_open_init :: "faults \<Rightarrow> unit dbm" where
  "db_open_init F =
     thn (or_dump (writew_lock F Idx 0 0) ''db_open: writew_lock error'')
     (bnd (\<lambda>s. if F (Sys_fstat Idx) s then Inl (ErrSys ''db_open: fstat error'')
               else Inr (length (fbytes (idxfd s)), s)) (\<lambda>st_size.
     thn (if st_size = 0
          then bnd (sys_write F Idx db_init_table) (\<lambda>n.
               require (n = int (length db_init_table)) (ErrDump ''db_open: index file init write error''))
          else ret ())
     (or_dump (un_lock F Idx 0 0) ''db_open: un_lock error'')))"

definition db_open ::
  "(string \<Rightarrow> bool) \<Rightarrow> faults \<Rightarrow> string \<Rightarrow> 32 word \<Rightarrow> fs \<Rightarrow> db_err + (DB option \<times> fs)" where
  "db_open deny F pathname oflag d =
     (case db_alloc F db_zero of
        Inl e \<Rightarrow> Inl e
      | Inr (_, s0) \<Rightarrow>
          (case fs_open deny (pathname @ ''.idx'') oflag d of (fi, d1) \<Rightarrow>
           case fs_open deny (pathname @ ''.dat'') oflag d1 of (fd, d2) \<Rightarrow>
           case (fi, fd) of
             (Some f1, Some f2) \<Rightarrow>
               (case thn (if oflag AND (O_CREAT OR O_TRUNC) = O_CREAT OR O_TRUNC
                          then db_open_init F else ret ()) (db_rewind F)
                      (s0\<lparr>nhash := NHASH_DEF, hashoff := HASH_OFF, dbname := pathname @ ''.dat'',
                          idxfd := f1, datfd := f2\<rparr>) of
                  Inl e \<Rightarrow> Inl e
                | Inr (_, s) \<Rightarrow> Inr (Some s, d2))
           | _ \<Rightarrow> Inr (None, d2)))"

text \<open>Closing: what the library wrote is in the files.\<close>

definition db_close :: "string \<Rightarrow> DB \<Rightarrow> fs \<Rightarrow> fs" where
  "db_close pathname s d =
     d(pathname @ ''.idx'' \<mapsto> fbytes (idxfd s), pathname @ ''.dat'' \<mapsto> fbytes (datfd s))"

end
