(* ===== verification/Db_Layout.thy ===== *)
theory Db_Layout
  imports Db
begin

text \<open>
  What the two files of a database hold: the index file is a table of chain pointers
  and a sequence of records, the data file the sequence of their data. The lemmas
  say what each low-level routine of \<^verbatim>\<open>db.c\<close> (\<open>db_readptr\<close>,
  \<open>db_readidx\<close>, \<open>db_writeptr\<close>, \<open>db_writeidx\<close>, \<open>db_readdat\<close>,
  \<open>db_writedat\<close>) does on the bytes of such files, in terms of the records.
\<close>

section \<open>Definitions\<close>

record arec =
  a_ptr :: nat
  a_key :: string
  a_doff :: nat
  a_dat :: string

record adb =
  a_heads :: "nat list"
  a_recs :: "arec list"

definition rec_body :: "arec \<Rightarrow> char list" where
  "rec_body r =
     a_key r @ [SEP] @ dec (a_doff r) @ [SEP] @ dec (length (a_dat r) + 1) @ [NEWLINE]"

definition enc_ptr :: "nat \<Rightarrow> char list" where
  "enc_ptr p = fmt_ptr PTR_SZ (int p)"

definition enc_rec :: "arec \<Rightarrow> char list" where
  "enc_rec r = enc_ptr (a_ptr r) @ fmt_ptr IDXLEN_SZ (int (length (rec_body r))) @ rec_body r"

definition enc_dat :: "arec \<Rightarrow> char list" where
  "enc_dat r = a_dat r @ [NEWLINE]"

definition head_table :: "nat list \<Rightarrow> char list" where
  "head_table hs = concat (map enc_ptr hs) @ [NEWLINE]"

definition enc_idx :: "adb \<Rightarrow> char list" where
  "enc_idx d = head_table (a_heads d) @ concat (map enc_rec (a_recs d))"

definition enc_datfile :: "adb \<Rightarrow> char list" where
  "enc_datfile d = concat (map enc_dat (a_recs d))"

definition hdr_len :: "adb \<Rightarrow> nat" where
  "hdr_len d = length (a_heads d) * PTR_SZ + 1"

text \<open>Where the \<open>i\<close>-th record starts in the index file.\<close>

definition roff :: "adb \<Rightarrow> nat \<Rightarrow> nat" where
  "roff d i = hdr_len d + off_of enc_rec (a_recs d) i"

text \<open>
  A record that the library can read back: the fields fit, no null byte in a string,
  no separator in the key.
\<close>

definition wf_rec :: "arec \<Rightarrow> bool" where
  "wf_rec r \<longleftrightarrow>
     a_ptr r \<le> PTR_MAX \<and> int (a_doff r) \<le> LONG_MAX \<and>
     NUL \<notin> set (a_key r) \<and> SEP \<notin> set (a_key r) \<and> NUL \<notin> set (a_dat r) \<and>
     DATLEN_MIN \<le> length (a_dat r) + 1 \<and> length (a_dat r) + 1 \<le> DATLEN_MAX \<and>
     IDXLEN_MIN \<le> length (rec_body r) \<and> length (rec_body r) \<le> IDXLEN_MAX"

definition wf_adb :: "adb \<Rightarrow> bool" where
  "wf_adb d \<longleftrightarrow>
     (\<forall>p \<in> set (a_heads d). p \<le> PTR_MAX) \<and> (\<forall>r \<in> set (a_recs d). wf_rec r) \<and>
     (\<forall>i < length (a_recs d). a_doff (a_recs d ! i) = off_of enc_dat (a_recs d) i)"

text \<open>The open database \<open>s\<close> holds the files that \<open>d\<close> describes.\<close>

definition files :: "DB \<Rightarrow> adb \<Rightarrow> bool" where
  "files s d \<longleftrightarrow>
     fbytes (idxfd s) = enc_idx d \<and> fbytes (datfd s) = enc_datfile d \<and>
     length (a_heads d) = nhash s + 1 \<and> hashoff s = HASH_OFF \<and> wf_adb d"

section \<open>Fields and records\<close>

lemma length_fmt_ptr:
  "0 \<le> v \<Longrightarrow> nat v < 10 ^ Suc k \<Longrightarrow> w = Suc k \<Longrightarrow> length (fmt_ptr w v) = w"
  using length_dec_le [of "nat v" k] by (simp add: fmt_ptr_def length_pad)

lemma length_enc_ptr [simp]: "p \<le> PTR_MAX \<Longrightarrow> length (enc_ptr p) = PTR_SZ"
  unfolding enc_ptr_def by (rule length_fmt_ptr [where k = 6]) auto

lemma length_fmt_len [simp]: "n \<le> IDXLEN_MAX \<Longrightarrow> length (fmt_ptr IDXLEN_SZ (int n)) = IDXLEN_SZ"
  by (rule length_fmt_ptr [where k = 3]) auto

lemma atol_fmt_ptr [simp]: "int n \<le> LONG_MAX \<Longrightarrow> atol (fmt_ptr w (int n)) = int n"
  by (simp add: fmt_ptr_def atol_pad_dec)

lemma PTR_MAX_le_LONG_MAX: "n \<le> PTR_MAX \<Longrightarrow> int n \<le> LONG_MAX"
  by (simp add: LONG_MAX_def)

lemma atol_enc_ptr [simp]: "p \<le> PTR_MAX \<Longrightarrow> atol (enc_ptr p) = int p"
  by (simp add: enc_ptr_def PTR_MAX_le_LONG_MAX)

lemma length_enc_rec:
  "wf_rec r \<Longrightarrow> length (enc_rec r) = PTR_SZ + IDXLEN_SZ + length (rec_body r)"
  by (simp add: enc_rec_def wf_rec_def)

lemma length_enc_dat [simp]: "length (enc_dat r) = length (a_dat r) + 1"
  by (simp add: enc_dat_def)

text \<open>Replacing the pointer of a record leaves the rest of its text alone.\<close>

lemma rec_body_ptr [simp]: "rec_body (r\<lparr>a_ptr := p\<rparr>) = rec_body r"
  by (simp add: rec_body_def)

lemma enc_dat_ptr [simp]: "enc_dat (r\<lparr>a_ptr := p\<rparr>) = enc_dat r"
  by (simp add: enc_dat_def)

lemma overwrite_rec_ptr:
  assumes "a_ptr r \<le> PTR_MAX" and "p \<le> PTR_MAX"
  shows "overwrite (enc_rec r) 0 (enc_ptr p) = enc_rec (r\<lparr>a_ptr := p\<rparr>)"
proof -
  have "overwrite (enc_ptr (a_ptr r)) 0 (enc_ptr p) = enc_ptr p"
    using assms by (intro overwrite_all) simp
  with assms show ?thesis
    by (simp add: enc_rec_def overwrite_append_left)
qed

section \<open>Parsing a record back\<close>

lemma split_sep_app [simp]: "SEP \<notin> set a \<Longrightarrow> split_sep (a @ SEP # b) = Some (a, b)"
  by (simp add: split_sep_def)

lemma cstr_body:
  assumes "wf_rec r"
  shows "cstr (butlast (rec_body r)) =
    a_key r @ SEP # dec (a_doff r) @ SEP # dec (length (a_dat r) + 1)"
proof -
  have "butlast (rec_body r) = a_key r @ SEP # dec (a_doff r) @ SEP # dec (length (a_dat r) + 1)"
    by (simp add: rec_body_def butlast_append)
  moreover have "NUL \<notin> set (a_key r @ SEP # dec (a_doff r) @ SEP # dec (length (a_dat r) + 1))"
    using assms by (simp add: wf_rec_def)
  ultimately show ?thesis by simp
qed

lemma split_body:
  assumes "wf_rec r"
  shows "split_sep (cstr (butlast (rec_body r))) =
    Some (a_key r, dec (a_doff r) @ SEP # dec (length (a_dat r) + 1))"
  using assms by (simp add: cstr_body wf_rec_def)

lemma last_body [simp]: "last (rec_body r) = NEWLINE"
  by (simp add: rec_body_def)

section \<open>Positions in the index file\<close>

lemma wf_adb_recD: "wf_adb d \<Longrightarrow> i < length (a_recs d) \<Longrightarrow> wf_rec (a_recs d ! i)"
  by (simp add: wf_adb_def)

lemma wf_adb_headD: "wf_adb d \<Longrightarrow> j < length (a_heads d) \<Longrightarrow> a_heads d ! j \<le> PTR_MAX"
  by (simp add: wf_adb_def)

lemma wf_adb_doffD:
  "wf_adb d \<Longrightarrow> i < length (a_recs d) \<Longrightarrow> a_doff (a_recs d ! i) = off_of enc_dat (a_recs d) i"
  by (simp add: wf_adb_def)

lemma off_of_heads:
  "wf_adb d \<Longrightarrow> j \<le> length (a_heads d) \<Longrightarrow> off_of enc_ptr (a_heads d) j = PTR_SZ * j"
  by (rule off_of_const) (auto simp: wf_adb_def)

lemma length_head_table:
  "wf_adb d \<Longrightarrow> length (head_table (a_heads d)) = hdr_len d"
  using off_of_heads [of d "length (a_heads d)"] by (simp add: off_of_length head_table_def hdr_len_def)

lemma length_enc_idx: "wf_adb d \<Longrightarrow> length (enc_idx d) = roff d (length (a_recs d))"
  using length_head_table [of d] by (simp add: enc_idx_def roff_def off_of_length)

lemma length_enc_datfile: "length (enc_datfile d) = off_of enc_dat (a_recs d) (length (a_recs d))"
  by (simp add: enc_datfile_def off_of_length)

lemma slice_head:
  assumes "wf_adb d" and "j < length (a_heads d)"
  shows "slice_at (PTR_SZ * j) PTR_SZ (enc_idx d) = enc_ptr (a_heads d ! j)"
proof -
  have len: "length (concat (map enc_ptr (a_heads d))) = PTR_SZ * length (a_heads d)"
    using length_head_table [OF assms(1)] by (simp add: head_table_def hdr_len_def)
  have "slice_at (PTR_SZ * j) PTR_SZ (enc_idx d) =
      slice_at (PTR_SZ * j) PTR_SZ (concat (map enc_ptr (a_heads d)))"
    using assms(2) len unfolding enc_idx_def head_table_def append_assoc
    by (intro slice_append_left) linarith
  also have "\<dots> = enc_ptr (a_heads d ! j)"
    using slice_concat_all [OF assms(2), of PTR_SZ enc_ptr] assms
    by (simp add: off_of_heads wf_adb_headD)
  finally show ?thesis .
qed

lemma slice_rec:
  assumes "wf_adb d" and "i < length (a_recs d)" and "p + n \<le> length (enc_rec (a_recs d ! i))"
  shows "slice_at (roff d i + p) n (enc_idx d) = slice_at p n (enc_rec (a_recs d ! i))"
proof -
  have "slice_at (roff d i + p) n (enc_idx d) =
      slice_at (off_of enc_rec (a_recs d) i + p) n (concat (map enc_rec (a_recs d)))"
    unfolding enc_idx_def
    by (subst slice_append_right) (simp_all only: length_head_table [OF assms(1)], simp_all add: roff_def)
  also have "\<dots> = slice_at p n (enc_rec (a_recs d ! i))"
    using assms(2,3) by (rule slice_concat_at)
  finally show ?thesis .
qed

lemma slice_rec_parts:
  assumes "wf_adb d" and "i < length (a_recs d)"
  defines "r \<equiv> a_recs d ! i"
  shows "slice_at (roff d i) PTR_SZ (enc_idx d) = enc_ptr (a_ptr r)"
    and "slice_at (roff d i) (PTR_SZ + IDXLEN_SZ) (enc_idx d) =
      enc_ptr (a_ptr r) @ fmt_ptr IDXLEN_SZ (int (length (rec_body r)))"
    and "slice_at (roff d i + (PTR_SZ + IDXLEN_SZ)) (length (rec_body r)) (enc_idx d) = rec_body r"
proof -
  have wf: "wf_rec r" using assms wf_adb_recD by blast
  then have len: "length (enc_rec r) = PTR_SZ + IDXLEN_SZ + length (rec_body r)"
    by (rule length_enc_rec)
  have p: "length (enc_ptr (a_ptr r)) = PTR_SZ"
    and l: "length (fmt_ptr IDXLEN_SZ (int (length (rec_body r)))) = IDXLEN_SZ"
    using wf by (simp_all add: wf_rec_def)
  have at: "\<And>p n. p + n \<le> length (enc_rec r) \<Longrightarrow>
      slice_at (roff d i + p) n (enc_idx d) = slice_at p n (enc_rec r)"
    unfolding r_def by (rule slice_rec [OF assms(1,2)])
  show "slice_at (roff d i) PTR_SZ (enc_idx d) = enc_ptr (a_ptr r)"
    using at [of 0 PTR_SZ] len p by (simp add: enc_rec_def slice_0)
  show "slice_at (roff d i) (PTR_SZ + IDXLEN_SZ) (enc_idx d) =
      enc_ptr (a_ptr r) @ fmt_ptr IDXLEN_SZ (int (length (rec_body r)))"
    using at [of 0 "PTR_SZ + IDXLEN_SZ"] len p l by (simp add: enc_rec_def slice_0)
  show "slice_at (roff d i + (PTR_SZ + IDXLEN_SZ)) (length (rec_body r)) (enc_idx d) = rec_body r"
    using at [of "PTR_SZ + IDXLEN_SZ" "length (rec_body r)"] len p l
    by (simp add: enc_rec_def slice_at_def)
qed

lemma slice_dat:
  assumes "wf_adb d" and "i < length (a_recs d)"
  shows "slice_at (a_doff (a_recs d ! i)) (length (a_dat (a_recs d ! i)) + 1) (enc_datfile d) =
    enc_dat (a_recs d ! i)"
  using assms by (simp add: enc_datfile_def wf_adb_doffD slice_concat_all)

section \<open>Writing inside the index and data files\<close>

text \<open>The places that hold a pointer: an entry of the table, or a record.\<close>

datatype slot = Head nat | Rec nat

fun slot_off :: "adb \<Rightarrow> slot \<Rightarrow> nat" where
  "slot_off d (Head j) = PTR_SZ * j"
| "slot_off d (Rec i) = roff d i"

fun slot_ok :: "adb \<Rightarrow> slot \<Rightarrow> bool" where
  "slot_ok d (Head j) \<longleftrightarrow> j < length (a_heads d)"
| "slot_ok d (Rec i) \<longleftrightarrow> i < length (a_recs d)"

fun get_slot :: "adb \<Rightarrow> slot \<Rightarrow> nat" where
  "get_slot d (Head j) = a_heads d ! j"
| "get_slot d (Rec i) = a_ptr (a_recs d ! i)"

fun set_slot :: "adb \<Rightarrow> slot \<Rightarrow> nat \<Rightarrow> adb" where
  "set_slot d (Head j) p = d\<lparr>a_heads := (a_heads d)[j := p]\<rparr>"
| "set_slot d (Rec i) p = d\<lparr>a_recs := (a_recs d)[i := (a_recs d ! i)\<lparr>a_ptr := p\<rparr>]\<rparr>"

definition set_rec :: "adb \<Rightarrow> nat \<Rightarrow> arec \<Rightarrow> adb" where
  "set_rec d i r = d\<lparr>a_recs := (a_recs d)[i := r]\<rparr>"

definition add_rec :: "adb \<Rightarrow> arec \<Rightarrow> adb" where
  "add_rec d r = d\<lparr>a_recs := a_recs d @ [r]\<rparr>"

lemma slice_slot:
  assumes "wf_adb d" and "slot_ok d sl"
  shows "slice_at (slot_off d sl) PTR_SZ (enc_idx d) = enc_ptr (get_slot d sl)"
  using assms by (cases sl) (simp_all add: slice_head slice_rec_parts)

lemma get_slot_le: "wf_adb d \<Longrightarrow> slot_ok d sl \<Longrightarrow> get_slot d sl \<le> PTR_MAX"
  using wf_adb_recD wf_rec_def by (cases sl) (auto simp: wf_adb_headD)

lemma overwrite_slot:
  assumes "wf_adb d" and "slot_ok d sl" and "p \<le> PTR_MAX"
  shows "overwrite (enc_idx d) (slot_off d sl) (enc_ptr p) = enc_idx (set_slot d sl p)"
proof (cases sl)
  case (Head j)
  with assms have j: "j < length (a_heads d)" by simp
  have len: "length (concat (map enc_ptr (a_heads d))) = PTR_SZ * length (a_heads d)"
    using length_head_table [OF assms(1)] by (simp add: head_table_def hdr_len_def)
  have "overwrite (concat (map enc_ptr (a_heads d))) (off_of enc_ptr (a_heads d) j + 0) (enc_ptr p) =
      concat (map enc_ptr ((a_heads d)[j := p]))"
    using assms j by (intro overwrite_concat_at overwrite_all) (simp_all add: wf_adb_headD)
  with assms j len Head show ?thesis
    by (simp add: enc_idx_def head_table_def overwrite_append_left off_of_heads)
next
  case (Rec i)
  with assms have i: "i < length (a_recs d)" by simp
  let ?r = "a_recs d ! i"
  have wf: "wf_rec ?r" using assms(1) i by (rule wf_adb_recD)
  have "overwrite (concat (map enc_rec (a_recs d))) (off_of enc_rec (a_recs d) i + 0) (enc_ptr p) =
      concat (map enc_rec ((a_recs d)[i := ?r\<lparr>a_ptr := p\<rparr>]))"
    using i wf assms(3)
    by (intro overwrite_concat_at overwrite_rec_ptr) (simp_all add: length_enc_rec wf_rec_def)
  with Rec show ?thesis
    using length_head_table [OF assms(1)]
    by (simp add: enc_idx_def roff_def overwrite_append_right)
qed

lemma overwrite_rec:
  assumes "wf_adb d" and "i < length (a_recs d)" and "length (enc_rec r) = length (enc_rec (a_recs d ! i))"
  shows "overwrite (enc_idx d) (roff d i) (enc_rec r) = enc_idx (set_rec d i r)"
proof -
  have "overwrite (concat (map enc_rec (a_recs d))) (off_of enc_rec (a_recs d) i + 0) (enc_rec r) =
      concat (map enc_rec ((a_recs d)[i := r]))"
    using assms by (intro overwrite_concat_at overwrite_all) simp_all
  then show ?thesis
    using length_head_table [OF assms(1)]
    by (simp add: enc_idx_def set_rec_def roff_def overwrite_append_right)
qed

lemma overwrite_dat:
  assumes "wf_adb d" and "i < length (a_recs d)" and "length (a_dat r) = length (a_dat (a_recs d ! i))"
  shows "overwrite (enc_datfile d) (a_doff (a_recs d ! i)) (enc_dat r) = enc_datfile (set_rec d i r)"
proof -
  have "overwrite (concat (map enc_dat (a_recs d))) (off_of enc_dat (a_recs d) i + 0) (enc_dat r) =
      concat (map enc_dat ((a_recs d)[i := r]))"
    using assms by (intro overwrite_concat_at overwrite_all) simp_all
  then show ?thesis
    using assms by (simp add: enc_datfile_def set_rec_def wf_adb_doffD)
qed

lemma enc_idx_add_rec: "enc_idx (add_rec d r) = enc_idx d @ enc_rec r"
  by (simp add: enc_idx_def add_rec_def)

lemma enc_datfile_add_rec: "enc_datfile (add_rec d r) = enc_datfile d @ enc_dat r"
  by (simp add: enc_datfile_def add_rec_def)

lemma enc_datfile_set_slot [simp]:
  "slot_ok d sl \<Longrightarrow> enc_datfile (set_slot d sl p) = enc_datfile d"
  by (cases sl) (simp_all add: enc_datfile_def map_update list_update_same_conv [THEN iffD2])

section \<open>Well-formedness under updates\<close>

text \<open>A record stored over another one of the same size.\<close>

definition same_size :: "arec \<Rightarrow> arec \<Rightarrow> bool" where
  "same_size r r' \<longleftrightarrow>
     length (a_key r') = length (a_key r) \<and> length (a_dat r') = length (a_dat r) \<and> a_doff r' = a_doff r"

lemma same_size_body: "same_size r r' \<Longrightarrow> length (rec_body r') = length (rec_body r)"
  by (simp add: same_size_def rec_body_def)

lemma same_size_enc:
  "same_size r r' \<Longrightarrow> wf_rec r \<Longrightarrow> wf_rec r' \<Longrightarrow> length (enc_rec r') = length (enc_rec r)"
  by (simp add: length_enc_rec same_size_body)

lemma wf_adb_set_rec:
  assumes "wf_adb d" and "i < length (a_recs d)" and "same_size (a_recs d ! i) r" and "wf_rec r"
  shows "wf_adb (set_rec d i r)"
proof -
  have off: "\<And>k. off_of enc_dat ((a_recs d)[i := r]) k = off_of enc_dat (a_recs d) k"
    using assms(3) by (intro off_of_update) (simp add: same_size_def)
  show ?thesis
    using assms off set_update_subset_insert [of "a_recs d" i r]
    by (auto simp: wf_adb_def set_rec_def same_size_def nth_list_update)
qed

lemma same_size_ptr [simp]: "same_size r (r\<lparr>a_ptr := p\<rparr>)"
  by (simp add: same_size_def)

lemma wf_rec_ptr: "wf_rec r \<Longrightarrow> p \<le> PTR_MAX \<Longrightarrow> wf_rec (r\<lparr>a_ptr := p\<rparr>)"
  by (simp add: wf_rec_def)

lemma set_slot_Rec: "set_slot d (Rec i) p = set_rec d i ((a_recs d ! i)\<lparr>a_ptr := p\<rparr>)"
  by (simp add: set_rec_def)

lemma wf_adb_set_slot:
  assumes "wf_adb d" and "slot_ok d sl" and "p \<le> PTR_MAX"
  shows "wf_adb (set_slot d sl p)"
proof (cases sl)
  case (Head j)
  then show ?thesis
    using assms set_update_subset_insert [of "a_heads d" j p] by (auto simp: wf_adb_def)
next
  case (Rec i)
  with assms have i: "i < length (a_recs d)" by simp
  show ?thesis
    unfolding Rec set_slot_Rec
    using assms i by (intro wf_adb_set_rec wf_rec_ptr wf_adb_recD same_size_ptr)
qed

lemma length_heads_set_slot [simp]: "length (a_heads (set_slot d sl p)) = length (a_heads d)"
  by (cases sl) simp_all

lemma heads_set_rec [simp]: "a_heads (set_rec d i r) = a_heads d"
  by (simp add: set_rec_def)

end
