(* ===== verification/Db_Chains.thy ===== *)
theory Db_Chains
  imports Db_Layout
begin

text \<open>
  The hash chains and the free list as lists of record numbers, the invariant that
  ties them to the pointers in the index file, and the map from keys to data that a
  database stands for. Three operations change them: a record is unlinked from a
  chain (\<open>detach\<close>), linked in front of one (\<open>attach\<close>), or added at the end of
  the files; the invariant and the map follow.
\<close>

section \<open>Definitions\<close>

text \<open>Following the pointers from a slot visits the records \<open>is\<close> and ends at 0.\<close>

fun path :: "adb \<Rightarrow> slot \<Rightarrow> nat list \<Rightarrow> bool" where
  "path d sl [] \<longleftrightarrow> get_slot d sl = 0"
| "path d sl (i # is) \<longleftrightarrow> i < length (a_recs d) \<and> get_slot d sl = roff d i \<and> path d (Rec i) is"

text \<open>The slot that points behind the records \<open>xs\<close> of chain \<open>j\<close>.\<close>

definition last_slot :: "nat \<Rightarrow> nat list \<Rightarrow> slot" where
  "last_slot j xs = (if xs = [] then Head j else Rec (last xs))"

abbreviation (input) key_of :: "adb \<Rightarrow> nat \<Rightarrow> string" where "key_of d i \<equiv> a_key (a_recs d ! i)"
abbreviation (input) dat_of :: "adb \<Rightarrow> nat \<Rightarrow> string" where "dat_of d i \<equiv> a_dat (a_recs d ! i)"

definition blank :: "string \<Rightarrow> bool" where
  "blank k \<longleftrightarrow> list_all (\<lambda>c. c = SPACE) k"

text \<open>
  Chain 0 is the free list, chain \<open>h + 1\<close> the hash chain of \<open>h\<close>. Every record
  outside \<open>X\<close> is on exactly one chain; records of the free list are blank; a hash
  chain holds keys of its hash value, each once.
\<close>

definition chain_inv :: "nat \<Rightarrow> adb \<Rightarrow> (nat \<Rightarrow> nat list) \<Rightarrow> nat set \<Rightarrow> bool" where
  "chain_inv nh d cs X \<longleftrightarrow>
     wf_adb d \<and> 0 < nh \<and> length (a_heads d) = nh + 1 \<and>
     (\<forall>j \<le> nh. path d (Head j) (cs j) \<and> distinct (cs j)) \<and>
     (\<forall>j \<le> nh. \<forall>k \<le> nh. j \<noteq> k \<longrightarrow> set (cs j) \<inter> set (cs k) = {}) \<and>
     (\<Union>j \<le> nh. set (cs j)) = {..<length (a_recs d)} - X \<and>
     (\<forall>i \<in> set (cs 0). blank (key_of d i)) \<and>
     (\<forall>h < nh. (\<forall>i \<in> set (cs (Suc h)). db_hash nh (key_of d i) = h) \<and>
       inj_on (key_of d) (set (cs (Suc h))))"

text \<open>The map the database stands for: the lookup in the chain of the key's hash.\<close>

definition pairs :: "adb \<Rightarrow> nat list \<Rightarrow> (string \<times> string) list" where
  "pairs d is = map (\<lambda>i. (key_of d i, dat_of d i)) is"

definition abs_map :: "nat \<Rightarrow> adb \<Rightarrow> (nat \<Rightarrow> nat list) \<Rightarrow> string \<Rightarrow> string option" where
  "abs_map nh d cs k = map_of (pairs d (cs (Suc (db_hash nh k)))) k"

definition detach :: "adb \<Rightarrow> slot \<Rightarrow> nat \<Rightarrow> adb" where
  "detach d sl i = set_slot d sl (a_ptr (a_recs d ! i))"

definition attach :: "adb \<Rightarrow> nat \<Rightarrow> nat \<Rightarrow> arec \<Rightarrow> adb" where
  "attach d j i r = set_slot (set_rec d i r) (Head j) (roff d i)"

section \<open>Paths\<close>

lemma path_cong:
  assumes "length (a_recs d') = length (a_recs d)" and "\<And>i. roff d' i = roff d i"
    and "get_slot d' sl' = get_slot d sl"
    and "\<And>i. i \<in> set is \<Longrightarrow> get_slot d' (Rec i) = get_slot d (Rec i)"
  shows "path d' sl' is = path d sl is"
proof (cases "is")
  case Nil
  with assms show ?thesis by simp
next
  case (Cons i0 ks)
  have "path d' (Rec i) ks = path d (Rec i) ks" if "i \<in> set is" "set ks \<subseteq> set is" for i ks
    using that
  proof (induction ks arbitrary: i)
    case Nil
    with assms(4) show ?case by simp
  next
    case (Cons k ks)
    with assms(1,2,4) show ?case by simp
  qed
  with Cons assms show ?thesis by auto
qed

lemma path_append:
  "path d (Head j) (xs @ ys) \<Longrightarrow> path d (last_slot j xs) ys"
proof -
  have "path d sl (xs @ ys) \<Longrightarrow> path d (if xs = [] then sl else Rec (last xs)) ys" for sl
    by (induction xs arbitrary: sl) (auto split: if_splits)
  then show "path d (Head j) (xs @ ys) \<Longrightarrow> path d (last_slot j xs) ys"
    by (simp add: last_slot_def)
qed

lemma path_less: "path d sl is \<Longrightarrow> i \<in> set is \<Longrightarrow> i < length (a_recs d)"
  by (induction "is" arbitrary: sl) auto

lemma path_roff_le:
  assumes "path d sl is" and "wf_adb d" and "slot_ok d sl" and "i \<in> set is"
  shows "roff d i \<le> PTR_MAX"
  using assms
proof (induction "is" arbitrary: sl)
  case Nil
  then show ?case by simp
next
  case (Cons k ks)
  then show ?case
  proof (cases "i = k")
    case True
    with Cons.prems get_slot_le [of d sl] show ?thesis by simp
  next
    case False
    with Cons.prems show ?thesis by (intro Cons.IH [of "Rec k"]) simp_all
  qed
qed

text \<open>Unlinking: the pointer in front of the record takes the record's own pointer.\<close>

lemma path_unlink:
  assumes "path d sl (xs @ i # ys)" and "distinct (xs @ i # ys)"
    and "\<And>k. sl = Rec k \<Longrightarrow> k \<notin> set (xs @ i # ys)"
    and "length (a_recs d') = length (a_recs d)" and "\<And>k. roff d' k = roff d k"
    and "get_slot d' (if xs = [] then sl else Rec (last xs)) = get_slot d (Rec i)"
    and "\<And>s. s \<noteq> (if xs = [] then sl else Rec (last xs)) \<Longrightarrow> get_slot d' s = get_slot d s"
  shows "path d' sl (xs @ ys)"
  using assms
proof (induction xs arbitrary: sl)
  case Nil
  have "path d' sl ys = path d (Rec i) ys"
  proof (rule path_cong)
    fix k assume "k \<in> set ys"
    with Nil.prems have "sl \<noteq> Rec k" by auto
    then show "get_slot d' (Rec k) = get_slot d (Rec k)" using Nil.prems(7) [of "Rec k"] by simp
  qed (use Nil.prems in simp_all)
  with Nil.prems show ?case by simp
next
  case (Cons x xs)
  have "path d' (Rec x) (xs @ ys)"
    by (rule Cons.IH) (use Cons.prems in \<open>auto split: if_splits\<close>)
  moreover have "get_slot d' sl = get_slot d sl"
  proof -
    have "sl \<noteq> Rec (last (x # xs))"
      using Cons.prems(3) by (metis append_Cons append_is_Nil_conv in_set_conv_decomp last_in_set
          list.distinct(1) UnCI set_append)
    with Cons.prems(7) show ?thesis by simp
  qed
  ultimately show ?case using Cons.prems by simp
qed


section \<open>Slots and offsets under updates\<close>

lemma get_set_slot:
  "slot_ok d sl \<Longrightarrow> get_slot (set_slot d sl p) sl' = (if sl' = sl then p else get_slot d sl')"
  by (cases sl; cases sl') (auto simp: nth_list_update)

lemma get_set_rec_Head [simp]: "get_slot (set_rec d i r) (Head j) = get_slot d (Head j)"
  by (simp add: set_rec_def)

lemma get_set_rec_Rec:
  "i < length (a_recs d) \<Longrightarrow>
   get_slot (set_rec d i r) (Rec k) = (if k = i then a_ptr r else get_slot d (Rec k))"
  by (simp add: set_rec_def)

lemma length_recs_set_slot [simp]: "length (a_recs (set_slot d sl p)) = length (a_recs d)"
  by (cases sl) simp_all

lemma length_recs_set_rec [simp]: "length (a_recs (set_rec d i r)) = length (a_recs d)"
  by (simp add: set_rec_def)

lemma slot_ok_set_slot [simp]: "slot_ok (set_slot d sl p) sl' = slot_ok d sl'"
  by (cases sl'; cases sl) simp_all

lemma slot_ok_set_rec [simp]: "slot_ok (set_rec d i r) sl' = slot_ok d sl'"
  by (cases sl') (simp_all add: set_rec_def)

lemma key_of_set_slot [simp]: "a_key (a_recs (set_slot d sl p) ! i) = a_key (a_recs d ! i)"
proof (cases sl)
  case (Rec k)
  then show ?thesis by (cases "k < length (a_recs d)") (simp_all add: nth_list_update list_update_beyond)
qed simp

lemma dat_of_set_slot [simp]: "a_dat (a_recs (set_slot d sl p) ! i) = a_dat (a_recs d ! i)"
proof (cases sl)
  case (Rec k)
  then show ?thesis by (cases "k < length (a_recs d)") (simp_all add: nth_list_update list_update_beyond)
qed simp

lemma nth_set_rec: "i < length (a_recs d) \<Longrightarrow> a_recs (set_rec d i r) ! k = (if k = i then r else a_recs d ! k)"
  by (simp add: set_rec_def nth_list_update)

lemma roff_set_rec:
  "length (enc_rec r) = length (enc_rec (a_recs d ! i)) \<Longrightarrow> roff (set_rec d i r) k = roff d k"
  by (simp add: roff_def hdr_len_def set_rec_def off_of_update)

lemma roff_set_slot:
  assumes "wf_adb d" and "slot_ok d sl" and "p \<le> PTR_MAX"
  shows "roff (set_slot d sl p) k = roff d k"
proof (cases sl)
  case (Head j)
  then show ?thesis by (simp add: roff_def hdr_len_def)
next
  case (Rec i)
  with assms have "wf_rec (a_recs d ! i)" by (simp add: wf_adb_recD)
  then have "length (enc_rec ((a_recs d ! i)\<lparr>a_ptr := p\<rparr>)) = length (enc_rec (a_recs d ! i))"
    using assms(3) by (simp add: length_enc_rec wf_rec_def)
  then show ?thesis unfolding Rec set_slot_Rec by (rule roff_set_rec)
qed

lemma roff_add_rec: "k \<le> length (a_recs d) \<Longrightarrow> roff (add_rec d r) k = roff d k"
  by (simp add: roff_def hdr_len_def add_rec_def off_of_append)

section \<open>Unlinking a record\<close>

lemma chain_invD:
  assumes "chain_inv nh d cs X"
  shows "wf_adb d" "0 < nh" "length (a_heads d) = nh + 1"
    "\<And>j. j \<le> nh \<Longrightarrow> path d (Head j) (cs j)" "\<And>j. j \<le> nh \<Longrightarrow> distinct (cs j)"
    "\<And>j k. j \<le> nh \<Longrightarrow> k \<le> nh \<Longrightarrow> j \<noteq> k \<Longrightarrow> set (cs j) \<inter> set (cs k) = {}"
    "(\<Union>j \<le> nh. set (cs j)) = {..<length (a_recs d)} - X"
    "\<And>i. i \<in> set (cs 0) \<Longrightarrow> blank (key_of d i)"
    "\<And>h i. h < nh \<Longrightarrow> i \<in> set (cs (Suc h)) \<Longrightarrow> db_hash nh (key_of d i) = h"
    "\<And>h. h < nh \<Longrightarrow> inj_on (key_of d) (set (cs (Suc h)))"
  using assms by (simp_all add: chain_inv_def)

lemma chain_invI:
  assumes "wf_adb d" "0 < nh" "length (a_heads d) = nh + 1"
    "\<And>j. j \<le> nh \<Longrightarrow> path d (Head j) (cs j)" "\<And>j. j \<le> nh \<Longrightarrow> distinct (cs j)"
    "\<And>j k. j \<le> nh \<Longrightarrow> k \<le> nh \<Longrightarrow> j \<noteq> k \<Longrightarrow> set (cs j) \<inter> set (cs k) = {}"
    "(\<Union>j \<le> nh. set (cs j)) = {..<length (a_recs d)} - X"
    "\<And>i. i \<in> set (cs 0) \<Longrightarrow> blank (key_of d i)"
    "\<And>h i. h < nh \<Longrightarrow> i \<in> set (cs (Suc h)) \<Longrightarrow> db_hash nh (key_of d i) = h"
    "\<And>h. h < nh \<Longrightarrow> inj_on (key_of d) (set (cs (Suc h)))"
  shows "chain_inv nh d cs X"
  using assms by (simp add: chain_inv_def)

lemma chain_inv_member:
  assumes "chain_inv nh d cs X" and "j \<le> nh" and "i \<in> set (cs j)"
  shows "i < length (a_recs d)" and "i \<notin> X" and "roff d i \<le> PTR_MAX"
proof -
  have "i \<in> (\<Union>j \<le> nh. set (cs j))" using assms(2,3) by blast
  then show "i < length (a_recs d)" "i \<notin> X" using chain_invD(7) [OF assms(1)] by auto
  show "roff d i \<le> PTR_MAX"
    using chain_invD [OF assms(1)] assms(2,3)
    by (intro path_roff_le [of d "Head j" "cs j"]) simp_all
qed

lemma last_slot_ok:
  assumes "chain_inv nh d cs X" and "j \<le> nh" and "cs j = xs @ ys"
  shows "slot_ok d (last_slot j xs)"
proof (cases "xs = []")
  case True
  with chain_invD(3) [OF assms(1)] assms(2) show ?thesis by (simp add: last_slot_def)
next
  case False
  then have "last xs \<in> set (cs j)" using assms(3) by simp
  with chain_inv_member(1) [OF assms(1,2)] False show ?thesis by (simp add: last_slot_def)
qed

lemma chain_inv_detach:
  assumes c: "chain_inv nh d cs X" and j: "j \<le> nh" and cj: "cs j = xs @ i # ys"
  shows "chain_inv nh (detach d (last_slot j xs) i) (cs(j := xs @ ys)) (insert i X)"
proof -
  let ?sl = "last_slot j xs" and ?d = "detach d (last_slot j xs) i" and ?cs = "cs(j := xs @ ys)"
  note D = chain_invD [OF c]
  have i: "i < length (a_recs d)" using chain_inv_member(1) [OF c j] cj by simp
  have ok: "slot_ok d ?sl" using c j cj by (rule last_slot_ok)
  have le: "a_ptr (a_recs d ! i) \<le> PTR_MAX" using get_slot_le [OF D(1), of "Rec i"] i by simp
  have roff: "\<And>k. roff ?d k = roff d k"
    using D(1) ok le by (simp add: detach_def roff_set_slot)
  have get: "\<And>s. get_slot ?d s = (if s = ?sl then a_ptr (a_recs d ! i) else get_slot d s)"
    using ok by (simp add: detach_def get_set_slot)
  have len: "length (a_recs ?d) = length (a_recs d)" by (simp add: detach_def)
  have path_j: "path ?d (Head j) (xs @ ys)"
    by (rule path_unlink [of d "Head j" xs i ys])
      (use D(4) [OF j] D(5) [OF j] cj roff len get in \<open>auto simp: last_slot_def\<close>)
  have path_k: "path ?d (Head k) (cs k)" if "k \<le> nh" "k \<noteq> j" for k
  proof -
    have slk: "Head k \<noteq> ?sl" "\<And>m. m \<in> set (cs k) \<Longrightarrow> Rec m \<noteq> ?sl"
      using that D(6) [OF that(1) j that(2)] cj by (auto simp: last_slot_def)
    have "path ?d (Head k) (cs k) = path d (Head k) (cs k)"
      using slk len roff by (intro path_cong) (auto simp: get simp del: get_slot.simps)
    with D(4) [OF that(1)] show ?thesis by simp
  qed
  have disj: "set (?cs k) \<inter> set (?cs l) = {}" if "k \<le> nh" "l \<le> nh" "k \<noteq> l" for k l
    using that D(6) [OF that] cj by auto
  have cover: "(\<Union>k \<le> nh. set (?cs k)) = {..<length (a_recs ?d)} - insert i X"
  proof -
    have "set (?cs k) = set (cs k) - {i}" if "k \<le> nh" for k
      using that D(5) [OF j] D(6) [OF that j] cj by auto
    then have "(\<Union>k \<le> nh. set (?cs k)) = (\<Union>k \<le> nh. set (cs k)) - {i}" by simp
    then show ?thesis unfolding D(7) len by auto
  qed
  have keys: "\<And>k. key_of ?d k = key_of d k" by (simp add: detach_def)
  have sub: "set (?cs k) \<subseteq> set (cs k)" for k using cj by auto
  have inj: "inj_on (key_of ?d) (set (?cs (Suc h)))" if "h < nh" for h
    using inj_on_subset [OF D(10) [OF that] sub [of "Suc h"]] by (simp add: detach_def)
  have wfd: "wf_adb ?d" using D(1) ok le by (simp add: detach_def wf_adb_set_slot)
  have dst: "distinct (?cs k)" if "k \<le> nh" for k
    using D(5) [OF that] D(5) [OF j] cj by auto
  have hl: "length (a_heads ?d) = nh + 1" using D(3) by (simp add: detach_def)
  have pth: "path ?d (Head k) (?cs k)" if "k \<le> nh" for k
    using path_j path_k [OF that] by (cases "k = j") simp_all
  have bl: "blank (key_of ?d k)" if "k \<in> set (?cs 0)" for k
    using D(8) subsetD [OF sub that] keys by simp
  have hs: "db_hash nh (key_of ?d k) = h" if "h < nh" "k \<in> set (?cs (Suc h))" for h k
    using D(9) [OF that(1) subsetD [OF sub that(2)]] keys by simp
  show ?thesis
    using wfd D(2) hl pth dst disj cover bl hs inj by (rule chain_invI)
qed

text \<open>A record off its hash chain is gone from the map; the free list does not matter.\<close>

lemma pairs_cong:
  "(\<And>m. m \<in> set ks \<Longrightarrow> a_recs d' ! m = a_recs d ! m) \<Longrightarrow> pairs d' ks = pairs d ks"
  by (simp add: pairs_def)

lemma pairs_detach [simp]: "pairs (detach d sl i) ks = pairs d ks"
  by (simp add: pairs_def detach_def)

lemma abs_map_detach_free: "abs_map nh (detach d sl i) (cs(0 := zs)) = abs_map nh d cs"
  by (simp add: abs_map_def fun_eq_iff)

lemma pairs_remove:
  assumes "inj_on (key_of d) (set (xs @ i # ys))" and "distinct (xs @ i # ys)"
  shows "map_of (pairs d (xs @ ys)) = (map_of (pairs d (xs @ i # ys)))(key_of d i := None)"
proof -
  have "key_of d i \<notin> key_of d ` set (xs @ ys)"
    using assms by (auto simp: inj_on_def)
  then have none: "map_of (pairs d (xs @ ys)) (key_of d i) = None"
    by (simp add: map_of_eq_None_iff pairs_def image_iff image_Un)
  show ?thesis
  proof
    fix x
    show "map_of (pairs d (xs @ ys)) x = ((map_of (pairs d (xs @ i # ys)))(key_of d i := None)) x"
      using none by (auto simp: pairs_def map_add_def split: option.splits)
  qed
qed

lemma abs_map_detach:
  assumes c: "chain_inv nh d cs X" and h: "h < nh" and ch: "cs (Suc h) = xs @ i # ys"
  shows "abs_map nh (detach d sl i) (cs(Suc h := xs @ ys)) = (abs_map nh d cs)(key_of d i := None)"
proof
  fix k
  note D = chain_invD [OF c]
  have hk: "db_hash nh (key_of d i) = h" using D(9) [OF h] ch by simp
  have u: "map_of (pairs d (xs @ ys)) = (map_of (pairs d (xs @ i # ys)))(key_of d i := None)"
    using D(10) [OF h] D(5) [of "Suc h"] h ch by (intro pairs_remove) simp_all
  show "abs_map nh (detach d sl i) (cs(Suc h := xs @ ys)) k = ((abs_map nh d cs)(key_of d i := None)) k"
  proof (cases "db_hash nh k = h")
    case True
    then show ?thesis using u ch by (simp add: abs_map_def)
  next
    case False
    then have "k \<noteq> key_of d i" using hk by blast
    with False show ?thesis by (simp add: abs_map_def)
  qed
qed

section \<open>Linking a record in front of a chain\<close>

lemma chain_inv_attach:
  assumes c: "chain_inv nh d cs X" and j: "j \<le> nh" and i: "i \<in> X" "i < length (a_recs d)"
    and sz: "same_size (a_recs d ! i) r" and wf: "wf_rec r"
    and ptr: "a_ptr r = a_heads d ! j" and le: "roff d i \<le> PTR_MAX"
    and free: "j = 0 \<Longrightarrow> blank (a_key r)"
    and bucket: "\<And>h. j = Suc h \<Longrightarrow> db_hash nh (a_key r) = h \<and> (\<forall>k \<in> set (cs j). key_of d k \<noteq> a_key r)"
  shows "chain_inv nh (attach d j i r) (cs(j := i # cs j)) (X - {i})"
proof -
  let ?d = "attach d j i r" and ?cs = "cs(j := i # cs j)" and ?d1 = "set_rec d i r"
  note D = chain_invD [OF c]
  have enc: "length (enc_rec r) = length (enc_rec (a_recs d ! i))"
    using sz wf wf_adb_recD [OF D(1) i(2)] by (simp add: same_size_enc)
  have wf1: "wf_adb ?d1" using D(1) i(2) sz wf by (rule wf_adb_set_rec)
  have ok: "slot_ok ?d1 (Head j)" using D(3) j by simp
  have roff: "\<And>k. roff ?d k = roff d k"
    using wf1 ok le by (simp add: attach_def roff_set_slot roff_set_rec [OF enc] del: set_slot.simps)
  have len: "length (a_recs ?d) = length (a_recs d)" by (simp add: attach_def del: set_slot.simps)
  have getH: "get_slot ?d (Head k) = (if k = j then roff d i else get_slot d (Head k))" for k
    unfolding attach_def by (subst get_set_slot [OF ok]) simp
  have getR: "get_slot ?d (Rec k) = (if k = i then a_ptr r else get_slot d (Rec k))" for k
    unfolding attach_def by (subst get_set_slot [OF ok]) (simp add: get_set_rec_Rec [OF i(2)] del: get_slot.simps)
  have new: "i \<notin> set (cs k)" if "k \<le> nh" for k
    using chain_inv_member(2) [OF c that] i(1) by blast
  have path_k: "path ?d (Head k) (cs k)" if "k \<le> nh" "k \<noteq> j" for k
  proof -
    have "path ?d (Head k) (cs k) = path d (Head k) (cs k)"
      using new [OF that(1)] that len roff
      by (intro path_cong) (auto simp: getH getR simp del: get_slot.simps)
    with D(4) [OF that(1)] show ?thesis by simp
  qed
  have "path ?d (Rec i) (cs j) = path d (Head j) (cs j)"
    using new [OF j] len roff ptr
    by (intro path_cong) (auto simp: getR simp del: get_slot.simps, simp)
  then have path_j: "path ?d (Head j) (i # cs j)"
    using D(4) [OF j] i(2) len roff by (simp add: getH del: get_slot.simps)
  have key: "key_of ?d k = (if k = i then a_key r else key_of d k)" for k
    by (simp add: attach_def nth_set_rec [OF i(2)] del: set_slot.simps)
  have same: "key_of ?d k = key_of d k" if "l \<le> nh" "k \<in> set (cs l)" for k l
    using key new that by auto
  have disj: "set (?cs k) \<inter> set (?cs l) = {}" if "k \<le> nh" "l \<le> nh" "k \<noteq> l" for k l
    using that D(6) [OF that] new [OF that(1)] new [OF that(2)] by auto
  have cover: "(\<Union>k \<le> nh. set (?cs k)) = {..<length (a_recs ?d)} - (X - {i})"
  proof -
    have "(\<Union>k \<le> nh. set (?cs k)) = insert i (\<Union>k \<le> nh. set (cs k))"
      using j by (auto split: if_splits)
    with D(7) i len show ?thesis by auto
  qed
  have bl: "blank (key_of ?d k)" if "k \<in> set (?cs 0)" for k
    using that D(8) same [of 0] free key by (cases "j = 0") auto
  have hs: "db_hash nh (key_of ?d k) = h" if "h < nh" "k \<in> set (?cs (Suc h))" for h k
    using that D(9) [OF that(1)] same [of "Suc h" k] bucket key by (cases "j = Suc h") auto
  have inj: "inj_on (key_of ?d) (set (?cs (Suc h)))" if "h < nh" for h
  proof -
    have "inj_on (key_of ?d) (set (cs (Suc h)))"
      using D(10) [OF that] same [of "Suc h"] that by (simp add: inj_on_def)
    moreover have "key_of ?d i \<notin> key_of ?d ` set (cs (Suc h))" if "j = Suc h"
      using bucket [OF that] same [of "Suc h"] \<open>h < nh\<close> key that by force
    ultimately show ?thesis by (cases "j = Suc h") (auto simp: inj_on_insert)
  qed
  have wfd: "wf_adb ?d" unfolding attach_def using wf1 ok le by (rule wf_adb_set_slot)
  have hl: "length (a_heads ?d) = nh + 1" using D(3) by (simp add: attach_def del: set_slot.simps)
  have dst: "distinct (?cs k)" if "k \<le> nh" for k using D(5) [OF that] new [OF that] by auto
  have pth: "path ?d (Head k) (?cs k)" if "k \<le> nh" for k
    using path_j path_k that by (cases "k = j") auto
  show ?thesis
    using wfd D(2) hl pth dst disj cover bl hs inj by (rule chain_invI)
qed


text \<open>The map gains the record when the chain is a hash chain.\<close>

lemma pairs_attach:
  assumes "chain_inv nh d cs X" and "i \<in> X" and "i < length (a_recs d)" and "h < nh"
  shows "pairs (attach d j i r) (cs (Suc h)) = pairs d (cs (Suc h))"
proof -
  have "i \<notin> set (cs (Suc h))"
    using chain_inv_member(2) [OF assms(1), of "Suc h"] assms(2,4) by auto
  then show ?thesis
    by (auto simp: pairs_def attach_def nth_set_rec [OF assms(3)] simp del: set_slot.simps)
qed

lemma db_hash_less: "0 < nh \<Longrightarrow> db_hash nh k < nh"
  by (simp add: db_hash_def)

lemma abs_map_attach_free:
  assumes "chain_inv nh d cs X" and "i \<in> X" and "i < length (a_recs d)"
  shows "abs_map nh (attach d 0 i r) (cs(0 := zs)) = abs_map nh d cs"
  using pairs_attach [OF assms] db_hash_less [OF chain_invD(2) [OF assms(1)]]
  by (simp add: abs_map_def fun_eq_iff)

lemma abs_map_attach:
  assumes c: "chain_inv nh d cs X" and i: "i \<in> X" "i < length (a_recs d)"
    and h: "db_hash nh (a_key r) = h"
  shows "abs_map nh (attach d (Suc h) i r) (cs(Suc h := i # cs (Suc h))) =
    (abs_map nh d cs)(a_key r \<mapsto> a_dat r)"
proof
  fix k
  let ?d = "attach d (Suc h) i r"
  have rest: "pairs ?d (cs (Suc (db_hash nh k))) = pairs d (cs (Suc (db_hash nh k)))"
    using c i db_hash_less [OF chain_invD(2) [OF c]] by (rule pairs_attach)
  have "pairs ?d (i # ks) = (a_key r, a_dat r) # pairs ?d ks" for ks
    by (simp add: pairs_def attach_def nth_set_rec [OF i(2)] del: set_slot.simps)
  with rest show "abs_map nh ?d (cs(Suc h := i # cs (Suc h))) k = ((abs_map nh d cs)(a_key r \<mapsto> a_dat r)) k"
    using h by (auto simp: abs_map_def)
qed

section \<open>A new record at the end\<close>

lemma path_add_rec:
  assumes "path d sl is" and "slot_ok d sl"
  shows "path (add_rec d r) sl is"
  using assms
proof (induction "is" arbitrary: sl)
  case Nil
  then show ?case by (cases sl) (simp_all add: add_rec_def nth_append)
next
  case (Cons i ks)
  then have "path (add_rec d r) (Rec i) ks" by simp
  moreover have "get_slot (add_rec d r) sl = get_slot d sl"
    using Cons.prems(2) by (cases sl) (simp_all add: add_rec_def nth_append)
  ultimately show ?case
    using Cons.prems by (simp add: roff_add_rec) (simp add: add_rec_def)
qed

lemma wf_adb_add_rec:
  assumes "wf_adb d" and "wf_rec r" and "a_doff r = length (enc_datfile d)"
  shows "wf_adb (add_rec d r)"
  using assms
  by (auto simp: wf_adb_def add_rec_def nth_append off_of_append length_enc_datfile less_Suc_eq)

lemma chain_inv_add_rec:
  assumes c: "chain_inv nh d cs X" and "wf_rec r" and "a_doff r = length (enc_datfile d)"
  shows "chain_inv nh (add_rec d r) cs (insert (length (a_recs d)) X)"
    and "abs_map nh (add_rec d r) cs = abs_map nh d cs"
proof -
  note D = chain_invD [OF c]
  have old: "a_recs (add_rec d r) ! i = a_recs d ! i" if "j \<le> nh" "i \<in> set (cs j)" for i j
    using chain_inv_member(1) [OF c that] by (simp add: add_rec_def nth_append)
  have hd: "a_heads (add_rec d r) = a_heads d" by (simp add: add_rec_def)
  have pth: "path (add_rec d r) (Head j) (cs j)" if "j \<le> nh" for j
    using D(4) [OF that] D(3) that by (intro path_add_rec) simp_all
  have cover: "(\<Union>j \<le> nh. set (cs j)) = {..<length (a_recs (add_rec d r))} - insert (length (a_recs d)) X"
    unfolding D(7) by (auto simp: add_rec_def)
  have bl: "blank (key_of (add_rec d r) i)" if "i \<in> set (cs 0)" for i
    using that D(8) old [of 0] by simp
  have hs: "db_hash nh (key_of (add_rec d r) i) = h" if "h < nh" "i \<in> set (cs (Suc h))" for h i
    using that D(9) old [of "Suc h"] by simp
  have inj: "inj_on (key_of (add_rec d r)) (set (cs (Suc h)))" if "h < nh" for h
    using D(10) [OF that] old [of "Suc h"] that by (simp add: inj_on_def)
  have wfd: "wf_adb (add_rec d r)" using D(1) assms(2,3) by (rule wf_adb_add_rec)
  have hl: "length (a_heads (add_rec d r)) = nh + 1" using D(3) hd by simp
  show "chain_inv nh (add_rec d r) cs (insert (length (a_recs d)) X)"
    using wfd D(2) hl pth D(5) D(6) cover bl hs inj by (rule chain_invI)
  have "pairs (add_rec d r) (cs (Suc (db_hash nh k))) = pairs d (cs (Suc (db_hash nh k)))" for k
    using old [of "Suc (db_hash nh k)"] db_hash_less [OF D(2), of k] by (intro pairs_cong) (simp add: Suc_leI)
  then show "abs_map nh (add_rec d r) cs = abs_map nh d cs"
    by (simp add: abs_map_def fun_eq_iff)
qed


section \<open>Replacing the data of a record\<close>

lemma pairs_lookup:
  "inj_on (key_of d) (set ks) \<Longrightarrow> m \<in> set ks \<Longrightarrow> map_of (pairs d ks) (key_of d m) = Some (dat_of d m)"
  by (induction ks) (auto simp: pairs_def inj_on_def)

lemma pairs_lookup_None:
  "(\<And>m. m \<in> set ks \<Longrightarrow> key_of d m \<noteq> k) \<Longrightarrow> map_of (pairs d ks) k = None"
  by (force simp: pairs_def map_of_eq_None_iff)

lemma chain_inv_set_dat:
  assumes c: "chain_inv nh d cs X" and h: "h < nh" and i: "i \<in> set (cs (Suc h))"
    and len: "length v = length (a_dat (a_recs d ! i))" and nul: "NUL \<notin> set v"
  defines "r \<equiv> (a_recs d ! i)\<lparr>a_dat := v\<rparr>"
  shows "chain_inv nh (set_rec d i r) cs X"
    and "abs_map nh (set_rec d i r) cs = (abs_map nh d cs)(key_of d i \<mapsto> v)"
proof -
  let ?d = "set_rec d i r"
  note D = chain_invD [OF c]
  have il: "i < length (a_recs d)" using chain_inv_member(1) [OF c _ i] h by simp
  have wi: "wf_rec (a_recs d ! i)" using D(1) il by (rule wf_adb_recD)
  have sz: "same_size (a_recs d ! i) r" using len by (simp add: same_size_def r_def)
  have wr: "wf_rec r" using wi nul len same_size_body [OF sz] by (simp add: wf_rec_def) (simp add: r_def)
  have rof: "roff ?d k = roff d k" for k
    using sz wi wr by (intro roff_set_rec same_size_enc)
  have rec: "a_recs ?d ! k = (if k = i then r else a_recs d ! k)" for k by (rule nth_set_rec [OF il])
  have key: "key_of ?d k = key_of d k" for k using rec by (simp add: r_def)
  have dat: "dat_of ?d k = (if k = i then v else dat_of d k)" for k using rec by (simp add: r_def)
  have pth: "path ?d (Head j) (cs j)" if "j \<le> nh" for j
  proof -
    have "path ?d (Head j) (cs j) = path d (Head j) (cs j)"
      using rof rec by (intro path_cong) (auto simp: r_def)
    then show ?thesis using D(4) [OF that] by simp
  qed
  have wfd: "wf_adb ?d" using D(1) il sz wr by (rule wf_adb_set_rec)
  show "chain_inv nh ?d cs X"
    by (rule chain_invI) (use wfd D pth key in simp_all)
  show "abs_map nh ?d cs = (abs_map nh d cs)(key_of d i \<mapsto> v)"
  proof
    fix k
    let ?ks = "cs (Suc (db_hash nh k))"
    have inj: "inj_on (key_of d) (set ?ks)" using D(10) db_hash_less [OF D(2)] by blast
    have inj': "inj_on (key_of ?d) (set ?ks)" using inj key by simp
    have ik: "i \<in> set ?ks" if "k = key_of d i" using that D(9) [OF h i] i by simp
    show "abs_map nh ?d cs k = ((abs_map nh d cs)(key_of d i \<mapsto> v)) k"
    proof (cases "\<exists>m \<in> set ?ks. key_of d m = k")
      case True
      then obtain m where m: "m \<in> set ?ks" "key_of d m = k" by blast
      have "abs_map nh ?d cs k = Some (dat_of ?d m)" "abs_map nh d cs k = Some (dat_of d m)"
        using pairs_lookup [OF inj' m(1)] pairs_lookup [OF inj m(1)] m(2) key by (simp_all add: abs_map_def)
      moreover have "m = i" if "k = key_of d i"
        using inj m ik [OF that] that by (auto simp: inj_on_def)
      ultimately show ?thesis using dat m(2) by auto
    next
      case False
      then have "k \<noteq> key_of d i" using ik by blast
      moreover have "abs_map nh ?d cs k = None" "abs_map nh d cs k = None"
        unfolding abs_map_def using False key by (auto intro!: pairs_lookup_None)
      ultimately show ?thesis by simp
    qed
  qed
qed

end
