(* ===== verification/Db_Steps.thy ===== *)
theory Db_Steps
  imports Db_Chains
begin

text \<open>
  The low-level routines of \<^verbatim>\<open>db.c\<close> run on files that \<open>files\<close> describes,
  with no failing system call: each returns, and its effect on the bytes is an
  operation on the records.
\<close>

section \<open>System calls that succeed\<close>

lemma sys_lseek_Idx [cm_simps]:
  "0 \<le> off \<Longrightarrow> sys_lseek no_faults Idx off SEEK_SET s = Inr (off, s\<lparr>idxfd := (idxfd s)\<lparr>fpos := nat off\<rparr>\<rparr>)"
  "sys_lseek no_faults Idx 0 SEEK_CUR s = Inr (int (fpos (idxfd s)), s)"
  "sys_lseek no_faults Idx 0 SEEK_END s =
     Inr (int (length (fbytes (idxfd s))), s\<lparr>idxfd := (idxfd s)\<lparr>fpos := length (fbytes (idxfd s))\<rparr>\<rparr>)"
  by (simp_all add: sys_lseek_def no_faults_def)

lemma sys_lseek_Dat [cm_simps]:
  "0 \<le> off \<Longrightarrow> sys_lseek no_faults Dat off SEEK_SET s = Inr (off, s\<lparr>datfd := (datfd s)\<lparr>fpos := nat off\<rparr>\<rparr>)"
  "sys_lseek no_faults Dat 0 SEEK_END s =
     Inr (int (length (fbytes (datfd s))), s\<lparr>datfd := (datfd s)\<lparr>fpos := length (fbytes (datfd s))\<rparr>\<rparr>)"
  by (simp_all add: sys_lseek_def no_faults_def)

lemma sys_read_Idx [cm_simps]:
  "sys_read no_faults Idx n s =
     Inr ((int (length (slice_at (fpos (idxfd s)) n (fbytes (idxfd s)))),
           slice_at (fpos (idxfd s)) n (fbytes (idxfd s))),
          s\<lparr>idxfd := (idxfd s)\<lparr>fpos := fpos (idxfd s) + length (slice_at (fpos (idxfd s)) n (fbytes (idxfd s)))\<rparr>\<rparr>)"
  by (simp add: sys_read_def no_faults_def read_file_def Let_def)

lemma sys_read_Dat [cm_simps]:
  "sys_read no_faults Dat n s =
     Inr ((int (length (slice_at (fpos (datfd s)) n (fbytes (datfd s)))),
           slice_at (fpos (datfd s)) n (fbytes (datfd s))),
          s\<lparr>datfd := (datfd s)\<lparr>fpos := fpos (datfd s) + length (slice_at (fpos (datfd s)) n (fbytes (datfd s)))\<rparr>\<rparr>)"
  by (simp add: sys_read_def no_faults_def read_file_def Let_def)

lemma sys_write_apply [cm_simps]:
  "sys_write no_faults w bs s = Inr (int (length bs), upd w (write_file bs (sel w s)) s)"
  by (simp add: sys_write_def no_faults_def)

lemma or_dump_lock [cm_simps]:
  "or_dump (writew_lock no_faults w off len) msg s = Inr ((), upd w (lock_reg F_WRLCK off SEEK_SET len (sel w s)) s)"
  "or_dump (readw_lock no_faults w off len) msg s = Inr ((), upd w (lock_reg F_RDLCK off SEEK_SET len (sel w s)) s)"
  "or_dump (un_lock no_faults w off len) msg s = Inr ((), upd w (lock_reg F_UNLCK off SEEK_SET len (sel w s)) s)"
  by (simp_all add: or_dump_def readw_lock_def writew_lock_def un_lock_def sys_lock_def no_faults_def
        bnd_def require_def)

section \<open>Reading\<close>

lemma filesD:
  assumes "files s d"
  shows "fbytes (idxfd s) = enc_idx d" "fbytes (datfd s) = enc_datfile d"
    "length (a_heads d) = nhash s + 1" "hashoff s = HASH_OFF" "wf_adb d"
  using assms by (simp_all add: files_def)

lemma db_readptr_slot [cm_simps]:
  assumes "fbytes (idxfd s) = enc_idx d" and "wf_adb d" and "slot_ok d sl" and "off = int (slot_off d sl)"
  shows "db_readptr no_faults off s =
    Inr (int (get_slot d sl), s\<lparr>idxfd := (idxfd s)\<lparr>fpos := slot_off d sl + PTR_SZ\<rparr>\<rparr>)"
  using assms slice_slot [of d sl] get_slot_le [of d sl]
  by (simp add: db_readptr_def cm_simps)

text \<open>The state after reading the index record \<open>i\<close>.\<close>

definition at_rec :: "adb \<Rightarrow> nat \<Rightarrow> DB \<Rightarrow> DB" where
  "at_rec d i s =
     (let r = a_recs d ! i in
      s\<lparr>idxfd := (idxfd s)\<lparr>fpos := roff d (Suc i)\<rparr>, idxoff := int (roff d i), ptrval := int (a_ptr r),
        idxlen := length (rec_body r), idxbuf := a_key r, datoff := int (a_doff r),
        datlen := length (a_dat r) + 1\<rparr>)"

lemma roff_pos [simp]: "0 < roff d i"
  by (simp add: roff_def hdr_len_def)

lemma roff_ne [simp]: "roff d i \<noteq> 0"
  using roff_pos [of d i] by simp

lemma roff_Suc:
  "wf_adb d \<Longrightarrow> i < length (a_recs d) \<Longrightarrow>
   roff d (Suc i) = roff d i + (PTR_SZ + IDXLEN_SZ + length (rec_body (a_recs d ! i)))"
  using length_enc_rec [OF wf_adb_recD] by (simp add: roff_def off_of_Suc)

lemma db_readidx_rec [cm_simps]:
  assumes bytes: "fbytes (idxfd s) = enc_idx d" and wfd: "wf_adb d" and "i < length (a_recs d)"
    and "off = int (roff d i) \<or> off = 0 \<and> fpos (idxfd s) = roff d i"
  shows "db_readidx no_faults off s = Inr (int (a_ptr (a_recs d ! i)), at_rec d i s)"
proof -
  let ?r = "a_recs d ! i"
  have wf: "wf_rec ?r" using wfd assms(3) by (rule wf_adb_recD)
  have len: "length (enc_ptr (a_ptr ?r)) = PTR_SZ"
      "length (fmt_ptr IDXLEN_SZ (int (length (rec_body ?r)))) = IDXLEN_SZ"
      "int (length (rec_body ?r)) \<le> LONG_MAX" "int (Suc (length (a_dat ?r))) \<le> LONG_MAX"
      "int (a_doff ?r) \<le> LONG_MAX"
    using wf by (simp_all add: wf_rec_def LONG_MAX_def)
  have seek: "sys_lseek no_faults Idx off (if off = 0 then SEEK_CUR else SEEK_SET) s =
      Inr (int (roff d i), s\<lparr>idxfd := (idxfd s)\<lparr>fpos := roff d i\<rparr>\<rparr>)"
    using assms(4) by (auto simp: cm_simps)
  note parts = slice_rec_parts [OF wfd assms(3)]
  have dlen: "nat (1 + int (length (a_dat ?r))) = Suc (length (a_dat ?r))" by simp
  show ?thesis
    using wf len bytes parts
    by (simp add: db_readidx_def dlen cm_simps seek split_body wf_rec_def at_rec_def Let_def
        roff_Suc [OF wfd assms(3)] atol_dec)
qed


section \<open>Writing\<close>

text \<open>\<open>db_writeptr\<close> at a slot: the bytes of the database with that pointer changed.\<close>

definition idx_written :: "adb \<Rightarrow> nat \<Rightarrow> DB \<Rightarrow> DB" where
  "idx_written d p s = s\<lparr>idxfd := (idxfd s)\<lparr>fbytes := enc_idx d, fpos := p\<rparr>\<rparr>"

lemma db_writeptr_slot [cm_simps]:
  assumes "fbytes (idxfd s) = enc_idx d" and "wf_adb d" and "slot_ok d sl" and "off = int (slot_off d sl)"
    and "p \<le> PTR_MAX" and "v = int p"
  shows "db_writeptr no_faults off v s = Inr ((), idx_written (set_slot d sl p) (slot_off d sl + PTR_SZ) s)"
proof -
  have "fmt_ptr PTR_SZ v = enc_ptr p" using assms(6) by (simp add: enc_ptr_def)
  moreover have "overwrite (enc_idx d) (slot_off d sl) (enc_ptr p) = enc_idx (set_slot d sl p)"
    using assms by (intro overwrite_slot) simp_all
  ultimately show ?thesis
    using assms by (simp add: db_writeptr_def cm_simps write_file_def idx_written_def)
qed

text \<open>
  \<open>db_writedat\<close> and \<open>db_writeidx\<close> over an existing record: the new record has
  the same size, so its data and then its index entry replace the old ones in place.
\<close>

lemma db_writedat_over [cm_simps]:
  assumes "fbytes (datfd s) = enc_datfile d" and "wf_adb d" and "i < length (a_recs d)"
    and "off = int (a_doff (a_recs d ! i))" and "length (a_dat r) = length (a_dat (a_recs d ! i))"
  shows "db_writedat no_faults (a_dat r) off SEEK_SET s =
    Inr ((), s\<lparr>datfd := (datfd s)\<lparr>fbytes := enc_datfile (set_rec d i r),
                 fpos := a_doff (a_recs d ! i) + length (a_dat r) + 1\<rparr>,
               datoff := off, datlen := length (a_dat r) + 1\<rparr>)"
proof -
  have "overwrite (enc_datfile d) (a_doff (a_recs d ! i)) (a_dat r @ [NEWLINE]) = enc_datfile (set_rec d i r)"
    using overwrite_dat [OF assms(2,3,5)] by (simp add: enc_dat_def)
  then show ?thesis
    using assms by (simp add: db_writedat_def cm_simps write_file_def)
qed

lemma db_writeidx_over [cm_simps]:
  assumes "fbytes (idxfd s) = enc_idx d" and "wf_adb d" and "i < length (a_recs d)"
    and "off = int (roff d i)" and "wf_rec r" and "same_size (a_recs d ! i) r" and "v = int (a_ptr r)"
    and "datoff s = int (a_doff r)" and "datlen s = length (a_dat r) + 1"
  shows "db_writeidx no_faults (a_key r) off SEEK_SET v s =
    Inr ((), s\<lparr>idxfd := (idxfd s)\<lparr>fbytes := enc_idx (set_rec d i r), fpos := roff d (Suc i)\<rparr>,
               ptrval := v, idxbuf := rec_body r, idxoff := off\<rparr>)"
proof -
  have body: "a_key r @ SEP # dec (a_doff r) @ SEP # dec (Suc (length (a_dat r))) @ [NEWLINE] = rec_body r"
    by (simp add: rec_body_def)
  have wfi: "wf_rec (a_recs d ! i)" using assms(2,3) by (rule wf_adb_recD)
  have enc: "fmt_ptr PTR_SZ (int (a_ptr r)) @ fmt_ptr IDXLEN_SZ (int (length (rec_body r))) @ rec_body r = enc_rec r"
    by (simp add: enc_rec_def enc_ptr_def)
  have "overwrite (enc_idx d) (roff d i) (enc_rec r) = enc_idx (set_rec d i r)"
    using assms wfi by (intro overwrite_rec same_size_enc) simp_all
  moreover have "length (enc_rec r) = PTR_SZ + IDXLEN_SZ + length (rec_body r)"
    using assms(5) by (rule length_enc_rec)
  moreover have "roff d (Suc i) = roff d i + (PTR_SZ + IDXLEN_SZ + length (rec_body r))"
    using assms by (simp add: roff_Suc same_size_body)
  ultimately show ?thesis
    using assms(1,4,5,7,8,9)
    by (simp add: db_writeidx_def cm_simps write_file_def body enc wf_rec_def)
qed


lemma db_readdat_rec [cm_simps]:
  assumes "fbytes (datfd s) = enc_datfile d" and "wf_adb d" and "i < length (a_recs d)"
    and "datoff s = int (a_doff (a_recs d ! i))" and "datlen s = length (a_dat (a_recs d ! i)) + 1"
  shows "db_readdat no_faults s =
    Inr (a_dat (a_recs d ! i),
         s\<lparr>datfd := (datfd s)\<lparr>fpos := a_doff (a_recs d ! i) + length (a_dat (a_recs d ! i)) + 1\<rparr>,
           datbuf := a_dat (a_recs d ! i)\<rparr>)"
proof -
  have "slice_at (a_doff (a_recs d ! i)) (Suc (length (a_dat (a_recs d ! i)))) (enc_datfile d) =
      a_dat (a_recs d ! i) @ [NEWLINE]"
    using slice_dat [OF assms(2,3)] by (simp add: enc_dat_def)
  moreover have "NUL \<notin> set (a_dat (a_recs d ! i))"
    using wf_adb_recD [OF assms(2,3)] by (simp add: wf_rec_def)
  ultimately show ?thesis
    using assms by (simp add: db_readdat_def cm_simps)
qed

section \<open>Appending\<close>

lemma lock_write_unlock:
  assumes "\<And>i. start \<le> int i \<Longrightarrow> len = 0 \<or> int i < start + len \<Longrightarrow> flocks f i = None"
  shows "lock_reg F_UNLCK start SEEK_SET len ((lock_reg ty start SEEK_SET len f)\<lparr>fbytes := b, fpos := p\<rparr>) =
    f\<lparr>fbytes := b, fpos := p\<rparr>"
  using set_lock_unlock [of start len "flocks f" ty] assms
  by (simp add: lock_reg_def fcntl_setlk_def seek_base_def)

lemma write_file_at: "write_file bs (f\<lparr>fpos := p\<rparr>) = f\<lparr>fbytes := overwrite (fbytes f) p bs, fpos := p + length bs\<rparr>"
  by (simp add: write_file_def)

lemma db_writedat_append [cm_simps]:
  assumes "flocks (datfd s) = no_locks"
  shows "db_writedat no_faults data 0 SEEK_END s =
    Inr ((), s\<lparr>datfd := (datfd s)\<lparr>fbytes := fbytes (datfd s) @ data @ [NEWLINE],
                 fpos := length (fbytes (datfd s)) + length data + 1\<rparr>,
               datoff := int (length (fbytes (datfd s))), datlen := length data + 1\<rparr>)"
  using lock_write_unlock [where start = 0 and len = 0 and f = "datfd s" and ty = F_WRLCK] assms
  by (simp add: db_writedat_def cm_simps write_file_at overwrite_end no_locks_def)

lemma db_writeidx_append [cm_simps]:
  assumes "\<And>i. (nhash s + 1) * PTR_SZ + 1 \<le> i \<Longrightarrow> flocks (idxfd s) i = None"
    and "wf_rec r" and "v = int (a_ptr r)"
    and "datoff s = int (a_doff r)" and "datlen s = length (a_dat r) + 1"
  shows "db_writeidx no_faults (a_key r) 0 SEEK_END v s =
    Inr ((), s\<lparr>idxfd := (idxfd s)\<lparr>fbytes := fbytes (idxfd s) @ enc_rec r,
                 fpos := length (fbytes (idxfd s)) + length (enc_rec r)\<rparr>,
               ptrval := v, idxbuf := rec_body r, idxoff := int (length (fbytes (idxfd s)))\<rparr>)"
proof -
  have body: "a_key r @ SEP # dec (a_doff r) @ SEP # dec (Suc (length (a_dat r))) @ [NEWLINE] = rec_body r"
    by (simp add: rec_body_def)
  have enc: "fmt_ptr PTR_SZ (int (a_ptr r)) @ fmt_ptr IDXLEN_SZ (int (length (rec_body r))) @ rec_body r = enc_rec r"
    by (simp add: enc_rec_def enc_ptr_def)
  have len: "length (enc_rec r) = PTR_SZ + IDXLEN_SZ + length (rec_body r)"
    using assms(2) by (rule length_enc_rec)
  have lock: "\<And>b p. lock_reg F_UNLCK (int ((nhash s + 1) * PTR_SZ) + 1) SEEK_SET 0
      ((lock_reg F_WRLCK (int ((nhash s + 1) * PTR_SZ) + 1) SEEK_SET 0 (idxfd s))\<lparr>fbytes := b, fpos := p\<rparr>) =
      (idxfd s)\<lparr>fbytes := b, fpos := p\<rparr>"
    using assms(1) by (intro lock_write_unlock) simp
  show ?thesis
    using assms(2-) len lock
    by (simp add: db_writeidx_def cm_simps write_file_at overwrite_end body enc wf_rec_def)
qed


section \<open>Walking a chain\<close>

text \<open>The state after a walk over the records \<open>is\<close> that finds nothing.\<close>

definition walked :: "adb \<Rightarrow> nat list \<Rightarrow> DB \<Rightarrow> DB" where
  "walked d is s = (if is = [] then s else (at_rec d (last is) s)\<lparr>ptroff := int (roff d (last is))\<rparr>)"

lemma at_rec_simps [simp]:
  "fbytes (idxfd (at_rec d i s)) = fbytes (idxfd s)" "flocks (idxfd (at_rec d i s)) = flocks (idxfd s)"
  "datfd (at_rec d i s) = datfd s" "idxbuf (at_rec d i s) = a_key (a_recs d ! i)"
  "datlen (at_rec d i s) = length (a_dat (a_recs d ! i)) + 1"
  "datoff (at_rec d i s) = int (a_doff (a_recs d ! i))" "idxoff (at_rec d i s) = int (roff d i)"
  "ptrval (at_rec d i s) = int (a_ptr (a_recs d ! i))" "nhash (at_rec d i s) = nhash s"
  "hashoff (at_rec d i s) = hashoff s" "chainoff (at_rec d i s) = chainoff s" "ptroff (at_rec d i s) = ptroff s"
  by (simp_all add: at_rec_def Let_def)

lemma at_rec_twice [simp]: "at_rec d i (at_rec d k s) = at_rec d i s"
  by (simp add: at_rec_def Let_def)

lemma at_rec_ptroff [simp]: "at_rec d i (s\<lparr>ptroff := p\<rparr>) = (at_rec d i s)\<lparr>ptroff := p\<rparr>"
  by (simp add: at_rec_def Let_def)

lemma walked_simps [simp]:
  "fbytes (idxfd (walked d is s)) = fbytes (idxfd s)" "flocks (idxfd (walked d is s)) = flocks (idxfd s)"
  "datfd (walked d is s) = datfd s" "nhash (walked d is s) = nhash s" "hashoff (walked d is s) = hashoff s"
  "chainoff (walked d is s) = chainoff s"
  by (simp_all add: walked_def)

lemma walked_Cons: "walked d is ((at_rec d i s)\<lparr>ptroff := int (roff d i)\<rparr>) = walked d (i # is) s"
  by (simp add: walked_def)

lemma find_loop_miss:
  assumes "fbytes (idxfd s) = enc_idx d" and "wf_adb d" and "path d sl is" and "length is \<le> fuel"
    and "\<And>k. k \<in> set is \<Longrightarrow> a_key (a_recs d ! k) \<noteq> key"
  shows "find_loop fuel no_faults key (int (get_slot d sl)) s = Inr (0, walked d is s)"
  using assms
proof (induction "is" arbitrary: sl s fuel)
  case Nil
  then show ?case by (cases fuel) (simp_all add: walked_def)
next
  case (Cons i ks)
  then obtain fuel' where fuel: "fuel = Suc fuel'" by (cases fuel) auto
  let ?s = "(at_rec d i s)\<lparr>ptroff := int (roff d i)\<rparr>"
  have "find_loop fuel' no_faults key (int (get_slot d (Rec i))) ?s = Inr (0, walked d ks ?s)"
    by (rule Cons.IH) (use Cons.prems fuel in simp_all)
  then show ?case
    using Cons.prems fuel by (simp add: cm_simps db_readidx_rec [of s d i] walked_Cons)
qed

lemma find_loop_hit:
  assumes "fbytes (idxfd s) = enc_idx d" and "wf_adb d" and "path d sl (xs @ i # ys)" and "length xs < fuel"
    and "\<And>k. k \<in> set xs \<Longrightarrow> a_key (a_recs d ! k) \<noteq> key" and "a_key (a_recs d ! i) = key"
  shows "find_loop fuel no_faults key (int (get_slot d sl)) s =
    Inr (int (roff d i), at_rec d i (walked d xs s))"
  using assms
proof (induction xs arbitrary: sl s fuel)
  case Nil
  then show ?case by (cases fuel) (simp_all add: walked_def cm_simps db_readidx_rec [of s d i])
next
  case (Cons k ks)
  then obtain fuel' where fuel: "fuel = Suc fuel'" by (cases fuel) auto
  let ?s = "(at_rec d k s)\<lparr>ptroff := int (roff d k)\<rparr>"
  have "find_loop fuel' no_faults key (int (get_slot d (Rec k))) ?s =
      Inr (int (roff d i), at_rec d i (walked d ks ?s))"
    by (rule Cons.IH) (use Cons.prems fuel in simp_all)
  then show ?case
    using Cons.prems fuel by (simp add: cm_simps db_readidx_rec [of s d k] walked_Cons)
qed

lemma findfree_loop_miss:
  assumes "fbytes (idxfd s) = enc_idx d" and "wf_adb d" and "path d sl is" and "length is \<le> fuel"
    and "\<And>k. k \<in> set is \<Longrightarrow> \<not> (length (a_key (a_recs d ! k)) = keylen \<and> length (a_dat (a_recs d ! k)) + 1 = dlen)"
  shows "findfree_loop fuel no_faults keylen dlen (int (slot_off d sl)) (int (get_slot d sl)) s =
    Inr ((0, int (slot_off d (if is = [] then sl else Rec (last is)))), if is = [] then s else at_rec d (last is) s)"
  using assms
proof (induction "is" arbitrary: sl s fuel)
  case Nil
  then show ?case by (cases fuel) simp_all
next
  case (Cons i ks)
  then obtain fuel' where fuel: "fuel = Suc fuel'" by (cases fuel) auto
  have "findfree_loop fuel' no_faults keylen dlen (int (slot_off d (Rec i))) (int (get_slot d (Rec i))) (at_rec d i s) =
      Inr ((0, int (slot_off d (if ks = [] then Rec i else Rec (last ks)))),
           if ks = [] then at_rec d i s else at_rec d (last ks) (at_rec d i s))"
    by (rule Cons.IH) (use Cons.prems fuel in simp_all)
  then show ?case
    using Cons.prems fuel by (simp add: cm_simps db_readidx_rec [of s d i])
qed

lemma findfree_loop_hit:
  assumes "fbytes (idxfd s) = enc_idx d" and "wf_adb d" and "path d sl (xs @ i # ys)" and "length xs < fuel"
    and "\<And>k. k \<in> set xs \<Longrightarrow> \<not> (length (a_key (a_recs d ! k)) = keylen \<and> length (a_dat (a_recs d ! k)) + 1 = dlen)"
    and "length (a_key (a_recs d ! i)) = keylen" and "length (a_dat (a_recs d ! i)) + 1 = dlen"
  shows "findfree_loop fuel no_faults keylen dlen (int (slot_off d sl)) (int (get_slot d sl)) s =
    Inr ((int (roff d i), int (slot_off d (if xs = [] then sl else Rec (last xs)))), at_rec d i s)"
  using assms
proof (induction xs arbitrary: sl s fuel)
  case Nil
  then show ?case by (cases fuel) (simp_all add: cm_simps db_readidx_rec [of s d i])
next
  case (Cons k ks)
  then obtain fuel' where fuel: "fuel = Suc fuel'" by (cases fuel) auto
  have "findfree_loop fuel' no_faults keylen dlen (int (slot_off d (Rec k))) (int (get_slot d (Rec k))) (at_rec d k s) =
      Inr ((int (roff d i), int (slot_off d (if ks = [] then Rec k else Rec (last ks)))), at_rec d i (at_rec d k s))"
    by (rule Cons.IH) (use Cons.prems fuel in simp_all)
  moreover have "\<not> (length (a_key (a_recs d ! k)) = keylen \<and> length (a_dat (a_recs d ! k)) + 1 = dlen)"
    using Cons.prems(5) [of k] by simp
  ultimately show ?case
    using Cons.prems(1,2,3) fuel by (auto simp: cm_simps db_readidx_rec [of s d k])
qed

end
