(* ===== verification/Db_Refine.thy ===== *)
theory Db_Refine
  imports Db_Steps
begin

text \<open>
  The operations of \<^verbatim>\<open>db.c\<close> on a whole database: what the search, the
  deletion and the search of the free list do to the files, the chains and the
  locks, and, from that, that \<open>db_fetch\<close>, \<open>db_delete\<close> and \<open>db_store\<close>
  implement lookup, removal and update of a map from keys to data.
\<close>

section \<open>Definitions\<close>

text \<open>The handle \<open>s\<close> is open on a database that stands for the map \<open>m\<close>, no lock held.\<close>

definition db_rep :: "DB \<Rightarrow> (string \<Rightarrow> string option) \<Rightarrow> bool" where
  "db_rep s m \<longleftrightarrow> nhash s = NHASH_DEF \<and>
     (\<exists>d cs. files s d \<and> chain_inv (nhash s) d cs {} \<and> m = abs_map (nhash s) d cs \<and>
        flocks (idxfd s) = no_locks \<and> flocks (datfd s) = no_locks)"

text \<open>A key the format can hold: no null byte and no separator.\<close>

definition key_ok :: "string \<Rightarrow> bool" where
  "key_ok k \<longleftrightarrow> NUL \<notin> set k \<and> SEP \<notin> set k"

definition data_ok :: "string \<Rightarrow> bool" where
  "data_ok v \<longleftrightarrow> NUL \<notin> set v \<and> DATLEN_MIN \<le> length v + 1 \<and> length v + 1 \<le> DATLEN_MAX"

text \<open>The state after the chain of a key was locked and its first pointer read.\<close>

definition entered :: "lock_type \<Rightarrow> nat \<Rightarrow> DB \<Rightarrow> DB" where
  "entered ty j s =
     s\<lparr>chainoff := int (PTR_SZ * j), ptroff := int (PTR_SZ * j),
       idxfd := (lock_reg ty (int (PTR_SZ * j)) SEEK_SET 1 (idxfd s))\<lparr>fpos := PTR_SZ * j + PTR_SZ\<rparr>\<rparr>"

abbreviation (input) wlock :: "bool \<Rightarrow> lock_type" where
  "wlock w \<equiv> (if w then F_WRLCK else F_RDLCK)"

section \<open>The search\<close>

lemma entered_simps [simp]:
  "fbytes (idxfd (entered ty j s)) = fbytes (idxfd s)" "datfd (entered ty j s) = datfd s"
  "flocks (idxfd (entered ty j s)) = set_lock ty (int (PTR_SZ * j)) 1 (flocks (idxfd s))"
  "nhash (entered ty j s) = nhash s" "hashoff (entered ty j s) = hashoff s"
  "chainoff (entered ty j s) = int (PTR_SZ * j)" "ptroff (entered ty j s) = int (PTR_SZ * j)"
  by (simp_all add: entered_def)

lemma length_recs_le: "wf_adb d \<Longrightarrow> length (a_recs d) \<le> length (enc_idx d)"
proof -
  assume wf: "wf_adb d"
  have "k \<le> length (a_recs d) \<Longrightarrow> k \<le> off_of enc_rec (a_recs d) k" for k
  proof (induction k)
    case (Suc k)
    then have "1 \<le> length (enc_rec (a_recs d ! k))"
      using wf_adb_recD [OF wf, of k] by (simp add: length_enc_rec)
    moreover have "off_of enc_rec (a_recs d) (Suc k) = off_of enc_rec (a_recs d) k + length (enc_rec (a_recs d ! k))"
      using Suc.prems by (simp add: off_of_Suc)
    ultimately show ?case using Suc by linarith
  qed simp
  then show ?thesis using wf by (simp add: length_enc_idx roff_def trans_le_add2)
qed

lemma chain_length_le:
  assumes "chain_inv nh d cs X" and "j \<le> nh"
  shows "length (cs j) \<le> length (enc_idx d)"
proof -
  have "set (cs j) \<subseteq> {..<length (a_recs d)}" using chain_inv_member(1) [OF assms] by auto
  then have "card (set (cs j)) \<le> length (a_recs d)" using card_mono [of "{..<length (a_recs d)}"] by auto
  then have "length (cs j) \<le> length (a_recs d)"
    using distinct_card [OF chain_invD(5) [OF assms]] by simp
  then show ?thesis using length_recs_le [OF chain_invD(1) [OF assms(1)]] by simp
qed

lemma find_enter:
  assumes "files s d" and "0 < nhash s" and "j = Suc (db_hash (nhash s) key)"
  shows "db_find_and_lock no_faults key w s =
    bnd (find_loop (length (enc_idx d)) no_faults key (int (get_slot d (Head j))))
      (\<lambda>offset. ret (if offset = 0 then -1 else 0)) (entered (wlock w) j s)"
proof -
  have lt: "j < length (a_heads d)"
    using assms(2,3) filesD(3) [OF assms(1)] by (simp add: db_hash_less)
  have off: "int (db_hash (nhash s) key * PTR_SZ) + hashoff s = int (PTR_SZ * j)"
    using assms(3) filesD(4) [OF assms(1)] by simp
  have rd: "db_readptr no_faults (int (PTR_SZ * j)) s' =
      Inr (int (get_slot d (Head j)), s'\<lparr>idxfd := (idxfd s')\<lparr>fpos := slot_off d (Head j) + PTR_SZ\<rparr>\<rparr>)"
    if "fbytes (idxfd s') = enc_idx d" for s'
    using that lt filesD(5) [OF assms(1)] by (intro db_readptr_slot) simp_all
  show ?thesis
    using filesD(1) [OF assms(1)] off rd
    by (cases w) (simp_all add: db_find_and_lock_def cm_simps entered_def del: get_slot.simps)
qed

lemma find_miss:
  assumes "files s d" and "chain_inv (nhash s) d cs X" and "j = Suc (db_hash (nhash s) key)"
    and "\<And>k. k \<in> set (cs j) \<Longrightarrow> a_key (a_recs d ! k) \<noteq> key"
  shows "db_find_and_lock no_faults key w s = Inr (-1, walked d (cs j) (entered (wlock w) j s))"
proof -
  note D = chain_invD [OF assms(2)]
  have j: "j \<le> nhash s" using assms(3) db_hash_less [OF D(2), of key] by simp
  have "find_loop (length (enc_idx d)) no_faults key (int (get_slot d (Head j))) (entered (wlock w) j s) =
      Inr (0, walked d (cs j) (entered (wlock w) j s))"
    using assms D(1) D(4) [OF j] chain_length_le [OF assms(2) j] filesD(1) [OF assms(1)]
    by (intro find_loop_miss) simp_all
  then show ?thesis
    unfolding find_enter [OF assms(1) D(2) assms(3)] by (simp add: cm_simps)
qed

lemma find_hit:
  assumes "files s d" and "chain_inv (nhash s) d cs X" and "j = Suc (db_hash (nhash s) key)"
    and "cs j = xs @ i # ys" and "a_key (a_recs d ! i) = key"
  shows "db_find_and_lock no_faults key w s = Inr (0, at_rec d i (walked d xs (entered (wlock w) j s)))"
proof -
  note D = chain_invD [OF assms(2)]
  have h: "db_hash (nhash s) key < nhash s" using D(2) by (rule db_hash_less)
  then have j: "j \<le> nhash s" using assms(3) by simp
  have "inj_on (\<lambda>i. a_key (a_recs d ! i)) (set (cs j))" using D(10) [OF h] assms(3) by simp
  moreover have "distinct (cs j)" using D(5) [OF j] .
  ultimately have ne: "a_key (a_recs d ! k) \<noteq> key" if "k \<in> set xs" for k
    using that assms(4,5) by (auto simp: inj_on_def)
  have "path d (Head j) (xs @ i # ys)" using D(4) [OF j] assms(4) by simp
  moreover have "length xs < length (enc_idx d)"
    using chain_length_le [OF assms(2) j] assms(4) by simp
  ultimately have "find_loop (length (enc_idx d)) no_faults key (int (get_slot d (Head j))) (entered (wlock w) j s) =
      Inr (int (roff d i), at_rec d i (walked d xs (entered (wlock w) j s)))"
    using D(1) filesD(1) [OF assms(1)] ne assms(5)
    by (intro find_loop_hit) simp_all
  then show ?thesis
    unfolding find_enter [OF assms(1) D(2) assms(3)] by (simp add: cm_simps)
qed

text \<open>Whether a key is found is whether the map has it.\<close>

lemma abs_map_None:
  "abs_map nh d cs key = None \<longleftrightarrow> (\<forall>k \<in> set (cs (Suc (db_hash nh key))). a_key (a_recs d ! k) \<noteq> key)"
  by (force simp: abs_map_def pairs_def map_of_eq_None_iff)

lemma abs_map_Some:
  assumes "abs_map nh d cs key = Some v"
  obtains xs i ys where "cs (Suc (db_hash nh key)) = xs @ i # ys"
    and "a_key (a_recs d ! i) = key" and "a_dat (a_recs d ! i) = v"
proof -
  have "(key, v) \<in> set (pairs d (cs (Suc (db_hash nh key))))"
    using assms by (auto simp: abs_map_def dest: map_of_SomeD)
  then obtain i where i: "i \<in> set (cs (Suc (db_hash nh key)))" "a_key (a_recs d ! i) = key" "a_dat (a_recs d ! i) = v"
    unfolding pairs_def by force
  then obtain xs ys where "cs (Suc (db_hash nh key)) = xs @ i # ys" by (meson split_list)
  with i(2,3) show ?thesis using that by blast
qed


section \<open>Fetching\<close>

lemma walked_entered_chainoff [simp]: "chainoff (walked d xs (entered ty j s)) = int (PTR_SZ * j)"
  by simp

lemma no_locks_enter [simp]:
  "flocks (idxfd s) = no_locks \<Longrightarrow>
   set_lock F_UNLCK p 1 (set_lock ty p 1 (flocks (idxfd s))) = no_locks"
  by simp

lemma counters_at_rec [simp]:
  "cnt_fetchok (at_rec d i s) = cnt_fetchok s" "cnt_fetcherr (at_rec d i s) = cnt_fetcherr s"
  "cnt_delok (at_rec d i s) = cnt_delok s" "cnt_delerr (at_rec d i s) = cnt_delerr s"
  "cnt_stor1 (at_rec d i s) = cnt_stor1 s" "cnt_stor2 (at_rec d i s) = cnt_stor2 s"
  "cnt_stor3 (at_rec d i s) = cnt_stor3 s" "cnt_stor4 (at_rec d i s) = cnt_stor4 s"
  "cnt_storerr (at_rec d i s) = cnt_storerr s" "cnt_nextrec (at_rec d i s) = cnt_nextrec s"
  "errno (at_rec d i s) = errno s"
  by (simp_all add: at_rec_def Let_def)

lemma counters_walked [simp]:
  "cnt_fetchok (walked d is s) = cnt_fetchok s" "cnt_fetcherr (walked d is s) = cnt_fetcherr s"
  "cnt_delok (walked d is s) = cnt_delok s" "cnt_delerr (walked d is s) = cnt_delerr s"
  "cnt_stor1 (walked d is s) = cnt_stor1 s" "cnt_stor2 (walked d is s) = cnt_stor2 s"
  "cnt_stor3 (walked d is s) = cnt_stor3 s" "cnt_stor4 (walked d is s) = cnt_stor4 s"
  "cnt_storerr (walked d is s) = cnt_storerr s" "cnt_nextrec (walked d is s) = cnt_nextrec s"
  "errno (walked d is s) = errno s"
  by (simp_all add: walked_def)

lemma counters_entered [simp]:
  "cnt_fetchok (entered ty j s) = cnt_fetchok s" "cnt_fetcherr (entered ty j s) = cnt_fetcherr s"
  "cnt_delok (entered ty j s) = cnt_delok s" "cnt_delerr (entered ty j s) = cnt_delerr s"
  "cnt_stor1 (entered ty j s) = cnt_stor1 s" "cnt_stor2 (entered ty j s) = cnt_stor2 s"
  "cnt_stor3 (entered ty j s) = cnt_stor3 s" "cnt_stor4 (entered ty j s) = cnt_stor4 s"
  "cnt_storerr (entered ty j s) = cnt_storerr s" "cnt_nextrec (entered ty j s) = cnt_nextrec s"
  "errno (entered ty j s) = errno s"
  by (simp_all add: entered_def)

text \<open>A state with the same bytes, table size and free locks stands for the same map.\<close>

lemma db_rep_cong:
  assumes "db_rep s m" and "fbytes (idxfd s') = fbytes (idxfd s)" and "fbytes (datfd s') = fbytes (datfd s)"
    and "nhash s' = nhash s" and "hashoff s' = hashoff s"
    and "flocks (idxfd s') = no_locks" and "flocks (datfd s') = no_locks"
  shows "db_rep s' m"
proof -
  obtain d cs where "files s d" "chain_inv (nhash s) d cs {}" "m = abs_map (nhash s) d cs"
    using assms(1) by (auto simp: db_rep_def)
  moreover have "files s' d = files s d" using assms by (simp add: files_def)
  moreover have "nhash s = NHASH_DEF" using assms(1) by (simp add: db_rep_def)
  ultimately show ?thesis using assms(2-) unfolding db_rep_def by metis
qed

lemma db_fetch_refines:
  assumes "db_rep s m"
  shows "\<exists>s'. db_fetch no_faults key s = Inr (m key, s') \<and> db_rep s' m \<and>
    fbytes (idxfd s') = fbytes (idxfd s) \<and> fbytes (datfd s') = fbytes (datfd s) \<and>
    (cnt_fetchok s', cnt_fetcherr s') =
      (if m key = None then (cnt_fetchok s, cnt_fetcherr s + 1) else (cnt_fetchok s + 1, cnt_fetcherr s))"
proof -
  obtain d cs where f: "files s d" and c: "chain_inv (nhash s) d cs {}" and m: "m = abs_map (nhash s) d cs"
    and l: "flocks (idxfd s) = no_locks" "flocks (datfd s) = no_locks"
    using assms by (auto simp: db_rep_def)
  let ?j = "Suc (db_hash (nhash s) key)"
  note F = filesD [OF f]
  have "\<exists>s'. db_fetch no_faults key s = Inr (m key, s') \<and>
    fbytes (idxfd s') = fbytes (idxfd s) \<and> fbytes (datfd s') = fbytes (datfd s) \<and>
    nhash s' = nhash s \<and> hashoff s' = hashoff s \<and> flocks (idxfd s') = no_locks \<and> flocks (datfd s') = no_locks \<and>
    (cnt_fetchok s', cnt_fetcherr s') =
      (if m key = None then (cnt_fetchok s, cnt_fetcherr s + 1) else (cnt_fetchok s + 1, cnt_fetcherr s))"
  proof (cases "m key")
    case None
    then have "\<And>k. k \<in> set (cs ?j) \<Longrightarrow> a_key (a_recs d ! k) \<noteq> key"
      using m abs_map_None by blast
    then have "db_find_and_lock no_faults key False s = Inr (-1, walked d (cs ?j) (entered F_RDLCK ?j s))"
      using find_miss [OF f c, of ?j key False] by simp
    then show ?thesis
      using None l by (simp add: db_fetch_def cm_simps)
  next
    case (Some v)
    then obtain xs i ys where i: "cs ?j = xs @ i # ys" "a_key (a_recs d ! i) = key" "a_dat (a_recs d ! i) = v"
      using m abs_map_Some by metis
    then have hit: "db_find_and_lock no_faults key False s =
        Inr (0, at_rec d i (walked d xs (entered F_RDLCK ?j s)))"
      using find_hit [OF f c, of ?j key xs i ys False] by simp
    have "i < length (a_recs d)"
      using chain_inv_member(1) [OF c, of ?j i] i(1) db_hash_less [OF chain_invD(2) [OF c], of key] by simp
    then show ?thesis
      using Some l i F hit by (simp add: db_fetch_def cm_simps db_readdat_rec [where d = d and i = i])
  qed
  then show ?thesis using db_rep_cong [OF assms] by blast
qed


section \<open>Deleting\<close>

text \<open>What the deletion leaves of a record: blanks of the same size, on the free list.\<close>

definition blanked :: "adb \<Rightarrow> nat \<Rightarrow> arec" where
  "blanked d i =
     (a_recs d ! i)\<lparr>a_ptr := a_heads d ! 0, a_key := replicate (length (a_key (a_recs d ! i))) SPACE,
       a_dat := replicate (length (a_dat (a_recs d ! i))) SPACE\<rparr>"

definition deleted :: "adb \<Rightarrow> nat \<Rightarrow> nat list \<Rightarrow> nat \<Rightarrow> adb" where
  "deleted d j xs i = attach (detach d (last_slot j xs) i) 0 i (blanked d i)"

text \<open>The handle's counters and \<^verbatim>\<open>errno\<close>.\<close>

definition stats :: "DB \<Rightarrow> (COUNT \<times> COUNT) \<times> (COUNT \<times> COUNT) \<times> COUNT \<times> COUNT list \<times> int" where
  "stats s = ((cnt_delok s, cnt_delerr s), (cnt_fetchok s, cnt_fetcherr s), cnt_nextrec s,
     [cnt_stor1 s, cnt_stor2 s, cnt_stor3 s, cnt_stor4 s, cnt_storerr s], errno s)"

lemma same_size_blanked: "same_size (a_recs d ! i) (blanked d i)"
  by (simp add: same_size_def blanked_def)

lemma wf_rec_blanked:
  assumes "wf_adb d" and "i < length (a_recs d)" and "0 < length (a_heads d)"
  shows "wf_rec (blanked d i)"
  using wf_adb_recD [OF assms(1,2)] wf_adb_headD [OF assms(1,3)]
    same_size_body [OF same_size_blanked, of d i]
  by (simp add: wf_rec_def) (simp add: blanked_def)

lemma slot_off_cong: "(\<And>k. roff d' k = roff d k) \<Longrightarrow> slot_off d' sl = slot_off d sl"
  by (cases sl) simp_all

lemma roff_attach:
  assumes "wf_adb d" and "i < length (a_recs d)" and "same_size (a_recs d ! i) r" and "wf_rec r"
    and "j < length (a_heads d)" and "roff d i \<le> PTR_MAX"
  shows "roff (attach d j i r) k = roff d k"
proof -
  have "wf_adb (set_rec d i r)" using assms(1-4) by (rule wf_adb_set_rec)
  moreover have "length (enc_rec r) = length (enc_rec (a_recs d ! i))"
    using assms wf_adb_recD [OF assms(1,2)] by (simp add: same_size_enc)
  ultimately show ?thesis
    using assms(5,6) by (simp add: attach_def roff_set_slot roff_set_rec del: set_slot.simps)
qed

lemma detach_attach_commute:
  assumes "sl \<noteq> Head 0" and "sl \<noteq> Rec i" and "slot_ok d sl" and "roff (set_slot d sl p) i = roff d i"
  shows "set_slot (attach d 0 i r) sl p = attach (set_slot d sl p) 0 i r"
  using assms
  by (cases sl) (auto simp: attach_def set_rec_def list_update_swap nth_list_update)

lemma db_dodelete_effect:
  assumes f: "fbytes (idxfd s) = enc_idx d" "fbytes (datfd s) = enc_datfile d"
    and c: "chain_inv (nhash s) d cs X" and j: "j \<le> nhash s" "j \<noteq> 0" and cj: "cs j = xs @ i # ys"
    and st: "idxoff s = int (roff d i)" "idxbuf s = a_key (a_recs d ! i)"
      "datoff s = int (a_doff (a_recs d ! i))" "datlen s = length (a_dat (a_recs d ! i)) + 1"
      "ptrval s = int (a_ptr (a_recs d ! i))" "ptroff s = int (slot_off d (last_slot j xs))"
    and lk: "flocks (idxfd s) 0 = None"
  shows "\<exists>s'. db_dodelete no_faults s = Inr ((), s') \<and>
    fbytes (idxfd s') = enc_idx (deleted d j xs i) \<and> fbytes (datfd s') = enc_datfile (deleted d j xs i) \<and>
    flocks (idxfd s') = flocks (idxfd s) \<and> flocks (datfd s') = flocks (datfd s) \<and>
    nhash s' = nhash s \<and> hashoff s' = hashoff s \<and> chainoff s' = chainoff s \<and> stats s' = stats s"
proof -
  let ?r = "a_recs d ! i" and ?b = "blanked d i" and ?sl = "last_slot j xs"
  note D = chain_invD [OF c]
  have i: "i < length (a_recs d)" and le: "roff d i \<le> PTR_MAX"
    using chain_inv_member [OF c j(1)] cj by simp_all
  have h0: "0 < length (a_heads d)" using D(3) by simp
  have sz: "same_size ?r ?b" by (rule same_size_blanked)
  have wfb: "wf_rec ?b" using D(1) i h0 by (rule wf_rec_blanked)
  have key: "replicate (length (a_key ?r)) SPACE = a_key ?b" and dat: "replicate (length (a_dat ?r)) SPACE = a_dat ?b"
    and ptr: "int (get_slot d (Head 0)) = int (a_ptr ?b)"
    and dofs: "a_doff ?b = a_doff ?r" and dlen: "length (a_dat ?b) = length (a_dat ?r)"
    by (simp_all add: blanked_def)
  have ok: "slot_ok d ?sl" using c j(1) cj by (rule last_slot_ok)
  have ne: "?sl \<noteq> Head 0" "?sl \<noteq> Rec i"
    using j(2) D(5) [OF j(1)] cj by (auto simp: last_slot_def)
  have ple: "a_ptr ?r \<le> PTR_MAX" using wf_adb_recD [OF D(1) i] by (simp add: wf_rec_def)
  have wf1: "wf_adb (set_rec d i ?b)" using D(1) i sz wfb by (rule wf_adb_set_rec)
  have wf2: "wf_adb (attach d 0 i ?b)"
    unfolding attach_def using wf1 h0 le by (intro wf_adb_set_slot) simp_all
  have so: "slot_off (attach d 0 i ?b) ?sl = slot_off d ?sl"
    by (rule slot_off_cong) (rule roff_attach [OF D(1) i sz wfb h0 le])
  have ok2: "slot_ok (attach d 0 i ?b) ?sl" using ok by (simp add: attach_def del: set_slot.simps)
  have fin: "set_slot (attach d 0 i ?b) ?sl (a_ptr ?r) = deleted d j xs i"
    unfolding deleted_def detach_def
    using ne ok roff_set_slot [OF D(1) ok ple] by (intro detach_attach_commute) simp_all
  have dfile: "enc_datfile (set_rec d i ?b) = enc_datfile (deleted d j xs i)"
    unfolding fin [symmetric] using ok2 h0
    by (simp add: attach_def del: set_slot.simps)
  note W = db_writedat_over [where d = d and i = i and r = ?b, OF _ D(1) i _ dlen]
  note I = db_writeidx_over [where d = d and i = i and r = ?b, OF _ D(1) i _ wfb sz]
  have P0: "db_readptr no_faults 0 t = Inr (int (a_ptr ?b), t\<lparr>idxfd := (idxfd t)\<lparr>fpos := PTR_SZ\<rparr>\<rparr>)"
    if "fbytes (idxfd t) = enc_idx d" for t
    using db_readptr_slot [OF that D(1), of "Head 0" 0] h0 ptr by simp
  have P1: "db_writeptr no_faults 0 (int (roff d i)) t = Inr ((), idx_written (attach d 0 i ?b) PTR_SZ t)"
    if "fbytes (idxfd t) = enc_idx (set_rec d i ?b)" for t
    using db_writeptr_slot [OF that wf1, of "Head 0" 0 "roff d i"] h0 le by (simp add: attach_def)
  have P2: "db_writeptr no_faults (int (slot_off d ?sl)) (int (a_ptr ?r)) t =
      Inr ((), idx_written (deleted d j xs i) (slot_off d ?sl + PTR_SZ) t)"
    if "fbytes (idxfd t) = enc_idx (attach d 0 i ?b)" for t
    using db_writeptr_slot [OF that wf2 ok2 _ ple] so fin by simp
  have lock0: "set_lock F_UNLCK 0 1 (set_lock F_WRLCK 0 1 (flocks (idxfd s))) = flocks (idxfd s)"
    using lk by (intro set_lock_unlock) simp
  show ?thesis
    using f st lock0 key dat dofs dlen dfile
    by (simp add: db_dodelete_def cm_simps W I P0 P1 P2 idx_written_def stats_def)
qed


lemma deleted_inv:
  assumes c: "chain_inv nh d cs X" and h: "h < nh" and cj: "cs (Suc h) = xs @ i # ys"
  shows "chain_inv nh (deleted d (Suc h) xs i) (cs(Suc h := xs @ ys, 0 := i # cs 0)) X"
    and "abs_map nh (deleted d (Suc h) xs i) (cs(Suc h := xs @ ys, 0 := i # cs 0)) =
      (abs_map nh d cs)(a_key (a_recs d ! i) := None)"
proof -
  let ?d = "detach d (last_slot (Suc h) xs) i" and ?cs = "cs(Suc h := xs @ ys)"
  note D = chain_invD [OF c]
  have j: "Suc h \<le> nh" using h by simp
  have i: "i < length (a_recs d)" "i \<notin> X" and le: "roff d i \<le> PTR_MAX"
    using chain_inv_member [OF c j] cj by simp_all
  have ok: "slot_ok d (last_slot (Suc h) xs)" using c j cj by (rule last_slot_ok)
  have ple: "a_ptr (a_recs d ! i) \<le> PTR_MAX" using wf_adb_recD [OF D(1) i(1)] by (simp add: wf_rec_def)
  have c1: "chain_inv nh ?d ?cs (insert i X)" using c j cj by (rule chain_inv_detach)
  have ne: "last_slot (Suc h) xs \<noteq> Rec i" "last_slot (Suc h) xs \<noteq> Head 0"
    using D(5) [OF j] cj by (auto simp: last_slot_def)
  have ri: "a_recs ?d ! i = a_recs d ! i" and h0: "a_heads ?d ! 0 = a_heads d ! 0"
    using ne by (cases "last_slot (Suc h) xs"; simp add: detach_def nth_list_update)+
  have len: "length (a_recs ?d) = length (a_recs d)" by (simp add: detach_def)
  have ro: "roff ?d i = roff d i" using D(1) ok ple by (simp add: detach_def roff_set_slot)
  have X: "insert i X - {i} = X" using i(2) by blast
  have cs: "(?cs(0 := i # ?cs 0)) = cs(Suc h := xs @ ys, 0 := i # cs 0)" by simp
  have "chain_inv nh (attach ?d 0 i (blanked d i)) (?cs(0 := i # ?cs 0)) (insert i X - {i})"
    using c1
  proof (rule chain_inv_attach)
    show "wf_rec (blanked d i)" using D(1,3) i by (intro wf_rec_blanked) simp_all
    show "same_size (a_recs ?d ! i) (blanked d i)" using ri same_size_blanked by simp
    show "a_ptr (blanked d i) = a_heads ?d ! 0" using h0 by (simp add: blanked_def)
    show "roff ?d i \<le> PTR_MAX" using ro le by simp
    show "blank (a_key (blanked d i))" by (simp add: blanked_def blank_def list_all_iff)
  qed (use i len in simp_all)
  then show "chain_inv nh (deleted d (Suc h) xs i) (cs(Suc h := xs @ ys, 0 := i # cs 0)) X"
    by (simp add: deleted_def X cs)
  have "abs_map nh (attach ?d 0 i (blanked d i)) (?cs(0 := i # cs 0)) = abs_map nh ?d ?cs"
    using i len by (intro abs_map_attach_free [OF c1]) simp_all
  then show "abs_map nh (deleted d (Suc h) xs i) (cs(Suc h := xs @ ys, 0 := i # cs 0)) =
      (abs_map nh d cs)(a_key (a_recs d ! i) := None)"
    using abs_map_detach [OF c h cj] by (simp add: deleted_def)
qed

lemma db_repI:
  assumes "fbytes (idxfd s) = enc_idx d" and "fbytes (datfd s) = enc_datfile d" and "hashoff s = HASH_OFF"
    and "chain_inv (nhash s) d cs {}" and "m = abs_map (nhash s) d cs"
    and "flocks (idxfd s) = no_locks" and "flocks (datfd s) = no_locks" and "nhash s = NHASH_DEF"
  shows "db_rep s m"
proof -
  have "files s d" using assms(1-4) chain_invD [OF assms(4)] by (simp add: files_def)
  with assms show ?thesis unfolding db_rep_def by blast
qed

lemma lock_byte_free [simp]:
  "0 < p \<Longrightarrow> set_lock ty p len no_locks 0 = None"
  by (simp add: set_lock_def no_locks_def)

lemma stats_simps [simp]:
  "stats (at_rec d i s) = stats s" "stats (walked d is s) = stats s" "stats (entered ty j s) = stats s"
  by (simp_all add: stats_def)

lemma ptroff_walked_entered:
  "ptroff (walked d xs (entered ty j s)) = int (slot_off d (last_slot j xs))"
  by (simp add: walked_def last_slot_def)

text \<open>Deletion does not change the sizes of the files.\<close>

lemma deleted_lengths:
  assumes c: "chain_inv nh d cs X" and h: "h < nh" and cj: "cs (Suc h) = xs @ i # ys"
  shows "length (enc_idx (deleted d (Suc h) xs i)) = length (enc_idx d)"
    and "length (enc_datfile (deleted d (Suc h) xs i)) = length (enc_datfile d)"
proof -
  let ?sl = "last_slot (Suc h) xs"
  let ?d = "detach d ?sl i"
  note D = chain_invD [OF c]
  have j: "Suc h \<le> nh" using h by simp
  have i: "i < length (a_recs d)" and le: "roff d i \<le> PTR_MAX"
    using chain_inv_member [OF c j] cj by simp_all
  have ok: "slot_ok d ?sl" using c j cj by (rule last_slot_ok)
  have ple: "a_ptr (a_recs d ! i) \<le> PTR_MAX" using wf_adb_recD [OF D(1) i] by (simp add: wf_rec_def)
  have wfd: "wf_adb ?d" using D(1) ok ple by (simp add: detach_def wf_adb_set_slot)
  have ro: "roff ?d k = roff d k" for k using D(1) ok ple by (simp add: detach_def roff_set_slot)
  have ne: "?sl \<noteq> Rec i" using D(5) [OF j] cj by (auto simp: last_slot_def)
  have ri: "a_recs ?d ! i = a_recs d ! i"
    using ne by (cases ?sl) (simp_all add: detach_def nth_list_update)
  have wb: "wf_rec (blanked d i)" using D(1,3) i by (intro wf_rec_blanked) simp_all
  have sz: "same_size (a_recs ?d ! i) (blanked d i)" using same_size_blanked ri by simp
  have il: "i < length (a_recs ?d)" "0 < length (a_heads ?d)" using i D(3) by (simp_all add: detach_def)
  have "roff (deleted d (Suc h) xs i) k = roff d k" for k
    using roff_attach [OF wfd il(1) sz wb il(2)] ro le by (simp add: deleted_def)
  moreover have "wf_adb (deleted d (Suc h) xs i)" using deleted_inv(1) [OF c h cj] by (rule chain_invD)
  moreover have "length (a_recs (deleted d (Suc h) xs i)) = length (a_recs d)"
    by (simp add: deleted_def attach_def detach_def del: set_slot.simps)
  ultimately show "length (enc_idx (deleted d (Suc h) xs i)) = length (enc_idx d)"
    using D(1) by (simp add: length_enc_idx)
  have "enc_datfile (deleted d (Suc h) xs i) = enc_datfile (set_rec ?d i (blanked d i))"
    unfolding deleted_def attach_def using il(2) by (intro enc_datfile_set_slot) simp
  moreover have "length (enc_datfile (set_rec ?d i (blanked d i))) = length (enc_datfile ?d)"
    using sz unfolding length_enc_datfile
    by (simp add: set_rec_def off_of_update same_size_def)
  ultimately show "length (enc_datfile (deleted d (Suc h) xs i)) = length (enc_datfile d)"
    using ok by (simp add: detach_def)
qed

lemma db_delete_refines:
  assumes "db_rep s m"
  shows "\<exists>s'. db_delete no_faults key s = Inr (if m key = None then -1 else 0, s') \<and> db_rep s' (m(key := None)) \<and>
    (cnt_delok s', cnt_delerr s') =
      (if m key = None then (cnt_delok s, cnt_delerr s + 1) else (cnt_delok s + 1, cnt_delerr s)) \<and>
    length (fbytes (idxfd s')) = length (fbytes (idxfd s)) \<and> length (fbytes (datfd s')) = length (fbytes (datfd s))"
proof -
  obtain d cs where f: "files s d" and c: "chain_inv (nhash s) d cs {}" and m: "m = abs_map (nhash s) d cs"
    and l: "flocks (idxfd s) = no_locks" "flocks (datfd s) = no_locks" and nh: "nhash s = NHASH_DEF"
    using assms by (auto simp: db_rep_def)
  let ?h = "db_hash (nhash s) key"
  note F = filesD [OF f]
  have h: "?h < nhash s" using chain_invD(2) [OF c] by (rule db_hash_less)
  show ?thesis
  proof (cases "m key")
    case None
    then have "\<And>k. k \<in> set (cs (Suc ?h)) \<Longrightarrow> a_key (a_recs d ! k) \<noteq> key"
      using m abs_map_None by blast
    then have miss: "db_find_and_lock no_faults key True s = Inr (-1, walked d (cs (Suc ?h)) (entered F_WRLCK (Suc ?h) s))"
      using find_miss [OF f c, of "Suc ?h" key True] by simp
    have "m(key := None) = m" using None by auto
    then show ?thesis
      using None l miss by (auto simp: db_delete_def cm_simps intro!: db_rep_cong [OF assms])
  next
    case (Some v)
    then obtain xs i ys where i: "cs (Suc ?h) = xs @ i # ys" "a_key (a_recs d ! i) = key"
      using m abs_map_Some by metis
    let ?t = "at_rec d i (walked d xs (entered F_WRLCK (Suc ?h) s))"
    have hit: "db_find_and_lock no_faults key True s = Inr (0, ?t)"
      using find_hit [OF f c, of "Suc ?h" key xs i ys True] i by simp
    have "\<exists>s'. db_dodelete no_faults ?t = Inr ((), s') \<and>
      fbytes (idxfd s') = enc_idx (deleted d (Suc ?h) xs i) \<and>
      fbytes (datfd s') = enc_datfile (deleted d (Suc ?h) xs i) \<and>
      flocks (idxfd s') = flocks (idxfd ?t) \<and> flocks (datfd s') = flocks (datfd ?t) \<and>
      nhash s' = nhash ?t \<and> hashoff s' = hashoff ?t \<and> chainoff s' = chainoff ?t \<and> stats s' = stats ?t"
      by (rule db_dodelete_effect [where cs = cs and X = "{}" and ys = ys])
        (use F c h i l in \<open>simp_all add: ptroff_walked_entered\<close>)
    then obtain s' where s': "db_dodelete no_faults ?t = Inr ((), s')"
      "fbytes (idxfd s') = enc_idx (deleted d (Suc ?h) xs i)"
      "fbytes (datfd s') = enc_datfile (deleted d (Suc ?h) xs i)"
      "flocks (idxfd s') = set_lock F_WRLCK (int (PTR_SZ * Suc ?h)) 1 no_locks" "flocks (datfd s') = no_locks"
      "nhash s' = nhash s" "hashoff s' = HASH_OFF" "chainoff s' = int (PTR_SZ * Suc ?h)" "stats s' = stats s"
      using l F by auto
    let ?u = "s'\<lparr>cnt_delok := cnt_delok s' + 1,
      idxfd := lock_reg F_UNLCK (chainoff s') SEEK_SET 1 (idxfd s')\<rparr>"
    have run: "db_delete no_faults key s = Inr (0, ?u)"
      using hit s'(1) by (simp add: db_delete_def cm_simps)
    have "db_rep ?u (m(key := None))"
      by (rule db_repI [where d = "deleted d (Suc ?h) xs i" and cs = "cs(Suc ?h := xs @ ys, 0 := i # cs 0)"])
        (use s' m i nh deleted_inv [OF c h i(1)] in simp_all)
    then show ?thesis using run Some s'(2,3,9) deleted_lengths [OF c h i(1)] F by (auto simp: stats_def)
  qed
qed


section \<open>Storing\<close>

subsection \<open>Adding a record at the end of the files\<close>

definition new_rec :: "adb \<Rightarrow> nat \<Rightarrow> string \<Rightarrow> string \<Rightarrow> arec" where
  "new_rec d j key v = \<lparr>a_ptr = a_heads d ! j, a_key = key, a_doff = length (enc_datfile d), a_dat = v\<rparr>"

definition appended :: "adb \<Rightarrow> nat \<Rightarrow> string \<Rightarrow> string \<Rightarrow> adb" where
  "appended d j key v =
     attach (add_rec d (new_rec d j key v)) j (length (a_recs d)) (new_rec d j key v)"

lemma set_rec_add_rec [simp]: "set_rec (add_rec d r) (length (a_recs d)) r = add_rec d r"
  by (simp add: set_rec_def add_rec_def)

lemma appended_inv:
  assumes c: "chain_inv nh d cs X" and h: "db_hash nh key = h"
    and new: "\<And>k. k \<in> set (cs (Suc h)) \<Longrightarrow> a_key (a_recs d ! k) \<noteq> key"
    and wf: "wf_rec (new_rec d (Suc h) key v)" and room: "length (enc_idx d) \<le> PTR_MAX" and X: "X \<subseteq> {..<length (a_recs d)}"
  shows "chain_inv nh (appended d (Suc h) key v) (cs(Suc h := length (a_recs d) # cs (Suc h))) X"
    and "abs_map nh (appended d (Suc h) key v) (cs(Suc h := length (a_recs d) # cs (Suc h))) =
      (abs_map nh d cs)(key \<mapsto> v)"
proof -
  let ?r = "new_rec d (Suc h) key v" and ?n = "length (a_recs d)"
  let ?d = "add_rec d ?r"
  note D = chain_invD [OF c]
  have hn: "h < nh" using D(2) h by (auto simp: db_hash_def)
  have doff: "a_doff ?r = length (enc_datfile d)" by (simp add: new_rec_def)
  note c1 = chain_inv_add_rec [OF c wf doff]
  have rn: "a_recs ?d ! ?n = ?r" and ln: "?n < length (a_recs ?d)" by (simp_all add: add_rec_def)
  have hd: "a_heads ?d = a_heads d" by (simp add: add_rec_def)
  have old: "a_recs ?d ! k = a_recs d ! k" if "k \<in> set (cs (Suc h))" for k
    using chain_inv_member(1) [OF c, of "Suc h" k] hn that by (simp add: add_rec_def nth_append)
  have rest: "insert ?n X - {?n} = X" using X by auto
  have "chain_inv nh (attach ?d (Suc h) ?n ?r) (cs(Suc h := ?n # cs (Suc h))) (insert ?n X - {?n})"
    using c1(1)
  proof (rule chain_inv_attach)
    show "same_size (a_recs ?d ! ?n) ?r" using rn by (simp add: same_size_def)
    show "a_ptr ?r = a_heads ?d ! Suc h" using hd by (simp add: new_rec_def)
    show "roff ?d ?n \<le> PTR_MAX" using room D(1) by (simp add: roff_add_rec length_enc_idx)
    show "\<And>h'. Suc h = Suc h' \<Longrightarrow> db_hash nh (a_key ?r) = h' \<and> (\<forall>k \<in> set (cs (Suc h)). a_key (a_recs ?d ! k) \<noteq> a_key ?r)"
      using h new old by (simp add: new_rec_def)
  qed (use hn wf ln in simp_all)
  then show "chain_inv nh (appended d (Suc h) key v) (cs(Suc h := ?n # cs (Suc h))) X"
    by (simp add: appended_def rest)
  have "db_hash nh (a_key ?r) = h" using h by (simp add: new_rec_def)
  from abs_map_attach [OF c1(1) _ ln this]
  show "abs_map nh (appended d (Suc h) key v) (cs(Suc h := ?n # cs (Suc h))) = (abs_map nh d cs)(key \<mapsto> v)"
    using c1(2) by (simp add: appended_def new_rec_def)
qed

text \<open>
  The three writes that add a record, as they occur twice in \<^verbatim>\<open>db_store\<close>: the data,
  the index entry with the old head of the chain, the new head.
\<close>

lemma append_writes:
  assumes f: "fbytes (idxfd s) = enc_idx d" "fbytes (datfd s) = enc_datfile d" and wfd: "wf_adb d"
    and nh: "length (a_heads d) = nhash s + 1" and j: "j \<le> nhash s"
    and wf: "wf_rec (new_rec d j key v)" and room: "length (enc_idx d) \<le> PTR_MAX"
    and lk: "\<And>i. (nhash s + 1) * PTR_SZ + 1 \<le> i \<Longrightarrow> flocks (idxfd s) i = None" "flocks (datfd s) = no_locks"
  shows "\<exists>s'. thn (db_writedat no_faults v 0 SEEK_END)
       (thn (db_writeidx no_faults key 0 SEEK_END (int (get_slot d (Head j))))
       (bnd (gets idxoff) (\<lambda>ioff. db_writeptr no_faults (int (PTR_SZ * j)) ioff))) s = Inr ((), s') \<and>
    fbytes (idxfd s') = enc_idx (appended d j key v) \<and> fbytes (datfd s') = enc_datfile (appended d j key v) \<and>
    flocks (idxfd s') = flocks (idxfd s) \<and> flocks (datfd s') = flocks (datfd s) \<and>
    nhash s' = nhash s \<and> hashoff s' = hashoff s \<and> chainoff s' = chainoff s \<and> stats s' = stats s"
proof -
  let ?r = "new_rec d j key v"
  let ?d = "add_rec d ?r"
  have wf1: "wf_adb ?d" using wfd wf by (intro wf_adb_add_rec) (simp_all add: new_rec_def)
  have ok: "slot_ok ?d (Head j)" using nh j by (simp add: add_rec_def)
  have ioff: "length (enc_idx d) = roff ?d (length (a_recs d))"
    using wfd by (simp add: length_enc_idx roff_add_rec)
  have fields: "a_key ?r = key" "a_dat ?r = v" "a_doff ?r = length (enc_datfile d)" "a_ptr ?r = get_slot d (Head j)"
    by (simp_all add: new_rec_def)
  have app: "set_slot ?d (Head j) (roff ?d (length (a_recs d))) = appended d j key v"
    by (simp add: appended_def attach_def del: set_slot.simps)
  have dat: "enc_datfile (appended d j key v) = enc_datfile d @ v @ [NEWLINE]"
    unfolding app [symmetric] using ok
    by (simp add: enc_datfile_add_rec del: set_slot.simps) (simp add: enc_dat_def new_rec_def)
  have P: "db_writeptr no_faults (int (PTR_SZ * j)) (int (length (enc_idx d))) t =
      Inr ((), idx_written (appended d j key v) (PTR_SZ * j + PTR_SZ) t)"
    if "fbytes (idxfd t) = enc_idx d @ enc_rec ?r" for t
    using db_writeptr_slot [of t ?d "Head j" "int (PTR_SZ * j)" "length (enc_idx d)"] that wf1 ok room ioff app
    by (simp add: enc_idx_add_rec)
  have W: "db_writedat no_faults v 0 SEEK_END s =
      Inr ((), s\<lparr>datfd := (datfd s)\<lparr>fbytes := enc_datfile (appended d j key v), fpos := length (enc_datfile d) + length v + 1\<rparr>,
                 datoff := int (a_doff ?r), datlen := length (a_dat ?r) + 1\<rparr>)"
    using db_writedat_append [OF lk(2), of v] f(2) dat fields by simp
  have I: "db_writeidx no_faults key 0 SEEK_END (int (get_slot d (Head j))) t =
      Inr ((), t\<lparr>idxfd := (idxfd t)\<lparr>fbytes := enc_idx d @ enc_rec ?r, fpos := length (enc_idx d) + length (enc_rec ?r)\<rparr>,
        ptrval := int (get_slot d (Head j)), idxbuf := rec_body ?r, idxoff := int (length (enc_idx d))\<rparr>)"
    if "idxfd t = idxfd s" "nhash t = nhash s" "datoff t = int (a_doff ?r)" "datlen t = length (a_dat ?r) + 1" for t
    using db_writeidx_append [of t ?r "int (get_slot d (Head j))"] that lk(1) wf f(1) fields by simp
  show ?thesis
    using lk(2) by (simp add: thn_Inr bnd_Inr W I P idx_written_def stats_def
        del: get_slot.simps of_nat_mult)
qed


subsection \<open>Searching the free list\<close>

lemma unlock_free_list:
  "flocks f 0 = None \<Longrightarrow> set_lock F_UNLCK 0 1 (set_lock F_WRLCK 0 1 (flocks f)) = flocks f"
  by (rule set_lock_unlock) simp

lemma db_findfree_miss:
  assumes f: "fbytes (idxfd s) = enc_idx d" and c: "chain_inv (nhash s) d cs X"
    and no: "\<And>k. k \<in> set (cs 0) \<Longrightarrow> \<not> (length (a_key (a_recs d ! k)) = keylen \<and> length (a_dat (a_recs d ! k)) + 1 = dlen)"
    and lk: "flocks (idxfd s) 0 = None"
  shows "\<exists>s'. db_findfree no_faults keylen dlen s = Inr (-1, s') \<and> fbytes (idxfd s') = enc_idx d \<and>
    datfd s' = datfd s \<and> flocks (idxfd s') = flocks (idxfd s) \<and>
    nhash s' = nhash s \<and> hashoff s' = hashoff s \<and> chainoff s' = chainoff s \<and> stats s' = stats s"
proof -
  note D = chain_invD [OF c]
  have P: "db_readptr no_faults 0 t = Inr (int (get_slot d (Head 0)), t\<lparr>idxfd := (idxfd t)\<lparr>fpos := PTR_SZ\<rparr>\<rparr>)"
    if "fbytes (idxfd t) = enc_idx d" for t
    using db_readptr_slot [OF that D(1), of "Head 0" 0] D(3) by simp
  have L: "findfree_loop (length (enc_idx d)) no_faults keylen dlen 0 (int (get_slot d (Head 0))) t =
      Inr ((0, int (slot_off d (if cs 0 = [] then Head 0 else Rec (last (cs 0))))),
           if cs 0 = [] then t else at_rec d (last (cs 0)) t)"
    if "fbytes (idxfd t) = enc_idx d" for t
    using findfree_loop_miss [of t d "Head 0" "cs 0", OF that D(1) D(4) chain_length_le [OF c] no] by simp
  show ?thesis
    using f unlock_free_list [OF lk]
    by (simp add: db_findfree_def cm_simps P L stats_def del: get_slot.simps)
qed

lemma first_match:
  assumes "\<exists>x \<in> set xs. P x"
  obtains ys x zs where "xs = ys @ x # zs" and "P x" and "\<And>y. y \<in> set ys \<Longrightarrow> \<not> P y"
  using split_list_first_prop [OF assms] that by blast

lemma db_findfree_hit:
  assumes f: "fbytes (idxfd s) = enc_idx d" and c: "chain_inv (nhash s) d cs X"
    and c0: "cs 0 = xs @ i # ys"
    and no: "\<And>k. k \<in> set xs \<Longrightarrow> \<not> (length (a_key (a_recs d ! k)) = keylen \<and> length (a_dat (a_recs d ! k)) + 1 = dlen)"
    and i: "length (a_key (a_recs d ! i)) = keylen" "length (a_dat (a_recs d ! i)) + 1 = dlen"
    and lk: "flocks (idxfd s) 0 = None"
  shows "\<exists>s'. db_findfree no_faults keylen dlen s = Inr (0, s') \<and>
    fbytes (idxfd s') = enc_idx (detach d (last_slot 0 xs) i) \<and>
    datoff s' = int (a_doff (a_recs d ! i)) \<and> idxoff s' = int (roff d i) \<and>
    datfd s' = datfd s \<and> flocks (idxfd s') = flocks (idxfd s) \<and>
    nhash s' = nhash s \<and> hashoff s' = hashoff s \<and> chainoff s' = chainoff s \<and> stats s' = stats s"
proof -
  note D = chain_invD [OF c]
  have il: "i < length (a_recs d)" using chain_inv_member(1) [OF c, of 0 i] c0 by simp
  have ok: "slot_ok d (last_slot 0 xs)" using last_slot_ok [OF c, of 0] c0 by simp
  have ple: "a_ptr (a_recs d ! i) \<le> PTR_MAX" using wf_adb_recD [OF D(1) il] by (simp add: wf_rec_def)
  have P: "db_readptr no_faults 0 t = Inr (int (get_slot d (Head 0)), t\<lparr>idxfd := (idxfd t)\<lparr>fpos := PTR_SZ\<rparr>\<rparr>)"
    if "fbytes (idxfd t) = enc_idx d" for t
    using db_readptr_slot [OF that D(1), of "Head 0" 0] D(3) by simp
  have pth: "path d (Head 0) (xs @ i # ys)" and fuel: "length xs < length (enc_idx d)"
    using D(4) [of 0] chain_length_le [OF c, of 0] c0 by simp_all
  have L: "findfree_loop (length (enc_idx d)) no_faults keylen dlen 0 (int (get_slot d (Head 0))) t =
      Inr ((int (roff d i), int (slot_off d (last_slot 0 xs))), at_rec d i t)"
    if "fbytes (idxfd t) = enc_idx d" for t
    using findfree_loop_hit [OF that D(1) pth fuel no i] by (simp add: last_slot_def)
  have W: "db_writeptr no_faults (int (slot_off d (last_slot 0 xs))) (int (a_ptr (a_recs d ! i))) t =
      Inr ((), idx_written (detach d (last_slot 0 xs) i) (slot_off d (last_slot 0 xs) + PTR_SZ) t)"
    if "fbytes (idxfd t) = enc_idx d" for t
    using db_writeptr_slot [OF that D(1) ok _ ple] by (simp add: detach_def)
  show ?thesis
    using f unlock_free_list [OF lk]
    by (simp add: db_findfree_def cm_simps P L W idx_written_def stats_def del: get_slot.simps)
qed

subsection \<open>Reusing a free record\<close>

definition reused_rec :: "adb \<Rightarrow> nat \<Rightarrow> nat \<Rightarrow> string \<Rightarrow> string \<Rightarrow> arec" where
  "reused_rec d j i key v = \<lparr>a_ptr = a_heads d ! j, a_key = key, a_doff = a_doff (a_recs d ! i), a_dat = v\<rparr>"

definition reused :: "adb \<Rightarrow> nat \<Rightarrow> nat list \<Rightarrow> nat \<Rightarrow> string \<Rightarrow> string \<Rightarrow> adb" where
  "reused d j xs i key v = attach (detach d (last_slot 0 xs) i) j i (reused_rec d j i key v)"

lemma reused_facts:
  assumes c: "chain_inv nh d cs X" and c0: "cs 0 = xs @ i # ys" and j: "0 < j" "j \<le> nh"
    and sz: "length key = length (a_key (a_recs d ! i))" "length v = length (a_dat (a_recs d ! i))"
    and ok: "key_ok key" "data_ok v"
  defines "d1 \<equiv> detach d (last_slot 0 xs) i" and "r \<equiv> reused_rec d j i key v"
  shows "wf_adb d1" "i < length (a_recs d1)" "a_recs d1 ! i = a_recs d ! i" "a_heads d1 ! j = a_heads d ! j"
    "roff d1 k = roff d k" "roff d i \<le> PTR_MAX" "wf_rec r" "same_size (a_recs d1 ! i) r"
    "j < length (a_heads d1)" "enc_datfile d1 = enc_datfile d"
proof -
  note D = chain_invD [OF c]
  have i: "i < length (a_recs d)" and le: "roff d i \<le> PTR_MAX"
    using chain_inv_member [OF c, of 0 i] c0 by simp_all
  have slok: "slot_ok d (last_slot 0 xs)" using last_slot_ok [OF c, of 0] c0 by simp
  have wi: "wf_rec (a_recs d ! i)" using D(1) i by (rule wf_adb_recD)
  then have ple: "a_ptr (a_recs d ! i) \<le> PTR_MAX" by (simp add: wf_rec_def)
  have ne: "last_slot 0 xs \<noteq> Rec i" "last_slot 0 xs \<noteq> Head j"
    using D(5) [of 0] c0 j(1) by (auto simp: last_slot_def)
  show "wf_adb d1" using D(1) slok ple by (simp add: d1_def detach_def wf_adb_set_slot)
  show "i < length (a_recs d1)" using i by (simp add: d1_def detach_def)
  show ri: "a_recs d1 ! i = a_recs d ! i" and "a_heads d1 ! j = a_heads d ! j"
    using ne by (cases "last_slot 0 xs"; simp add: d1_def detach_def nth_list_update)+
  show "roff d1 k = roff d k" using D(1) slok ple by (simp add: d1_def detach_def roff_set_slot)
  show "roff d i \<le> PTR_MAX" by (rule le)
  show s: "same_size (a_recs d1 ! i) r" using sz ri by (simp add: same_size_def r_def reused_rec_def)
  have "a_heads d ! j \<le> PTR_MAX" using D(1,3) j(2) by (intro wf_adb_headD) simp_all
  then show "wf_rec r"
    using wi ok same_size_body [OF s] ri
    by (simp add: wf_rec_def key_ok_def data_ok_def) (simp add: r_def reused_rec_def)
  show "j < length (a_heads d1)" using D(3) j(2) by (simp add: d1_def detach_def)
  show "enc_datfile d1 = enc_datfile d" using slok by (simp add: d1_def detach_def)
qed

lemma reused_inv:
  assumes c: "chain_inv nh d cs X" and c0: "cs 0 = xs @ i # ys" and h: "db_hash nh key = h"
    and new: "\<And>k. k \<in> set (cs (Suc h)) \<Longrightarrow> a_key (a_recs d ! k) \<noteq> key"
    and sz: "length key = length (a_key (a_recs d ! i))" "length v = length (a_dat (a_recs d ! i))"
    and ok: "key_ok key" "data_ok v"
  shows "chain_inv nh (reused d (Suc h) xs i key v) (cs(0 := xs @ ys, Suc h := i # cs (Suc h))) X"
    and "abs_map nh (reused d (Suc h) xs i key v) (cs(0 := xs @ ys, Suc h := i # cs (Suc h))) =
      (abs_map nh d cs)(key \<mapsto> v)"
proof -
  let ?d = "detach d (last_slot 0 xs) i" and ?cs = "cs(0 := xs @ ys)" and ?r = "reused_rec d (Suc h) i key v"
  note D = chain_invD [OF c]
  have hn: "h < nh" using db_hash_less [OF D(2), of key] h by simp
  note R = reused_facts [OF c c0 _ _ sz ok, of "Suc h"]
  have iX: "i \<notin> X" using chain_inv_member(2) [OF c, of 0 i] c0 by simp
  have c1: "chain_inv nh ?d ?cs (insert i X)" using c0 by (intro chain_inv_detach [OF c]) simp_all
  have rest: "insert i X - {i} = X" using iX by blast
  have keys: "a_key (a_recs ?d ! k) = a_key (a_recs d ! k)" for k by (simp add: detach_def)
  have "chain_inv nh (attach ?d (Suc h) i ?r) (?cs(Suc h := i # ?cs (Suc h))) (insert i X - {i})"
    using c1
  proof (rule chain_inv_attach)
    show "\<And>h'. Suc h = Suc h' \<Longrightarrow> db_hash nh (a_key ?r) = h' \<and>
        (\<forall>k \<in> set (?cs (Suc h)). a_key (a_recs ?d ! k) \<noteq> a_key ?r)"
      using h new keys by (simp add: reused_rec_def)
    show "a_ptr ?r = a_heads ?d ! Suc h" using R(4) hn by (simp add: reused_rec_def)
  qed (use R hn in simp_all)
  then show "chain_inv nh (reused d (Suc h) xs i key v) (cs(0 := xs @ ys, Suc h := i # cs (Suc h))) X"
    by (simp add: reused_def rest)
  have "db_hash nh (a_key ?r) = h" using h by (simp add: reused_rec_def)
  from abs_map_attach [OF c1 _ R(2) this] hn
  show "abs_map nh (reused d (Suc h) xs i key v) (cs(0 := xs @ ys, Suc h := i # cs (Suc h))) =
      (abs_map nh d cs)(key \<mapsto> v)"
    by (simp add: reused_def abs_map_detach_free reused_rec_def)
qed


text \<open>The three writes over a record taken from the free list.\<close>

lemma reuse_writes:
  assumes f: "fbytes (idxfd s) = enc_idx (detach d (last_slot 0 xs) i)" "fbytes (datfd s) = enc_datfile d"
    and c: "chain_inv (nhash s) d cs X" and c0: "cs 0 = xs @ i # ys" and j: "0 < j" "j \<le> nhash s"
    and sz: "length key = length (a_key (a_recs d ! i))" "length v = length (a_dat (a_recs d ! i))"
    and ok: "key_ok key" "data_ok v"
    and st: "datoff s = int (a_doff (a_recs d ! i))" "idxoff s = int (roff d i)"
  shows "\<exists>s1 s2 s'. db_writedat no_faults v (datoff s) SEEK_SET s = Inr ((), s1) \<and>
    db_writeidx no_faults key (idxoff s1) SEEK_SET (int (get_slot d (Head j))) s1 = Inr ((), s2) \<and>
    db_writeptr no_faults (int (PTR_SZ * j)) (idxoff s2) s2 = Inr ((), s') \<and>
    fbytes (idxfd s') = enc_idx (reused d j xs i key v) \<and> fbytes (datfd s') = enc_datfile (reused d j xs i key v) \<and>
    flocks (idxfd s') = flocks (idxfd s) \<and> flocks (datfd s') = flocks (datfd s) \<and>
    nhash s' = nhash s \<and> hashoff s' = hashoff s \<and> chainoff s' = chainoff s \<and> stats s' = stats s"
proof -
  let ?d = "detach d (last_slot 0 xs) i" and ?r = "reused_rec d j i key v"
  note R = reused_facts [OF c c0 j sz ok]
  have fields: "a_key ?r = key" "a_dat ?r = v" "a_doff ?r = a_doff (a_recs d ! i)" "a_ptr ?r = get_slot d (Head j)"
    by (simp_all add: reused_rec_def)
  have len: "length (a_dat ?r) = length (a_dat (a_recs ?d ! i))" using R(8) by (simp add: same_size_def)
  have wf1: "wf_adb (set_rec ?d i ?r)" using R(1,2,8,7) by (rule wf_adb_set_rec)
  have okj: "slot_ok (set_rec ?d i ?r) (Head j)" using R(9) by simp
  have app: "set_slot (set_rec ?d i ?r) (Head j) (roff d i) = reused d j xs i key v"
    using R(5) [of i] by (simp add: reused_def attach_def del: set_slot.simps)
  have dat: "enc_datfile (reused d j xs i key v) = enc_datfile (set_rec ?d i ?r)"
    unfolding app [symmetric] using okj by (simp del: set_slot.simps)
  have W: "db_writedat no_faults v (datoff s) SEEK_SET s =
      Inr ((), s\<lparr>datfd := (datfd s)\<lparr>fbytes := enc_datfile (set_rec ?d i ?r),
                 fpos := a_doff (a_recs d ! i) + length v + 1\<rparr>,
               datoff := int (a_doff ?r), datlen := length (a_dat ?r) + 1\<rparr>)"
    using db_writedat_over [OF _ R(1,2) _ len, of s "datoff s"] f(2) st(1) R(3,10) fields by simp
  have I: "db_writeidx no_faults key (int (roff d i)) SEEK_SET (int (get_slot d (Head j))) t =
      Inr ((), t\<lparr>idxfd := (idxfd t)\<lparr>fbytes := enc_idx (set_rec ?d i ?r), fpos := roff ?d (Suc i)\<rparr>,
               ptrval := int (get_slot d (Head j)), idxbuf := rec_body ?r, idxoff := int (roff d i)\<rparr>)"
    if "idxfd t = idxfd s" "datoff t = int (a_doff ?r)" "datlen t = length (a_dat ?r) + 1" for t
    using db_writeidx_over [OF _ R(1,2) _ R(7,8), of t "int (roff d i)" "int (get_slot d (Head j))"]
      that f(1) R(5) fields by simp
  have P: "db_writeptr no_faults (int (PTR_SZ * j)) (int (roff d i)) t =
      Inr ((), idx_written (reused d j xs i key v) (PTR_SZ * j + PTR_SZ) t)"
    if "fbytes (idxfd t) = enc_idx (set_rec ?d i ?r)" for t
    using db_writeptr_slot [OF that wf1 okj _ R(6)] app by simp
  show ?thesis
    using st(2) dat
    by (simp add: W I P idx_written_def stats_def del: get_slot.simps of_nat_mult)
qed

subsection \<open>The operation\<close>

text \<open>The value and the new map that \<^verbatim>\<open>db_store\<close> promises.\<close>

definition store_spec :: "('k \<Rightarrow> 'v option) \<Rightarrow> 'k \<Rightarrow> 'v \<Rightarrow> int \<Rightarrow> int \<times> ('k \<Rightarrow> 'v option)" where
  "store_spec m key v flag =
     (if m key = None then (if flag = DB_REPLACE then (-1, m) else (0, m(key \<mapsto> v)))
      else (if flag = DB_INSERT then (1, m) else (0, m(key \<mapsto> v))))"

text \<open>Room for a new record: its offset can be a pointer, its text has a legal length.\<close>

definition fits :: "DB \<Rightarrow> string \<Rightarrow> string \<Rightarrow> bool" where
  "fits s key v \<longleftrightarrow>
     length (fbytes (idxfd s)) \<le> PTR_MAX \<and> int (length (fbytes (datfd s))) \<le> LONG_MAX \<and>
     (let n = length key + length (dec (length (fbytes (datfd s)))) + length (dec (length v + 1)) + 3
      in IDXLEN_MIN \<le> n \<and> n \<le> IDXLEN_MAX)"

lemma wf_new_rec:
  assumes "fits s key v" and "length (fbytes (datfd s)) = length (enc_datfile d)" and "key_ok key" and "data_ok v"
    and "wf_adb d" and "j < length (a_heads d)"
  shows "wf_rec (new_rec d j key v)"
  using assms wf_adb_headD [OF assms(5,6)]
  by (simp add: wf_rec_def new_rec_def rec_body_def key_ok_def data_ok_def fits_def Let_def)

lemma locked_tail_free:
  assumes "0 < j" "j \<le> nh" "(nh + 1) * PTR_SZ + 1 \<le> i"
  shows "set_lock ty (int (PTR_SZ * j)) 1 no_locks i = None"
  using assms by (auto simp: set_lock_def no_locks_def)

lemma db_store_bad_flag:
  "flag \<noteq> DB_INSERT \<Longrightarrow> flag \<noteq> DB_REPLACE \<Longrightarrow> flag \<noteq> DB_STORE \<Longrightarrow>
   db_store F key v flag s = Inr (-1, s\<lparr>errno := EINVAL\<rparr>)"
  by (simp add: db_store_def cm_simps)


subsection \<open>Steps under the lock of a chain\<close>

text \<open>
  The states between the search and the final unlock of \<^verbatim>\<open>db_store\<close>: the files
  hold \<open>d\<close>, the only lock is the write lock on the first byte of chain \<open>j\<close>.
\<close>

definition in_chain :: "nat \<Rightarrow> nat \<Rightarrow> adb \<Rightarrow> DB \<Rightarrow> bool" where
  "in_chain nh j d t \<longleftrightarrow>
     fbytes (idxfd t) = enc_idx d \<and> fbytes (datfd t) = enc_datfile d \<and>
     flocks (idxfd t) = set_lock F_WRLCK (int (PTR_SZ * j)) 1 no_locks \<and> flocks (datfd t) = no_locks \<and>
     nhash t = nh \<and> hashoff t = HASH_OFF \<and> chainoff t = int (PTR_SZ * j)"

lemma in_chainD:
  assumes "in_chain nh j d t"
  shows "fbytes (idxfd t) = enc_idx d" "fbytes (datfd t) = enc_datfile d"
    "flocks (idxfd t) = set_lock F_WRLCK (int (PTR_SZ * j)) 1 no_locks" "flocks (datfd t) = no_locks"
    "nhash t = nh" "hashoff t = HASH_OFF" "chainoff t = int (PTR_SZ * j)"
  using assms by (simp_all add: in_chain_def)

lemma in_chain_counters [simp]:
  "in_chain nh j d (t\<lparr>cnt_stor1 := x\<rparr>) = in_chain nh j d t" "in_chain nh j d (t\<lparr>cnt_stor2 := x\<rparr>) = in_chain nh j d t"
  "in_chain nh j d (t\<lparr>cnt_stor3 := x\<rparr>) = in_chain nh j d t" "in_chain nh j d (t\<lparr>cnt_stor4 := x\<rparr>) = in_chain nh j d t"
  "in_chain nh j d (t\<lparr>cnt_storerr := x\<rparr>) = in_chain nh j d t" "in_chain nh j d (t\<lparr>errno := e\<rparr>) = in_chain nh j d t"
  by (simp_all add: in_chain_def)

text \<open>The last unlock leaves a database with no lock held.\<close>

lemma in_chain_unlock:
  assumes "in_chain nh j d t" and "chain_inv nh d cs {}" and "nh = NHASH_DEF"
  shows "db_rep (t\<lparr>idxfd := lock_reg F_UNLCK (chainoff t) SEEK_SET 1 (idxfd t)\<rparr>) (abs_map nh d cs)"
  by (rule db_repI [where d = d and cs = cs]) (use assms in_chainD [OF assms(1)] in simp_all)

lemma in_chain_miss:
  assumes "files s d" and "chain_inv (nhash s) d cs {}" and "j = Suc (db_hash (nhash s) key)"
    and "flocks (idxfd s) = no_locks" and "flocks (datfd s) = no_locks"
    and "\<And>k. k \<in> set (cs j) \<Longrightarrow> a_key (a_recs d ! k) \<noteq> key"
  shows "\<exists>t. db_find_and_lock no_faults key True s = Inr (-1, t) \<and> in_chain (nhash s) j d t"
  using find_miss [OF assms(1,2,3,6), of True] assms(4,5) filesD [OF assms(1)]
  by (simp add: in_chain_def)

lemma in_chain_hit:
  assumes "files s d" and "chain_inv (nhash s) d cs {}" and "j = Suc (db_hash (nhash s) key)"
    and "flocks (idxfd s) = no_locks" and "flocks (datfd s) = no_locks"
    and "cs j = xs @ i # ys" and "a_key (a_recs d ! i) = key"
  shows "\<exists>t. db_find_and_lock no_faults key True s = Inr (0, t) \<and> in_chain (nhash s) j d t \<and>
    idxoff t = int (roff d i) \<and> idxbuf t = key \<and> datoff t = int (a_doff (a_recs d ! i)) \<and>
    datlen t = length (a_dat (a_recs d ! i)) + 1 \<and> ptrval t = int (a_ptr (a_recs d ! i)) \<and>
    ptroff t = int (slot_off d (last_slot j xs))"
  using find_hit [OF assms(1,2,3,6,7), of True] assms(4,5,7) filesD [OF assms(1)]
  by (simp add: in_chain_def ptroff_walked_entered)

lemma in_chain_readptr:
  assumes "in_chain nh j d t" and "wf_adb d" and "length (a_heads d) = nh + 1" and "j \<le> nh"
  shows "\<exists>t'. db_readptr no_faults (chainoff t) t = Inr (int (get_slot d (Head j)), t') \<and> in_chain nh j d t'"
proof -
  note C = in_chainD [OF assms(1)]
  have "db_readptr no_faults (chainoff t) t =
      Inr (int (get_slot d (Head j)), t\<lparr>idxfd := (idxfd t)\<lparr>fpos := slot_off d (Head j) + PTR_SZ\<rparr>\<rparr>)"
    using C(1) assms(2-) C(7) by (intro db_readptr_slot) simp_all
  then show ?thesis using C by (simp add: in_chain_def)
qed

lemma in_chain_byte0: "in_chain nh j d t \<Longrightarrow> 0 < j \<Longrightarrow> flocks (idxfd t) 0 = None"
  unfolding in_chainD(3) by (rule lock_byte_free) simp

lemma in_chain_tail:
  "in_chain nh j d t \<Longrightarrow> 0 < j \<Longrightarrow> j \<le> nh \<Longrightarrow> (nhash t + 1) * PTR_SZ + 1 \<le> i \<Longrightarrow> flocks (idxfd t) i = None"
  unfolding in_chainD(3) in_chainD(5) by (rule locked_tail_free)

lemma in_chain_append:
  assumes i: "in_chain nh j d t" and d: "wf_adb d" "length (a_heads d) = nh + 1" and j: "0 < j" "j \<le> nh"
    and wf: "wf_rec (new_rec d j key v)" and room: "length (enc_idx d) \<le> PTR_MAX"
  shows "\<exists>s1 s2 t'. db_writedat no_faults v 0 SEEK_END t = Inr ((), s1) \<and>
    db_writeidx no_faults key 0 SEEK_END (int (get_slot d (Head j))) s1 = Inr ((), s2) \<and>
    db_writeptr no_faults (int (PTR_SZ * j)) (idxoff s2) s2 = Inr ((), t') \<and> in_chain nh j (appended d j key v) t'"
proof -
  note C = in_chainD [OF i]
  have "\<exists>s'. thn (db_writedat no_faults v 0 SEEK_END)
       (thn (db_writeidx no_faults key 0 SEEK_END (int (get_slot d (Head j))))
       (bnd (gets idxoff) (\<lambda>ioff. db_writeptr no_faults (int (PTR_SZ * j)) ioff))) t = Inr ((), s') \<and>
    fbytes (idxfd s') = enc_idx (appended d j key v) \<and> fbytes (datfd s') = enc_datfile (appended d j key v) \<and>
    flocks (idxfd s') = flocks (idxfd t) \<and> flocks (datfd s') = flocks (datfd t) \<and>
    nhash s' = nhash t \<and> hashoff s' = hashoff t \<and> chainoff s' = chainoff t \<and> stats s' = stats t"
    using C d j wf room in_chain_tail [OF i j] by (intro append_writes) simp_all
  then show ?thesis
    unfolding thn_eq_Inr bnd_eq_Inr using C by (auto simp: in_chain_def)
qed

lemma in_chain_no_free:
  assumes i: "in_chain nh j d t" and j: "0 < j" and c: "chain_inv nh d cs X"
    and no: "\<And>k. k \<in> set (cs 0) \<Longrightarrow>
      \<not> (length (a_key (a_recs d ! k)) = keylen \<and> length (a_dat (a_recs d ! k)) + 1 = dlen)"
  shows "\<exists>t'. db_findfree no_faults keylen dlen t = Inr (-1, t') \<and> in_chain nh j d t'"
proof -
  note C = in_chainD [OF i]
  have c': "chain_inv (nhash t) d cs X" using c C(5) by simp
  from db_findfree_miss [OF C(1) c' no in_chain_byte0 [OF i j]] C show ?thesis
    by (auto simp: in_chain_def)
qed

lemma in_chain_reuse:
  assumes i: "in_chain nh j d t" and j: "0 < j" "j \<le> nh" and c: "chain_inv nh d cs X"
    and c0: "cs 0 = xs @ k # ys"
    and no: "\<And>l. l \<in> set xs \<Longrightarrow>
      \<not> (length (a_key (a_recs d ! l)) = length key \<and> length (a_dat (a_recs d ! l)) + 1 = length v + 1)"
    and sz: "length key = length (a_key (a_recs d ! k))" "length v = length (a_dat (a_recs d ! k))"
    and ok: "key_ok key" "data_ok v"
  shows "\<exists>u s1 s2 t'. db_findfree no_faults (length key) (length v + 1) t = Inr (0, u) \<and>
    db_writedat no_faults v (datoff u) SEEK_SET u = Inr ((), s1) \<and>
    db_writeidx no_faults key (idxoff s1) SEEK_SET (int (get_slot d (Head j))) s1 = Inr ((), s2) \<and>
    db_writeptr no_faults (int (PTR_SZ * j)) (idxoff s2) s2 = Inr ((), t') \<and>
    chainoff u = int (PTR_SZ * j) \<and> in_chain nh j (reused d j xs k key v) t'"
proof -
  note C = in_chainD [OF i]
  have c': "chain_inv (nhash t) d cs X" using c C(5) by simp
  from db_findfree_hit [OF C(1) c' c0 no _ _ in_chain_byte0 [OF i j(1)]] sz
  obtain u where u: "db_findfree no_faults (length key) (length v + 1) t = Inr (0, u)"
    "fbytes (idxfd u) = enc_idx (detach d (last_slot 0 xs) k)"
    "datoff u = int (a_doff (a_recs d ! k))" "idxoff u = int (roff d k)"
    "datfd u = datfd t" "flocks (idxfd u) = flocks (idxfd t)"
    "nhash u = nhash t" "hashoff u = hashoff t" "chainoff u = chainoff t" by auto
  have cu: "chain_inv (nhash u) d cs X" and ju: "j \<le> nhash u" and fu: "fbytes (datfd u) = enc_datfile d"
    using c C u(5,7) j by simp_all
  from reuse_writes [OF u(2) fu cu c0 j(1) ju sz ok u(3,4)] show ?thesis
    using u C by (auto simp: in_chain_def)
qed

lemma in_chain_delete:
  assumes i: "in_chain nh j d t" and j: "0 < j" "j \<le> nh" and c: "chain_inv nh d cs X" and cj: "cs j = xs @ k # ys"
    and st: "idxoff t = int (roff d k)" "idxbuf t = a_key (a_recs d ! k)"
      "datoff t = int (a_doff (a_recs d ! k))" "datlen t = length (a_dat (a_recs d ! k)) + 1"
      "ptrval t = int (a_ptr (a_recs d ! k))" "ptroff t = int (slot_off d (last_slot j xs))"
  shows "\<exists>t'. db_dodelete no_faults t = Inr ((), t') \<and> in_chain nh j (deleted d j xs k) t'"
proof -
  note C = in_chainD [OF i]
  have c': "chain_inv (nhash t) d cs X" and j': "j \<le> nhash t" "j \<noteq> 0" using c C(5) j by simp_all
  from db_dodelete_effect [OF C(1,2) c' j' cj st in_chain_byte0 [OF i j(1)]] C show ?thesis
    by (auto simp: in_chain_def)
qed

lemma in_chain_rewrite:
  assumes i: "in_chain nh j d t" and wf: "wf_adb d" "k < length (a_recs d)"
    and st: "datoff t = int (a_doff (a_recs d ! k))" and len: "length v = length (a_dat (a_recs d ! k))"
  shows "\<exists>t'. db_writedat no_faults v (datoff t) SEEK_SET t = Inr ((), t') \<and>
    in_chain nh j (set_rec d k ((a_recs d ! k)\<lparr>a_dat := v\<rparr>)) t'"
proof -
  note C = in_chainD [OF i]
  let ?r = "(a_recs d ! k)\<lparr>a_dat := v\<rparr>"
  have body: "enc_rec ?r = enc_rec (a_recs d ! k)"
    using len by (simp add: enc_rec_def rec_body_def)
  have "map enc_rec ((a_recs d)[k := ?r]) = map enc_rec (a_recs d)"
    by (simp only: map_update body) (simp add: map_update [symmetric])
  then have "enc_idx (set_rec d k ?r) = enc_idx d"
    by (simp add: enc_idx_def head_table_def set_rec_def)
  with db_writedat_over [OF C(2) wf st, of ?r] len C show ?thesis by (simp add: in_chain_def)
qed

subsection \<open>\<^verbatim>\<open>db_store\<close> case by case\<close>

text \<open>An operation adds at most one record to each file.\<close>

definition grows :: "DB \<Rightarrow> DB \<Rightarrow> bool" where
  "grows s s' \<longleftrightarrow>
     length (fbytes (idxfd s')) \<le> length (fbytes (idxfd s)) + (PTR_SZ + IDXLEN_SZ + IDXLEN_MAX) \<and>
     length (fbytes (datfd s')) \<le> length (fbytes (datfd s)) + DATLEN_MAX"

definition within :: "adb \<Rightarrow> adb \<Rightarrow> bool" where
  "within d d' \<longleftrightarrow>
     length (enc_idx d') \<le> length (enc_idx d) + (PTR_SZ + IDXLEN_SZ + IDXLEN_MAX) \<and>
     length (enc_datfile d') \<le> length (enc_datfile d) + DATLEN_MAX"

lemma within_refl [simp]: "within d d"
  by (simp add: within_def)

lemma within_appended:
  assumes wf: "wf_adb d" "wf_rec (new_rec d j key v)" and j: "j < length (a_heads d)" and v: "data_ok v"
    and room: "length (enc_idx d) \<le> PTR_MAX"
  shows "within d (appended d j key v)"
proof -
  let ?r = "new_rec d j key v" and ?n = "length (a_recs d)"
  let ?d = "add_rec d ?r"
  have wfa: "wf_adb ?d" using wf by (intro wf_adb_add_rec) (simp_all add: new_rec_def)
  have app: "appended d j key v = set_slot ?d (Head j) (roff ?d ?n)"
    by (simp add: appended_def attach_def del: set_slot.simps)
  have ok: "slot_ok ?d (Head j)" using j by (simp add: add_rec_def)
  have ro: "roff ?d ?n \<le> PTR_MAX" using room length_enc_idx [OF wf(1)] by (simp add: roff_add_rec)
  have "wf_adb (appended d j key v)" unfolding app using wfa ok ro by (rule wf_adb_set_slot)
  then have "length (enc_idx (appended d j key v)) = roff (appended d j key v) (length (a_recs (appended d j key v)))"
    by (rule length_enc_idx)
  also have "\<dots> = length (enc_idx ?d)"
    unfolding app using length_enc_idx [OF wfa] roff_set_slot [OF wfa ok ro] by simp
  also have "\<dots> \<le> length (enc_idx d) + (PTR_SZ + IDXLEN_SZ + IDXLEN_MAX)"
    using length_enc_rec [OF wf(2)] wf(2) by (simp add: enc_idx_add_rec wf_rec_def)
  finally have "length (enc_idx (appended d j key v)) \<le> length (enc_idx d) + (PTR_SZ + IDXLEN_SZ + IDXLEN_MAX)" .
  moreover have "length (enc_datfile (appended d j key v)) \<le> length (enc_datfile d) + DATLEN_MAX"
    unfolding app enc_datfile_set_slot [OF ok] enc_datfile_add_rec using v
    by (simp add: new_rec_def data_ok_def)
  ultimately show ?thesis by (simp add: within_def)
qed

lemma store_done:
  assumes "db_store F key v flag s = Inr (rc, t\<lparr>idxfd := lock_reg F_UNLCK (chainoff t) SEEK_SET 1 (idxfd t)\<rparr>)"
    and "in_chain (nhash s) j d' t" and "chain_inv (nhash s) d' cs {}" and "abs_map (nhash s) d' cs = m'"
    and "nhash s = NHASH_DEF" and "files s d" and "within d d'"
  shows "\<exists>s'. db_store F key v flag s = Inr (rc, s') \<and> db_rep s' m' \<and> grows s s'"
proof -
  have "grows s (t\<lparr>idxfd := lock_reg F_UNLCK (chainoff t) SEEK_SET 1 (idxfd t)\<rparr>)"
    using assms(7) filesD [OF assms(6)] in_chainD [OF assms(2)] by (simp add: grows_def within_def)
  then show ?thesis using assms(1) in_chain_unlock [OF assms(2,3,5)] assms(4) by blast
qed

lemma within_reused:
  assumes c: "chain_inv nh d cs X" and c0: "cs 0 = xs @ i # ys" and j: "0 < j" "j \<le> nh"
    and sz: "length key = length (a_key (a_recs d ! i))" "length v = length (a_dat (a_recs d ! i))"
    and ok: "key_ok key" "data_ok v"
  shows "within d (reused d j xs i key v)"
proof -
  let ?d = "detach d (last_slot 0 xs) i" and ?r = "reused_rec d j i key v"
  note R = reused_facts [OF c c0 j sz ok]
  note D = chain_invD [OF c]
  have okj: "slot_ok (set_rec ?d i ?r) (Head j)" using R(9) by simp
  have app: "reused d j xs i key v = set_slot (set_rec ?d i ?r) (Head j) (roff d i)"
    using R(5) [of i] by (simp add: reused_def attach_def del: set_slot.simps)
  have wf1: "wf_adb (set_rec ?d i ?r)" using R(1,2,8,7) by (rule wf_adb_set_rec)
  have "wf_adb (reused d j xs i key v)" unfolding app using wf1 okj R(6) by (rule wf_adb_set_slot)
  moreover have "length (a_recs (reused d j xs i key v)) = length (a_recs d)"
    unfolding app by (simp add: detach_def)
  moreover have "roff (reused d j xs i key v) k = roff d k" for k
    unfolding reused_def using roff_attach [OF R(1,2,8,7,9)] R(5,6) by simp
  ultimately have "length (enc_idx (reused d j xs i key v)) = length (enc_idx d)"
    using D(1) by (simp add: length_enc_idx)
  moreover have "length (enc_datfile (set_rec ?d i ?r)) = length (enc_datfile ?d)"
    using R(8) unfolding length_enc_datfile by (simp add: set_rec_def off_of_update same_size_def)
  then have "length (enc_datfile (reused d j xs i key v)) = length (enc_datfile d)"
    unfolding app enc_datfile_set_slot [OF okj] R(10) by simp
  ultimately show ?thesis by (simp add: within_def)
qed

lemma data_ok_len: "data_ok v \<Longrightarrow> \<not> (Suc (length v) < DATLEN_MIN) \<and> \<not> DATLEN_MAX < Suc (length v)"
  by (auto simp: data_ok_def)

lemma store_no_replace:
  assumes "in_chain (nhash s) j d t" and "chain_inv (nhash s) d cs {}" and "files s d" and "nhash s = NHASH_DEF"
    and "db_find_and_lock no_faults key True s = Inr (-1, t)" and "data_ok v"
  shows "\<exists>s'. db_store no_faults key v DB_REPLACE s = Inr (-1, s') \<and> db_rep s' (abs_map (nhash s) d cs) \<and> grows s s'"
  by (rule store_done [where t = "t\<lparr>cnt_storerr := cnt_storerr t + 1, errno := ENOENT\<rparr>" and j = j and d = d and d' = d])
    (use assms data_ok_len [OF assms(6)] in \<open>simp_all add: db_store_def cm_simps\<close>)

lemma store_exists:
  assumes "in_chain (nhash s) j d t" and "chain_inv (nhash s) d cs {}" and "files s d" and "nhash s = NHASH_DEF"
    and "db_find_and_lock no_faults key True s = Inr (0, t)" and "data_ok v"
  shows "\<exists>s'. db_store no_faults key v DB_INSERT s = Inr (1, s') \<and> db_rep s' (abs_map (nhash s) d cs) \<and> grows s s'"
  by (rule store_done [where t = "t\<lparr>cnt_storerr := cnt_storerr t + 1\<rparr>" and j = j and d = d and d' = d])
    (use assms data_ok_len [OF assms(6)] in \<open>simp_all add: db_store_def cm_simps\<close>)

lemma store_append:
  assumes i: "in_chain (nhash s) j d t" and c: "chain_inv (nhash s) d cs {}" and f: "files s d" and nh: "nhash s = NHASH_DEF"
    and fnd: "db_find_and_lock no_faults key True s = Inr (-1, t)" and j: "j = Suc (db_hash (nhash s) key)"
    and flag: "flag = DB_INSERT \<or> flag = DB_STORE" and v: "data_ok v"
    and new: "\<And>k. k \<in> set (cs j) \<Longrightarrow> a_key (a_recs d ! k) \<noteq> key"
    and wf: "wf_rec (new_rec d j key v)" and room: "length (enc_idx d) \<le> PTR_MAX"
    and no: "\<And>k. k \<in> set (cs 0) \<Longrightarrow>
      \<not> (length (a_key (a_recs d ! k)) = length key \<and> length (a_dat (a_recs d ! k)) + 1 = Suc (length v))"
  shows "\<exists>s'. db_store no_faults key v flag s = Inr (0, s') \<and> db_rep s' ((abs_map (nhash s) d cs)(key \<mapsto> v)) \<and> grows s s'"
proof -
  note D = chain_invD [OF c] and C = in_chainD [OF i]
  have jn: "0 < j" "j \<le> nhash s" using db_hash_less [OF D(2), of key] j by simp_all
  obtain t1 where t1: "db_readptr no_faults (chainoff t) t = Inr (int (get_slot d (Head j)), t1)" "in_chain (nhash s) j d t1"
    using in_chain_readptr [OF i D(1,3) jn(2)] by blast
  obtain t2 where t2: "db_findfree no_faults (length key) (Suc (length v)) t1 = Inr (-1, t2)" "in_chain (nhash s) j d t2"
    using in_chain_no_free [OF t1(2) jn(1) c no] by blast
  obtain s1 s2 t3 where t3: "db_writedat no_faults v 0 SEEK_END t2 = Inr ((), s1)"
    "db_writeidx no_faults key 0 SEEK_END (int (get_slot d (Head j))) s1 = Inr ((), s2)"
    "db_writeptr no_faults (chainoff t) (idxoff s2) s2 = Inr ((), t3)" "in_chain (nhash s) j (appended d j key v) t3"
    using in_chain_append [OF t2(2) D(1,3) jn wf room] C(7) by auto
  have run: "db_store no_faults key v flag s = Inr (0, t3\<lparr>cnt_stor1 := cnt_stor1 t3 + 1,
      idxfd := lock_reg F_UNLCK (chainoff t3) SEEK_SET 1 (idxfd t3)\<rparr>)"
    using flag data_ok_len [OF v] fnd by (auto simp: db_store_def cm_simps t1(1) t2(1) t3(1-3) simp del: get_slot.simps)
  note A = appended_inv [OF c refl new [unfolded j] wf [unfolded j] room, folded j]
  show ?thesis
    by (rule store_done [where t = "t3\<lparr>cnt_stor1 := cnt_stor1 t3 + 1\<rparr>" and j = j and d' = "appended d j key v" and
          cs = "cs(j := length (a_recs d) # cs j)", OF _ _ _ _ nh f])
      (use run A t3(4) within_appended [OF D(1) wf _ v room] jn D(3) in simp_all)
qed

lemma store_reuse:
  assumes i: "in_chain (nhash s) j d t" and c: "chain_inv (nhash s) d cs {}" and f: "files s d" and nh: "nhash s = NHASH_DEF"
    and fnd: "db_find_and_lock no_faults key True s = Inr (-1, t)" and j: "j = Suc (db_hash (nhash s) key)"
    and flag: "flag = DB_INSERT \<or> flag = DB_STORE" and k: "key_ok key" and v: "data_ok v"
    and new: "\<And>k. k \<in> set (cs j) \<Longrightarrow> a_key (a_recs d ! k) \<noteq> key"
    and c0: "cs 0 = xs @ k # ys"
    and no: "\<And>l. l \<in> set xs \<Longrightarrow>
      \<not> (length (a_key (a_recs d ! l)) = length key \<and> length (a_dat (a_recs d ! l)) + 1 = length v + 1)"
    and sz: "length key = length (a_key (a_recs d ! k))" "length v = length (a_dat (a_recs d ! k))"
  shows "\<exists>s'. db_store no_faults key v flag s = Inr (0, s') \<and> db_rep s' ((abs_map (nhash s) d cs)(key \<mapsto> v)) \<and> grows s s'"
proof -
  note D = chain_invD [OF c] and C = in_chainD [OF i]
  have jn: "0 < j" "j \<le> nhash s" using db_hash_less [OF D(2), of key] j by simp_all
  obtain t1 where t1: "db_readptr no_faults (chainoff t) t = Inr (int (get_slot d (Head j)), t1)" "in_chain (nhash s) j d t1"
    using in_chain_readptr [OF i D(1,3) jn(2)] by blast
  obtain u s1 s2 t3 where t3: "db_findfree no_faults (length key) (Suc (length v)) t1 = Inr (0, u)"
    "db_writedat no_faults v (datoff u) SEEK_SET u = Inr ((), s1)"
    "db_writeidx no_faults key (idxoff s1) SEEK_SET (int (get_slot d (Head j))) s1 = Inr ((), s2)"
    "db_writeptr no_faults (chainoff t) (idxoff s2) s2 = Inr ((), t3)" "in_chain (nhash s) j (reused d j xs k key v) t3"
    using in_chain_reuse [OF t1(2) jn c c0 no sz k v] C(7) by auto
  have run: "db_store no_faults key v flag s = Inr (0, t3\<lparr>cnt_stor2 := cnt_stor2 t3 + 1,
      idxfd := lock_reg F_UNLCK (chainoff t3) SEEK_SET 1 (idxfd t3)\<rparr>)"
    using flag data_ok_len [OF v] fnd by (auto simp: db_store_def cm_simps t1(1) t3(1-4) simp del: get_slot.simps)
  note A = reused_inv [OF c c0 refl new [unfolded j] sz k v, folded j]
  show ?thesis
    by (rule store_done [where t = "t3\<lparr>cnt_stor2 := cnt_stor2 t3 + 1\<rparr>" and j = j and d' = "reused d j xs k key v" and
          cs = "cs(0 := xs @ ys, j := k # cs j)", OF _ _ _ _ nh f])
      (use run A t3(5) within_reused [OF c c0 jn sz \<open>key_ok key\<close> v] in simp_all)
qed

lemma store_run_other:
  assumes "db_find_and_lock no_faults key True s = Inr (0, t)" and "flag = DB_REPLACE \<or> flag = DB_STORE"
    and "\<not> Suc (length v) < DATLEN_MIN \<and> \<not> DATLEN_MAX < Suc (length v)" and "datlen t \<noteq> Suc (length v)"
    and "db_dodelete no_faults t = Inr ((), t1)" and "db_readptr no_faults (chainoff t1) t1 = Inr (p, t2)"
    and "db_writedat no_faults v 0 SEEK_END t2 = Inr ((), s1)"
    and "db_writeidx no_faults key 0 SEEK_END p s1 = Inr ((), s2)"
    and "db_writeptr no_faults (chainoff t1) (idxoff s2) s2 = Inr ((), t3)"
  shows "db_store no_faults key v flag s = Inr (0, t3\<lparr>cnt_stor3 := cnt_stor3 t3 + 1,
      idxfd := lock_reg F_UNLCK (chainoff t3) SEEK_SET 1 (idxfd t3)\<rparr>)"
  using assms(2,3)
  by (elim disjE) (simp_all add: db_store_def bnd_def thn_def require_apply or_dump_lock assms(1,5-9) assms(4) [symmetric])

lemma store_other_length:
  assumes i: "in_chain (nhash s) j d t" and c: "chain_inv (nhash s) d cs {}" and f: "files s d" and nh: "nhash s = NHASH_DEF"
    and fnd: "db_find_and_lock no_faults key True s = Inr (0, t)" and j: "j = Suc (db_hash (nhash s) key)"
    and flag: "flag = DB_REPLACE \<or> flag = DB_STORE" and k: "key_ok key" and v: "data_ok v" and fit: "fits s key v"
    and cj: "cs j = xs @ k # ys" and key: "a_key (a_recs d ! k) = key"
    and st: "idxoff t = int (roff d k)" "idxbuf t = key" "datoff t = int (a_doff (a_recs d ! k))"
      "datlen t = length (a_dat (a_recs d ! k)) + 1" "ptrval t = int (a_ptr (a_recs d ! k))"
      "ptroff t = int (slot_off d (last_slot j xs))"
    and len: "length v \<noteq> length (a_dat (a_recs d ! k))"
  shows "\<exists>s'. db_store no_faults key v flag s = Inr (0, s') \<and> db_rep s' ((abs_map (nhash s) d cs)(key \<mapsto> v)) \<and> grows s s'"
proof -
  note D = chain_invD [OF c] and F = filesD [OF f]
  let ?e = "deleted d j xs k" and ?cs = "cs(j := xs @ ys, 0 := k # cs 0)"
  have hn: "db_hash (nhash s) key < nhash s" using D(2) by (rule db_hash_less)
  then have jn: "0 < j" "j \<le> nhash s" using j by simp_all
  obtain t1 where t1: "db_dodelete no_faults t = Inr ((), t1)" "in_chain (nhash s) j ?e t1"
    using in_chain_delete [OF i jn c cj] st key by auto
  have dl: "datlen t \<noteq> Suc (length v)" using st(4) len by simp
  note del = deleted_inv [OF c hn cj [unfolded j], folded j]
  note lens = deleted_lengths [OF c hn cj [unfolded j], folded j]
  note E = chain_invD [OF del(1)]
  obtain t2 where t2: "db_readptr no_faults (chainoff t1) t1 = Inr (int (get_slot ?e (Head j)), t2)" "in_chain (nhash s) j ?e t2"
    using in_chain_readptr [OF t1(2) E(1,3) jn(2)] by blast
  have room: "length (enc_idx ?e) \<le> PTR_MAX" using fit F lens by (simp add: fits_def)
  have wf: "wf_rec (new_rec ?e j key v)"
    using F lens k v E(1,3) jn(2) by (intro wf_new_rec [OF fit]) simp_all
  obtain s1 s2 t3 where t3: "db_writedat no_faults v 0 SEEK_END t2 = Inr ((), s1)"
    "db_writeidx no_faults key 0 SEEK_END (int (get_slot ?e (Head j))) s1 = Inr ((), s2)"
    "db_writeptr no_faults (chainoff t1) (idxoff s2) s2 = Inr ((), t3)" "in_chain (nhash s) j (appended ?e j key v) t3"
    using in_chain_append [OF t2(2) E(1,3) jn wf room] in_chainD(7) [OF t1(2)] by auto
  have wi: "within d (appended ?e j key v)"
    using within_appended [OF E(1) wf _ v room] jn E(3) lens by (simp add: within_def)
  have run: "db_store no_faults key v flag s = Inr (0, t3\<lparr>cnt_stor3 := cnt_stor3 t3 + 1,
      idxfd := lock_reg F_UNLCK (chainoff t3) SEEK_SET 1 (idxfd t3)\<rparr>)"
    using fnd flag data_ok_len [OF v] dl t1(1) t2(1) t3(1-3) by (rule store_run_other)
  have "abs_map (nhash s) ?e ?cs key = None" using del(2) key by simp
  then have new: "a_key (a_recs ?e ! l) \<noteq> key" if "l \<in> set (?cs (Suc (db_hash (nhash s) key)))" for l
    using that unfolding abs_map_None by blast
  have "wf_rec (new_rec ?e (Suc (db_hash (nhash s) key)) key v)" using wf j by simp
  note A = appended_inv [OF del(1) refl new this room empty_subsetI, folded j]
  show ?thesis
    by (rule store_done [where t = "t3\<lparr>cnt_stor3 := cnt_stor3 t3 + 1\<rparr>" and j = j, OF _ _ A(1) A(2) [unfolded del(2) key fun_upd_upd] nh f])
      (simp_all add: run t3(4) wi)
qed

lemma within_set_dat:
  assumes "wf_adb d" and "k < length (a_recs d)" and "length v = length (a_dat (a_recs d ! k))" and "NUL \<notin> set v"
  shows "within d (set_rec d k ((a_recs d ! k)\<lparr>a_dat := v\<rparr>))"
proof -
  let ?r = "(a_recs d ! k)\<lparr>a_dat := v\<rparr>"
  have sz: "same_size (a_recs d ! k) ?r" using assms(3) by (simp add: same_size_def)
  have wr: "wf_rec ?r"
    using wf_adb_recD [OF assms(1,2)] assms(3,4) same_size_body [OF sz] by (simp add: wf_rec_def)
  have "wf_adb (set_rec d k ?r)" using assms(1,2) sz wr by (rule wf_adb_set_rec)
  moreover have "roff (set_rec d k ?r) l = roff d l" for l
    using sz wr wf_adb_recD [OF assms(1,2)] by (intro roff_set_rec same_size_enc)
  ultimately have "length (enc_idx (set_rec d k ?r)) = length (enc_idx d)"
    using assms(1) by (simp add: length_enc_idx)
  moreover have "length (enc_datfile (set_rec d k ?r)) = length (enc_datfile d)"
    using assms(3) unfolding length_enc_datfile by (simp add: set_rec_def off_of_update)
  ultimately show ?thesis by (simp add: within_def)
qed

lemma store_same_length:
  assumes i: "in_chain (nhash s) j d t" and c: "chain_inv (nhash s) d cs {}" and f: "files s d" and nh: "nhash s = NHASH_DEF"
    and fnd: "db_find_and_lock no_faults key True s = Inr (0, t)" and j: "j = Suc (db_hash (nhash s) key)"
    and flag: "flag = DB_REPLACE \<or> flag = DB_STORE" and v: "data_ok v"
    and cj: "k \<in> set (cs j)" and key: "a_key (a_recs d ! k) = key"
    and st: "datoff t = int (a_doff (a_recs d ! k))" "datlen t = length (a_dat (a_recs d ! k)) + 1"
    and len: "length v = length (a_dat (a_recs d ! k))"
  shows "\<exists>s'. db_store no_faults key v flag s = Inr (0, s') \<and> db_rep s' ((abs_map (nhash s) d cs)(key \<mapsto> v)) \<and> grows s s'"
proof -
  note D = chain_invD [OF c]
  have hn: "db_hash (nhash s) key < nhash s" using D(2) by (rule db_hash_less)
  have kl: "k < length (a_recs d)" using chain_inv_member(1) [OF c, of j k] cj hn j by simp
  obtain t1 where t1: "db_writedat no_faults v (datoff t) SEEK_SET t = Inr ((), t1)"
    "in_chain (nhash s) j (set_rec d k ((a_recs d ! k)\<lparr>a_dat := v\<rparr>)) t1"
    using in_chain_rewrite [OF i D(1) kl st(1) len] by blast
  have dl: "datlen t = Suc (length v)" using st(2) len by simp
  have run: "db_store no_faults key v flag s = Inr (0, t1\<lparr>cnt_stor4 := cnt_stor4 t1 + 1,
      idxfd := lock_reg F_UNLCK (chainoff t1) SEEK_SET 1 (idxfd t1)\<rparr>)"
    using flag data_ok_len [OF v]
    by (elim disjE) (simp_all add: db_store_def bnd_def thn_def require_apply or_dump_lock fnd dl t1(1))
  have nul: "NUL \<notin> set v" using v by (simp add: data_ok_def)
  have wi: "within d (set_rec d k ((a_recs d ! k)\<lparr>a_dat := v\<rparr>))"
    using within_set_dat [OF D(1) kl len nul] .
  note A = chain_inv_set_dat [OF c hn cj [unfolded j] len nul]
  show ?thesis
    by (rule store_done [where t = "t1\<lparr>cnt_stor4 := cnt_stor4 t1 + 1\<rparr>", OF _ _ A(1) _ nh f])
      (use run t1(2) A(2) key wi in simp_all)
qed

text \<open>
  The whole of \<^verbatim>\<open>db_store\<close>: with a legal key, datum and flag and room for one more
  record it returns the value \<open>store_spec\<close> gives and leaves the map \<open>store_spec\<close> gives.
\<close>

lemma store_absent:
  assumes f: "files s d" and c: "chain_inv (nhash s) d cs {}" and nh: "nhash s = NHASH_DEF" and l: "flocks (idxfd s) = no_locks" "flocks (datfd s) = no_locks"
    and k: "key_ok key" and v: "data_ok v" and fit: "fits s key v"
    and flag: "flag = DB_INSERT \<or> flag = DB_REPLACE \<or> flag = DB_STORE"
    and none: "abs_map (nhash s) d cs key = None"
  shows "\<exists>s'. db_store no_faults key v flag s = Inr (if flag = DB_REPLACE then -1 else 0, s') \<and>
    db_rep s' (if flag = DB_REPLACE then abs_map (nhash s) d cs else (abs_map (nhash s) d cs)(key \<mapsto> v)) \<and> grows s s'"
proof -
  define j where j: "j = Suc (db_hash (nhash s) key)"
  note D = chain_invD [OF c] and F = filesD [OF f]
  have new: "\<And>k. k \<in> set (cs j) \<Longrightarrow> a_key (a_recs d ! k) \<noteq> key"
    using none unfolding j by (auto simp: abs_map_None)
  obtain t where t: "db_find_and_lock no_faults key True s = Inr (-1, t)" and i: "in_chain (nhash s) j d t"
    using in_chain_miss [OF f c j l new] by blast
  have jl: "j < length (a_heads d)" using db_hash_less [OF D(2), of key] j D(3) by simp
  have wf: "wf_rec (new_rec d j key v)" using F k v D(1) jl by (intro wf_new_rec [OF fit]) simp_all
  have room: "length (enc_idx d) \<le> PTR_MAX" using fit F by (simp add: fits_def)
  let ?P = "\<lambda>k. length (a_key (a_recs d ! k)) = length key \<and> length (a_dat (a_recs d ! k)) + 1 = length v + 1"
  consider (replace) "flag = DB_REPLACE" | (reuse) "flag \<noteq> DB_REPLACE" "\<exists>k \<in> set (cs 0). ?P k"
    | (append) "flag \<noteq> DB_REPLACE" "\<And>k. k \<in> set (cs 0) \<Longrightarrow> \<not> ?P k" by blast
  then show ?thesis
  proof cases
    case replace
    then show ?thesis using store_no_replace [OF i c f nh t v] by simp
  next
    case append
    then have "flag = DB_INSERT \<or> flag = DB_STORE" using flag by blast
    then show ?thesis using store_append [OF i c f nh t j _ v new wf room] append by auto
  next
    case reuse
    obtain xs k' ys where k': "cs 0 = xs @ k' # ys" "?P k'" "\<And>y. y \<in> set xs \<Longrightarrow> \<not> ?P y"
      using first_match [OF reuse(2)] by blast
    have "flag = DB_INSERT \<or> flag = DB_STORE" using flag reuse by blast
    then show ?thesis using store_reuse [OF i c f nh t j _ k v new k'(1,3)] k'(2) reuse by simp
  qed
qed

lemma store_present:
  assumes f: "files s d" and c: "chain_inv (nhash s) d cs {}" and nh: "nhash s = NHASH_DEF" and l: "flocks (idxfd s) = no_locks" "flocks (datfd s) = no_locks"
    and k: "key_ok key" and v: "data_ok v" and fit: "fits s key v"
    and flag: "flag = DB_INSERT \<or> flag = DB_REPLACE \<or> flag = DB_STORE"
    and some: "abs_map (nhash s) d cs key = Some old"
  shows "\<exists>s'. db_store no_faults key v flag s = Inr (if flag = DB_INSERT then 1 else 0, s') \<and>
    db_rep s' (if flag = DB_INSERT then abs_map (nhash s) d cs else (abs_map (nhash s) d cs)(key \<mapsto> v)) \<and> grows s s'"
proof -
  define j where j: "j = Suc (db_hash (nhash s) key)"
  obtain xs i ys where i: "cs j = xs @ i # ys" "a_key (a_recs d ! i) = key"
    using some j by (metis abs_map_Some)
  obtain t where t: "db_find_and_lock no_faults key True s = Inr (0, t)" and ic: "in_chain (nhash s) j d t"
    and st: "idxoff t = int (roff d i)" "idxbuf t = key" "datoff t = int (a_doff (a_recs d ! i))"
    "datlen t = length (a_dat (a_recs d ! i)) + 1" "ptrval t = int (a_ptr (a_recs d ! i))"
    "ptroff t = int (slot_off d (last_slot j xs))"
    using in_chain_hit [OF f c j l i] by blast
  consider (insert) "flag = DB_INSERT" | (same) "flag \<noteq> DB_INSERT" "length v = length (a_dat (a_recs d ! i))"
    | (other) "flag \<noteq> DB_INSERT" "length v \<noteq> length (a_dat (a_recs d ! i))" by blast
  then show ?thesis
  proof cases
    case insert
    then show ?thesis using store_exists [OF ic c f nh t v] by simp
  next
    case same
    then have "flag = DB_REPLACE \<or> flag = DB_STORE" using flag by blast
    then show ?thesis using store_same_length [OF ic c f nh t j _ v _ i(2) st(3,4) same(2)] same i(1) by simp
  next
    case other
    then have "flag = DB_REPLACE \<or> flag = DB_STORE" using flag by blast
    then show ?thesis using store_other_length [OF ic c f nh t j _ k v fit i st other(2)] other by simp
  qed
qed

lemma db_store_refines:
  assumes "db_rep s m" and "key_ok key" and "data_ok v" and "fits s key v"
    and "flag = DB_INSERT \<or> flag = DB_REPLACE \<or> flag = DB_STORE"
  shows "\<exists>s'. db_store no_faults key v flag s = Inr (fst (store_spec m key v flag), s') \<and>
    db_rep s' (snd (store_spec m key v flag)) \<and> grows s s'"
proof -
  obtain d cs where f: "files s d" and c: "chain_inv (nhash s) d cs {}" and m: "m = abs_map (nhash s) d cs"
    and l: "flocks (idxfd s) = no_locks" "flocks (datfd s) = no_locks" and nh: "nhash s = NHASH_DEF"
    using assms(1) by (auto simp: db_rep_def)
  show ?thesis
  proof (cases "m key")
    case None
    then have none: "abs_map (nhash s) d cs key = None" using m by simp
    have "store_spec m key v flag = (if flag = DB_REPLACE then -1 else 0, if flag = DB_REPLACE then m else m(key \<mapsto> v))"
      using None by (simp add: store_spec_def)
    then show ?thesis unfolding m using store_absent [OF f c nh l assms(2-5) none] by simp
  next
    case (Some old)
    then have some: "abs_map (nhash s) d cs key = Some old" using m by simp
    have "store_spec m key v flag = (if flag = DB_INSERT then 1 else 0, if flag = DB_INSERT then m else m(key \<mapsto> v))"
      using Some by (simp add: store_spec_def)
    then show ?thesis unfolding m using store_present [OF f c nh l assms(2-5) some] by simp
  qed
qed

end
