(* ===== verification/Db_Faults.thy ===== *)
theory Db_Faults
  imports Db_Refine
begin

text \<open>
  Failing system calls. Whatever calls fail, an operation of \<^verbatim>\<open>db.c\<close> that
  returns has done exactly what it does when none fails: every failure the library
  meets ends the process, none is turned into an answer. The relation \<open>refuses\<close>
  says this of one piece of code; it is closed under the ways the code is composed.
\<close>

section \<open>The relation\<close>

definition refuses :: "('s, 'e, 'a) cm \<Rightarrow> ('s, 'e, 'a) cm \<Rightarrow> bool" where
  "refuses m m' \<longleftrightarrow> (\<forall>s r. m s = Inr r \<longrightarrow> m' s = Inr r)"

text \<open>Code that never returns.\<close>

definition aborts :: "('s, 'e, 'a) cm \<Rightarrow> bool" where
  "aborts m \<longleftrightarrow> (\<forall>s r. m s \<noteq> Inr r)"

named_theorems refuses_intros

lemma refusesD: "refuses m m' \<Longrightarrow> m s = Inr r \<Longrightarrow> m' s = Inr r"
  unfolding refuses_def by blast

lemma refuses_refl [refuses_intros]: "refuses m m"
  by (simp add: refuses_def)

lemma refuses_bnd [refuses_intros]:
  "refuses m m' \<Longrightarrow> (\<And>x. refuses (f x) (f' x)) \<Longrightarrow> refuses (bnd m f) (bnd m' f')"
  unfolding refuses_def bnd_eq_Inr by blast

lemma refuses_thn [refuses_intros]:
  "refuses m m' \<Longrightarrow> refuses n n' \<Longrightarrow> refuses (thn m n) (thn m' n')"
  unfolding refuses_def thn_eq_Inr by blast

lemma refuses_if [refuses_intros]:
  "(b \<Longrightarrow> refuses m m') \<Longrightarrow> (\<not> b \<Longrightarrow> refuses n n') \<Longrightarrow>
   refuses (if b then m else n) (if b then m' else n')"
  by simp

lemma refuses_option [refuses_intros]:
  "(x = None \<Longrightarrow> refuses m m') \<Longrightarrow> (\<And>y. x = Some y \<Longrightarrow> refuses (f y) (f' y)) \<Longrightarrow>
   refuses (case x of None \<Rightarrow> m | Some y \<Rightarrow> f y) (case x of None \<Rightarrow> m' | Some y \<Rightarrow> f' y)"
  by (cases x) simp_all

lemma refuses_prod [refuses_intros]:
  "(\<And>a b. x = (a, b) \<Longrightarrow> refuses (f a b) (f' a b)) \<Longrightarrow>
   refuses (case x of (a, b) \<Rightarrow> f a b) (case x of (a, b) \<Rightarrow> f' a b)"
  by (cases x) simp

lemma aborts_simps [simp]:
  "aborts (fail_with e)" "aborts (require False e)"
  "aborts m \<Longrightarrow> aborts (thn m n)" "aborts n \<Longrightarrow> aborts (thn m n)" "(\<And>x. aborts (f x)) \<Longrightarrow> aborts (bnd m f)"
  by (auto simp: aborts_def bnd_eq_Inr thn_eq_Inr require_def)

section \<open>System calls whose failure is looked at\<close>

lemma refuses_lseek [refuses_intros]:
  assumes "\<And>p. refuses (f p) (f' p)" and "aborts (f (-1))"
  shows "refuses (bnd (sys_lseek F w off wh) f) (bnd (sys_lseek no_faults w off wh) f')"
  using assms
  by (auto simp: refuses_def aborts_def bnd_eq_Inr sys_lseek_def no_faults_def split: if_splits option.splits)

lemma refuses_read [refuses_intros]:
  assumes "\<And>p. refuses (f p) (f' p)" and "aborts (f (-1, []))"
  shows "refuses (bnd (sys_read F w n) f) (bnd (sys_read no_faults w n) f')"
  using assms
  by (auto simp: refuses_def aborts_def bnd_eq_Inr sys_read_def no_faults_def split: if_splits prod.splits)

lemma refuses_write [refuses_intros]:
  assumes "\<And>p. refuses (f p) (f' p)" and "aborts (f (-1))"
  shows "refuses (bnd (sys_write F w bs) f) (bnd (sys_write no_faults w bs) f')"
  using assms
  by (auto simp: refuses_def aborts_def bnd_eq_Inr sys_write_def no_faults_def split: if_splits)

lemma refuses_lock [refuses_intros]:
  "refuses (or_dump (readw_lock F w off len) msg) (or_dump (readw_lock no_faults w off len) msg)"
  "refuses (or_dump (writew_lock F w off len) msg) (or_dump (writew_lock no_faults w off len) msg)"
  "refuses (or_dump (un_lock F w off len) msg) (or_dump (un_lock no_faults w off len) msg)"
  by (auto simp: refuses_def or_dump_def readw_lock_def writew_lock_def un_lock_def sys_lock_def
      bnd_eq_Inr require_def no_faults_def split: if_splits)

section \<open>The library, function by function\<close>

lemma refuses_readptr [refuses_intros]: "refuses (db_readptr F off) (db_readptr no_faults off)"
  unfolding db_readptr_def by (intro refuses_intros) simp_all

lemma refuses_readidx [refuses_intros]: "refuses (db_readidx F off) (db_readidx no_faults off)"
  unfolding db_readidx_def by (intro refuses_intros) simp_all

lemma refuses_readdat [refuses_intros]: "refuses (db_readdat F) (db_readdat no_faults)"
  unfolding db_readdat_def by (intro refuses_intros) simp_all

lemma refuses_writedat [refuses_intros]:
  "refuses (db_writedat F d off wh) (db_writedat no_faults d off wh)"
  unfolding db_writedat_def by (intro refuses_intros) simp_all

lemma refuses_writeidx [refuses_intros]:
  "refuses (db_writeidx F key off wh p) (db_writeidx no_faults key off wh p)"
  unfolding db_writeidx_def by (intro refuses_intros) simp_all

lemma refuses_writeptr [refuses_intros]:
  "refuses (db_writeptr F off p) (db_writeptr no_faults off p)"
  unfolding db_writeptr_def by (intro refuses_intros) simp_all

lemma refuses_find_loop [refuses_intros]:
  "refuses (find_loop fuel F key off) (find_loop fuel no_faults key off)"
  by (induction fuel arbitrary: off) (auto intro!: refuses_intros)

lemma refuses_findfree_loop [refuses_intros]:
  "refuses (findfree_loop fuel F kl dl save off) (findfree_loop fuel no_faults kl dl save off)"
  by (induction fuel arbitrary: save off) (auto intro!: refuses_intros)

lemma refuses_nextrec_loop [refuses_intros]:
  "refuses (nextrec_loop fuel F) (nextrec_loop fuel no_faults)"
  by (induction fuel) (auto intro!: refuses_intros)

lemma refuses_find_and_lock [refuses_intros]:
  "refuses (db_find_and_lock F key w) (db_find_and_lock no_faults key w)"
  unfolding db_find_and_lock_def by (intro refuses_intros)

lemma refuses_findfree [refuses_intros]: "refuses (db_findfree F kl dl) (db_findfree no_faults kl dl)"
  unfolding db_findfree_def by (intro refuses_intros)

lemma refuses_dodelete [refuses_intros]: "refuses (db_dodelete F) (db_dodelete no_faults)"
  unfolding db_dodelete_def by (intro refuses_intros)

lemma refuses_fetch: "refuses (db_fetch F key) (db_fetch no_faults key)"
  unfolding db_fetch_def by (intro refuses_intros)

lemma refuses_delete: "refuses (db_delete F key) (db_delete no_faults key)"
  unfolding db_delete_def by (intro refuses_intros)

lemma refuses_store: "refuses (db_store F key v flag) (db_store no_faults key v flag)"
  unfolding db_store_def by (intro refuses_intros)

lemma refuses_rewind: "refuses (db_rewind F) (db_rewind no_faults)"
  unfolding db_rewind_def by (intro refuses_intros) simp_all

lemma refuses_nextrec: "refuses (db_nextrec F) (db_nextrec no_faults)"
  unfolding db_nextrec_def by (intro refuses_intros)

end
