(* ===== verification/Db_Session.thy ===== *)
theory Db_Session
  imports Db_Faults
begin

text \<open>
  A database from its creation on: opening and closing, the sequential walk with
  \<open>db_rewind\<close> and \<open>db_nextrec\<close>, and whole sequences of operations, which go
  through the interface \<open>kv_store\<close> that the library implements.
\<close>

section \<open>The sequential walk\<close>

text \<open>The loop of a caller that reads every record: \<open>db_nextrec\<close> until it returns a null pointer.\<close>

fun db_records :: "nat \<Rightarrow> faults \<Rightarrow> (string \<times> string) list dbm" where
  "db_records 0 F = fail_with Diverges"
| "db_records (Suc n) F =
     bnd (db_nextrec F) (\<lambda>r. case r of
       None \<Rightarrow> ret []
     | Some p \<Rightarrow> bnd (db_records n F) (\<lambda>ps. ret (p # ps)))"

definition live :: "arec list \<Rightarrow> (string \<times> string) list" where
  "live rs = map (\<lambda>r. (a_key r, a_dat r)) (filter (\<lambda>r. \<not> blank (a_key r)) rs)"

lemma live_simps [simp]:
  "live [] = []" "live (r # rs) = (if blank (a_key r) then live rs else (a_key r, a_dat r) # live rs)"
  by (simp_all add: live_def)

lemma db_readidx_eof:
  assumes "fpos (idxfd s) = length (fbytes (idxfd s))"
  shows "db_readidx no_faults 0 s = Inr (-1, s\<lparr>idxoff := int (fpos (idxfd s))\<rparr>)"
  using assms by (simp add: db_readidx_def cm_simps slice_at_def)

lemma nextrec_loop_skips:
  assumes "fbytes (idxfd s) = enc_idx d" and "wf_adb d" and "fpos (idxfd s) = roff d i"
    and "i \<le> k" "k \<le> length (a_recs d)" and "\<And>l. i \<le> l \<Longrightarrow> l < k \<Longrightarrow> blank (a_key (a_recs d ! l))"
    and "k - i < n" and "k < length (a_recs d) \<Longrightarrow> \<not> blank (a_key (a_recs d ! k))"
  shows "\<exists>t. nextrec_loop n no_faults s = Inr (k < length (a_recs d), if k < length (a_recs d) then at_rec d k t else t) \<and>
    fbytes (idxfd t) = enc_idx d \<and> flocks (idxfd t) = flocks (idxfd s) \<and> datfd t = datfd s \<and>
    nhash t = nhash s \<and> hashoff t = hashoff s \<and> stats t = stats s \<and>
    (k < length (a_recs d) \<or> fpos (idxfd t) = roff d (length (a_recs d)))"
  using assms
proof (induction n arbitrary: i s)
  case 0
  then show ?case by simp
next
  case (Suc n)
  note bytes = Suc.prems(1) and wf = Suc.prems(2) and pos = Suc.prems(3)
  show ?case
  proof (cases "i = k")
    case True
    show ?thesis
    proof (cases "k < length (a_recs d)")
      case True
      have r: "db_readidx no_faults 0 s = Inr (int (a_ptr (a_recs d ! k)), at_rec d k s)"
        using bytes wf True pos \<open>i = k\<close> by (intro db_readidx_rec) simp_all
      have "\<not> list_all (\<lambda>c. c = SPACE) (a_key (a_recs d ! k))" using Suc.prems(8) True by (simp add: blank_def)
      then show ?thesis using True bytes by (intro exI [of _ s]) (simp add: cm_simps r)
    next
      case False
      then have k: "k = length (a_recs d)" using Suc.prems(5) by simp
      have "db_readidx no_faults 0 s = Inr (-1, s\<lparr>idxoff := int (fpos (idxfd s))\<rparr>)"
        using bytes pos \<open>i = k\<close> k length_enc_idx [OF wf] by (intro db_readidx_eof) simp
      then show ?thesis
        using k bytes pos \<open>i = k\<close>
        by (intro exI [of _ "s\<lparr>idxoff := int (fpos (idxfd s))\<rparr>"]) (simp add: cm_simps stats_def)
    qed
  next
    case False
    then have i: "i < length (a_recs d)" "i < k" using Suc.prems(4,5) by simp_all
    have r: "db_readidx no_faults 0 s = Inr (int (a_ptr (a_recs d ! i)), at_rec d i s)"
      using bytes wf i pos by (intro db_readidx_rec) simp_all
    have b: "list_all (\<lambda>c. c = SPACE) (a_key (a_recs d ! i))"
      using Suc.prems(6) [of i] i by (simp add: blank_def)
    have step: "nextrec_loop (Suc n) no_faults s = nextrec_loop n no_faults (at_rec d i s)"
      using b by (simp add: cm_simps r)
    show ?thesis
      unfolding step
      using Suc.IH [of "at_rec d i s" "Suc i"] Suc.prems i by (simp add: at_rec_def Let_def stats_def)
  qed
qed

text \<open>Between two calls: the descriptor stands at record \<open>i\<close>.\<close>

definition walking :: "nat \<Rightarrow> adb \<Rightarrow> nat \<Rightarrow> DB \<Rightarrow> bool" where
  "walking nh d i s \<longleftrightarrow>
     fbytes (idxfd s) = enc_idx d \<and> fbytes (datfd s) = enc_datfile d \<and>
     flocks (idxfd s) = no_locks \<and> flocks (datfd s) = no_locks \<and> nhash s = nh \<and> hashoff s = HASH_OFF \<and>
     fpos (idxfd s) = roff d i"

lemma next_live:
  assumes "i \<le> length rs"
  obtains k where "i \<le> k" "k \<le> length rs" "\<And>l. i \<le> l \<Longrightarrow> l < k \<Longrightarrow> blank (a_key (rs ! l))"
    and "k < length rs \<Longrightarrow> \<not> blank (a_key (rs ! k))"
    and "live (drop i rs) = (if k < length rs then (a_key (rs ! k), a_dat (rs ! k)) # live (drop (Suc k) rs) else [])"
  using assms
proof (induction "length rs - i" arbitrary: i thesis)
  case 0
  then show ?case by (intro "0.prems"(1) [of i]) simp_all
next
  case (Suc n)
  then have i: "i < length rs" and dr: "drop i rs = rs ! i # drop (Suc i) rs" by (simp_all add: Cons_nth_drop_Suc)
  show ?case
  proof (cases "blank (a_key (rs ! i))")
    case False
    then show ?thesis using i dr by (intro Suc.prems(1) [of i]) simp_all
  next
    case True
    have "n = length rs - Suc i" "Suc i \<le> length rs" using Suc.hyps(2) i by simp_all
    then obtain k where k: "Suc i \<le> k" "k \<le> length rs" "\<And>l. Suc i \<le> l \<Longrightarrow> l < k \<Longrightarrow> blank (a_key (rs ! l))"
      "k < length rs \<Longrightarrow> \<not> blank (a_key (rs ! k))"
      "live (drop (Suc i) rs) = (if k < length rs then (a_key (rs ! k), a_dat (rs ! k)) # live (drop (Suc k) rs) else [])"
      using Suc.hyps(1) by metis
    show ?thesis
    proof (rule Suc.prems(1) [of k])
      show "blank (a_key (rs ! l))" if "i \<le> l" "l < k" for l
        using that k(3) [of l] True by (cases "l = i") simp_all
    qed (use k True dr in simp_all)
  qed
qed

lemma nextrec_step:
  assumes w: "walking nh d i s" and wf: "wf_adb d" and i: "i \<le> length (a_recs d)"
  obtains t r where "db_nextrec no_faults s = Inr (r, t)"
    and "case r of None \<Rightarrow> live (drop i (a_recs d)) = [] \<and> walking nh d (length (a_recs d)) t \<and> cnt_nextrec t = cnt_nextrec s
         | Some p \<Rightarrow> \<exists>k. i \<le> k \<and> k < length (a_recs d) \<and> live (drop i (a_recs d)) = p # live (drop (Suc k) (a_recs d)) \<and>
             walking nh d (Suc k) t \<and> cnt_nextrec t = cnt_nextrec s + 1"
proof -
  let ?rs = "a_recs d"
  let ?s = "s\<lparr>idxfd := lock_reg F_RDLCK 0 SEEK_SET 1 (idxfd s)\<rparr>"
  obtain k where k: "i \<le> k" "k \<le> length ?rs" "\<And>l. i \<le> l \<Longrightarrow> l < k \<Longrightarrow> blank (a_key (?rs ! l))"
    "k < length ?rs \<Longrightarrow> \<not> blank (a_key (?rs ! k))"
    "live (drop i ?rs) = (if k < length ?rs then (a_key (?rs ! k), a_dat (?rs ! k)) # live (drop (Suc k) ?rs) else [])"
    using next_live [OF i] by blast
  have fuel: "k - i < Suc (length (enc_idx d))" using k(2) length_recs_le [OF wf] by simp
  have b: "fbytes (idxfd ?s) = enc_idx d" "fpos (idxfd ?s) = roff d i" using w by (simp_all add: walking_def)
  obtain t where t: "nextrec_loop (Suc (length (enc_idx d))) no_faults ?s =
      Inr (k < length ?rs, if k < length ?rs then at_rec d k t else t)"
    "fbytes (idxfd t) = enc_idx d" "flocks (idxfd t) = flocks (idxfd ?s)" "datfd t = datfd ?s"
    "nhash t = nhash ?s" "hashoff t = hashoff ?s" "stats t = stats ?s"
    "k < length ?rs \<or> fpos (idxfd t) = roff d (length ?rs)"
    using nextrec_loop_skips [OF b(1) wf b(2) k(1-3) fuel k(4)] by blast
  have unl: "set_lock F_UNLCK 0 1 (set_lock F_RDLCK 0 1 no_locks) = no_locks"
    by (rule set_lock_unlock) (simp add: no_locks_def)
  show thesis
  proof (cases "k < length ?rs")
    case True
    let ?t = "at_rec d k t"
    let ?u = "?t\<lparr>datfd := (datfd ?t)\<lparr>fpos := a_doff (?rs ! k) + length (a_dat (?rs ! k)) + 1\<rparr>,
        datbuf := a_dat (?rs ! k), cnt_nextrec := cnt_nextrec ?t + 1,
        idxfd := lock_reg F_UNLCK 0 SEEK_SET 1 (idxfd ?t)\<rparr>"
    have rd: "db_readdat no_faults ?t = Inr (a_dat (?rs ! k),
         ?t\<lparr>datfd := (datfd ?t)\<lparr>fpos := a_doff (?rs ! k) + length (a_dat (?rs ! k)) + 1\<rparr>, datbuf := a_dat (?rs ! k)\<rparr>)"
      using t w True wf by (intro db_readdat_rec) (simp_all add: walking_def)
    have run: "db_nextrec no_faults s = Inr (Some (a_key (?rs ! k), a_dat (?rs ! k)), ?u)"
      using w t(1) True rd by (simp add: db_nextrec_def cm_simps walking_def)
    have "walking nh d (Suc k) ?u" and "cnt_nextrec ?u = cnt_nextrec s + 1"
      using w t unl by (simp_all add: walking_def stats_def) (simp add: at_rec_def Let_def)
    then show thesis using that [OF run] k True by auto
  next
    case False
    let ?u = "t\<lparr>idxfd := lock_reg F_UNLCK 0 SEEK_SET 1 (idxfd t)\<rparr>"
    have run: "db_nextrec no_faults s = Inr (None, ?u)"
      using w t(1) False by (simp add: db_nextrec_def cm_simps walking_def)
    have "walking nh d (length ?rs) ?u" and "cnt_nextrec ?u = cnt_nextrec s"
      using w t False unl by (simp_all add: walking_def stats_def)
    then show thesis using that [OF run] k False by auto
  qed
qed

lemma db_records_live:
  assumes "walking nh d i s" and "wf_adb d" and "i \<le> length (a_recs d)" and "length (a_recs d) - i < n"
  shows "\<exists>t. db_records n no_faults s = Inr (live (drop i (a_recs d)), t) \<and> walking nh d (length (a_recs d)) t"
  using assms
proof (induction n arbitrary: i s)
  case 0
  then show ?case by simp
next
  case (Suc n)
  obtain t r where t: "db_nextrec no_faults s = Inr (r, t)"
    and r: "case r of None \<Rightarrow> live (drop i (a_recs d)) = [] \<and> walking nh d (length (a_recs d)) t \<and> cnt_nextrec t = cnt_nextrec s
         | Some p \<Rightarrow> \<exists>k. i \<le> k \<and> k < length (a_recs d) \<and> live (drop i (a_recs d)) = p # live (drop (Suc k) (a_recs d)) \<and>
             walking nh d (Suc k) t \<and> cnt_nextrec t = cnt_nextrec s + 1"
    using nextrec_step [OF Suc.prems(1-3)] by blast
  show ?case
  proof (cases r)
    case None
    then show ?thesis using t r by (simp add: cm_simps)
  next
    case (Some p)
    then obtain k where k: "i \<le> k" "k < length (a_recs d)" "walking nh d (Suc k) t"
      "live (drop i (a_recs d)) = p # live (drop (Suc k) (a_recs d))" using r by auto
    then obtain u where "db_records n no_faults t = Inr (live (drop (Suc k) (a_recs d)), u)"
      "walking nh d (length (a_recs d)) u"
      using Suc.IH [OF k(3) Suc.prems(2)] Suc.prems(4) by fastforce
    then show ?thesis using t Some k(4) by (simp add: cm_simps)
  qed
qed

text \<open>The records of the walk are the map's entries, those with an all-blank key left out.\<close>

lemma in_live: "p \<in> set (live rs) \<longleftrightarrow>
    (\<exists>i < length rs. p = (a_key (rs ! i), a_dat (rs ! i)) \<and> \<not> blank (a_key (rs ! i)))"
  by (auto simp: live_def in_set_conv_nth)

lemma chain_of_record:
  assumes "chain_inv nh d cs {}" and "i < length (a_recs d)" and "\<not> blank (key_of d i)"
  shows "i \<in> set (cs (Suc (db_hash nh (key_of d i))))"
proof -
  note D = chain_invD [OF assms(1)]
  have "i \<in> (\<Union>j \<le> nh. set (cs j))" using D(7) assms(2) by simp
  then obtain j where j: "j \<le> nh" "i \<in> set (cs j)" by blast
  with D(8) [of i] assms(3) obtain h where "j = Suc h" by (cases j) auto
  with j D(9) [of h i] show ?thesis by simp
qed

lemma live_map:
  assumes c: "chain_inv nh d cs {}"
  shows "set (live (a_recs d)) = {(k, v). abs_map nh d cs k = Some v \<and> \<not> blank k}"
proof -
  note D = chain_invD [OF c]
  have "abs_map nh d cs (key_of d i) = Some (dat_of d i)"
    if "i < length (a_recs d)" "\<not> blank (key_of d i)" for i
    using chain_of_record [OF c that] D(10) [OF db_hash_less [OF D(2)]] by (simp add: abs_map_def pairs_lookup)
  moreover have "\<exists>i < length (a_recs d). (k, v) = (key_of d i, dat_of d i)" if kv: "abs_map nh d cs k = Some v" for k v
  proof -
    obtain xs i ys where i: "cs (Suc (db_hash nh k)) = xs @ i # ys" "key_of d i = k" "dat_of d i = v"
      using kv by (rule abs_map_Some)
    then have "i < length (a_recs d)"
      using chain_inv_member(1) [OF c, of "Suc (db_hash nh k)" i] db_hash_less [OF D(2), of k] by simp
    then show ?thesis using i by blast
  qed
  ultimately show ?thesis by (fastforce simp: in_live)
qed

lemma live_distinct:
  assumes c: "chain_inv nh d cs {}"
  shows "distinct (map fst (live (a_recs d)))"
proof -
  note D = chain_invD [OF c]
  let ?is = "filter (\<lambda>i. \<not> blank (key_of d i)) [0..<length (a_recs d)]"
  have eq: "map fst (live (a_recs d)) = map (\<lambda>i. key_of d i) ?is"
    unfolding live_def by (subst map_nth [of "a_recs d", symmetric]) (simp add: filter_map o_def)
  have "inj_on (\<lambda>i. key_of d i) (set ?is)"
  proof (rule inj_onI)
    fix i k assume ik: "i \<in> set ?is" "k \<in> set ?is" and e: "key_of d i = key_of d k"
    have "i \<in> set (cs (Suc (db_hash nh (key_of d i))))" "k \<in> set (cs (Suc (db_hash nh (key_of d i))))"
      using chain_of_record [OF c, of i] chain_of_record [OF c, of k] ik e by auto
    then show "i = k" using D(10) [OF db_hash_less [OF D(2)], of "key_of d i"] e by (simp add: inj_on_def)
  qed
  then show ?thesis unfolding eq by (simp add: distinct_map)
qed

lemma db_rewind_effect:
  assumes "0 < length (a_heads d)" and "length (a_heads d) = nhash s + 1"
  shows "db_rewind no_faults s =
    Inr ((), s\<lparr>idxfd := (idxfd s)\<lparr>fpos := roff d 0\<rparr>, idxoff := int (roff d 0)\<rparr>)"
  using assms by (simp add: db_rewind_def cm_simps roff_def hdr_len_def off_of_def nat_add_distrib nat_mult_distrib)

lemma walk_refines:
  assumes "db_rep s m" and "length (fbytes (idxfd s)) < n"
  shows "\<exists>ps s'. thn (db_rewind no_faults) (db_records n no_faults) s = Inr (ps, s') \<and> db_rep s' m \<and>
    distinct (map fst ps) \<and> set ps = {(k, v). m k = Some v \<and> \<not> blank k}"
proof -
  obtain d cs where f: "files s d" and c: "chain_inv (nhash s) d cs {}" and m: "m = abs_map (nhash s) d cs"
    and l: "flocks (idxfd s) = no_locks" "flocks (datfd s) = no_locks"
    using assms(1) by (auto simp: db_rep_def)
  note F = filesD [OF f] and D = chain_invD [OF c]
  let ?s = "s\<lparr>idxfd := (idxfd s)\<lparr>fpos := roff d 0\<rparr>, idxoff := int (roff d 0)\<rparr>"
  have rw: "db_rewind no_faults s = Inr ((), ?s)" using F by (intro db_rewind_effect) simp_all
  have w: "walking (nhash s) d 0 ?s" using F l by (simp add: walking_def)
  have "length (a_recs d) - 0 < n" using length_recs_le [OF D(1)] assms(2) F(1) by simp
  then obtain t where t: "db_records n no_faults ?s = Inr (live (a_recs d), t)" "walking (nhash s) d (length (a_recs d)) t"
    using db_records_live [OF w D(1)] by auto
  have "db_rep t m"
    using t(2) F l by (intro db_rep_cong [OF assms(1)]) (simp_all add: walking_def)
  then show ?thesis
    using t(1) live_map [OF c] live_distinct [OF c] m by (auto simp: cm_simps rw)
qed

section \<open>Opening and closing\<close>

definition empty_adb :: adb where
  "empty_adb = \<lparr>a_heads = replicate (NHASH_DEF + 1) 0, a_recs = []\<rparr>"

lemma empty_chains:
  assumes "0 < nh"
  shows "chain_inv nh \<lparr>a_heads = replicate (nh + 1) 0, a_recs = []\<rparr> (\<lambda>_. []) {}"
  using assms by (simp add: chain_inv_def wf_adb_def nth_Cons split: nat.splits)

lemma empty_inv: "chain_inv NHASH_DEF empty_adb (\<lambda>_. []) {}"
  unfolding empty_adb_def by (rule empty_chains) simp

lemma empty_table: "concat (map enc_ptr (replicate n 0)) = concat (replicate n (fmt_ptr PTR_SZ 0))"
  by (induction n) (simp_all add: enc_ptr_def)

lemma empty_files: "enc_idx empty_adb = db_init_table" "enc_datfile empty_adb = []"
  unfolding enc_idx_def enc_datfile_def head_table_def empty_adb_def db_init_table_def
  by (simp_all only: empty_table adb.simps list.map concat.simps append_Nil2)

lemma empty_map: "abs_map nh d (\<lambda>_. []) = Map.empty"
  by (rule ext) (simp add: abs_map_def pairs_def)

lemma empty_rep:
  assumes "fbytes (idxfd s) = db_init_table" "fbytes (datfd s) = []" "hashoff s = HASH_OFF" "nhash s = NHASH_DEF"
    and "flocks (idxfd s) = no_locks" "flocks (datfd s) = no_locks"
  shows "db_rep s Map.empty"
  by (rule db_repI [where d = empty_adb and cs = "\<lambda>_. []"])
    (use assms empty_inv empty_files empty_map in simp_all)

text \<open>Creating: \<^verbatim>\<open>db_open\<close> with \<open>O_CREAT\<close> and \<open>O_TRUNC\<close> gives an empty database.\<close>

lemma fs_open_create:
  assumes "\<not> deny p" and "oflag AND (O_CREAT OR O_TRUNC) = O_CREAT OR O_TRUNC"
  shows "fs_open deny p oflag d = (Some \<lparr>fbytes = [], fpos = 0, flocks = no_locks\<rparr>, d(p \<mapsto> []))"
proof -
  have "oflag AND O_CREAT = O_CREAT" "oflag AND O_TRUNC = O_TRUNC"
    using assms(2) by (simp_all add: bit_eq_iff bit_simps) (blast+)
  then show ?thesis using assms(1) by (simp add: fs_open_def O_CREAT_def O_TRUNC_def split: option.splits)
qed

lemma db_alloc_ok: "db_alloc no_faults s = Inr ((), db_zero)"
  by (simp add: db_alloc_def sys_alloc_def no_faults_def cm_simps)

lemma db_open_init_new:
  assumes "fbytes (idxfd s) = []" and "fpos (idxfd s) = 0" and "flocks (idxfd s) = no_locks"
  shows "db_open_init no_faults s =
    Inr ((), s\<lparr>idxfd := \<lparr>fbytes = db_init_table, fpos = length db_init_table, flocks = no_locks\<rparr>\<rparr>)"
proof -
  have ow: "overwrite [] 0 bs = bs" for bs :: "char list" by (simp add: overwrite_def)
  have fc: "(no_faults (Sys_fstat Idx) t) = False" for t by (simp add: no_faults_def)
  show ?thesis
    using assms set_lock_unlock_empty [of 0 0 F_WRLCK]
    by (simp add: db_open_init_def cm_simps fc write_file_def ow lock_reg_def fcntl_setlk_def seek_base_def)
qed

lemma db_open_create:
  assumes "\<not> deny (name @ ''.idx'')" and "\<not> deny (name @ ''.dat'')"
    and "oflag AND (O_CREAT OR O_TRUNC) = O_CREAT OR O_TRUNC"
  shows "\<exists>s. db_open deny no_faults name oflag d =
      Inr (Some s, d(name @ ''.idx'' \<mapsto> [], name @ ''.dat'' \<mapsto> [])) \<and> db_rep s Map.empty \<and>
      fbytes (idxfd s) = db_init_table \<and> fbytes (datfd s) = []"
proof -
  let ?s = "db_zero\<lparr>nhash := NHASH_DEF, hashoff := HASH_OFF, dbname := name @ ''.dat'',
      idxfd := \<lparr>fbytes = [], fpos = 0, flocks = no_locks\<rparr>, datfd := \<lparr>fbytes = [], fpos = 0, flocks = no_locks\<rparr>\<rparr>"
  let ?t = "?s\<lparr>idxfd := \<lparr>fbytes = db_init_table, fpos = length db_init_table, flocks = no_locks\<rparr>\<rparr>"
  have i: "db_open_init no_faults ?s = Inr ((), ?t)" by (rule db_open_init_new) simp_all
  have r: "db_rewind no_faults ?t =
      Inr ((), ?t\<lparr>idxfd := (idxfd ?t)\<lparr>fpos := roff empty_adb 0\<rparr>, idxoff := int (roff empty_adb 0)\<rparr>)"
    by (rule db_rewind_effect) (simp_all add: empty_adb_def)
  have "thn (db_open_init no_faults) (db_rewind no_faults) ?s =
      Inr ((), ?t\<lparr>idxfd := (idxfd ?t)\<lparr>fpos := roff empty_adb 0\<rparr>, idxoff := int (roff empty_adb 0)\<rparr>)"
    unfolding thn_Inr [of "db_open_init no_faults", OF i] by (rule r)
  then show ?thesis
    using fs_open_create [where deny = deny and p = "name @ ''.idx''", OF assms(1,3)] fs_open_create [where deny = deny and p = "name @ ''.dat''", OF assms(2,3)] assms(3)
    by (simp add: db_open_def db_alloc_ok empty_rep)
qed

text \<open>Reopening: what was closed is there again.\<close>

lemma fs_open_existing:
  assumes "\<not> deny p" and "d p = Some bs" and "oflag AND O_TRUNC = 0"
  shows "fs_open deny p oflag d = (Some \<lparr>fbytes = bs, fpos = 0, flocks = no_locks\<rparr>, d)"
  using assms by (simp add: fs_open_def fun_upd_idem)

lemma db_open_existing:
  assumes "db_rep s m" and "\<not> deny (name @ ''.idx'')" and "\<not> deny (name @ ''.dat'')" and "oflag AND O_TRUNC = 0"
  shows "\<exists>s'. db_open deny no_faults name oflag (db_close name s d) = Inr (Some s', db_close name s d) \<and>
    db_rep s' m \<and> fbytes (idxfd s') = fbytes (idxfd s) \<and> fbytes (datfd s') = fbytes (datfd s)"
proof -
  let ?d = "db_close name s d"
  have d: "?d (name @ ''.idx'') = Some (fbytes (idxfd s))" "?d (name @ ''.dat'') = Some (fbytes (datfd s))"
    by (simp_all add: db_close_def)
  have nt: "oflag AND (O_CREAT OR O_TRUNC) \<noteq> O_CREAT OR O_TRUNC"
  proof
    assume "oflag AND (O_CREAT OR O_TRUNC) = O_CREAT OR O_TRUNC"
    then have "oflag AND O_TRUNC = O_TRUNC" by (simp add: bit_eq_iff bit_simps) blast
    then show False using assms(4) by (simp add: O_TRUNC_def)
  qed
  obtain a where a: "files s a" "nhash s = NHASH_DEF" using assms(1) by (auto simp: db_rep_def)
  note F = filesD [OF a(1)]
  let ?s = "db_zero\<lparr>nhash := NHASH_DEF, hashoff := HASH_OFF, dbname := name @ ''.dat'',
      idxfd := \<lparr>fbytes = fbytes (idxfd s), fpos = 0, flocks = no_locks\<rparr>,
      datfd := \<lparr>fbytes = fbytes (datfd s), fpos = 0, flocks = no_locks\<rparr>\<rparr>"
  let ?t = "?s\<lparr>idxfd := (idxfd ?s)\<lparr>fpos := roff a 0\<rparr>, idxoff := int (roff a 0)\<rparr>"
  have r: "db_rewind no_faults ?s = Inr ((), ?t)" using F a(2) by (intro db_rewind_effect) simp_all
  have "db_rep ?t m" using F a(2) by (intro db_rep_cong [OF assms(1)]) simp_all
  then show ?thesis
    using fs_open_existing [where deny = deny and d = ?d and p = "name @ ''.idx''", OF assms(2) d(1) assms(4)]
      fs_open_existing [where deny = deny and d = ?d and p = "name @ ''.dat''", OF assms(3) d(2) assms(4)] nt r
    by (simp add: db_open_def db_alloc_ok thn_Inr)
qed

section \<open>The interface and sequences of requests\<close>

datatype ('k, 'v) request = Fetch 'k | Store 'k 'v int | Delete 'k

datatype 'v reply = Found "'v option" | Code int

text \<open>What a map answers.\<close>

fun answer :: "('k \<Rightarrow> 'v option) \<Rightarrow> ('k, 'v) request \<Rightarrow> 'v reply \<times> ('k \<Rightarrow> 'v option)" where
  "answer m (Fetch k) = (Found (m k), m)"
| "answer m (Store k v flag) = (Code (fst (store_spec m k v flag)), snd (store_spec m k v flag))"
| "answer m (Delete k) = (Code (if m k = None then -1 else 0), m(k := None))"

fun answers :: "('k \<Rightarrow> 'v option) \<Rightarrow> ('k, 'v) request list \<Rightarrow> 'v reply list \<times> ('k \<Rightarrow> 'v option)" where
  "answers m [] = ([], m)"
| "answers m (r # rs) =
     (let (a, m') = answer m r; (as, m'') = answers m' rs in (a # as, m''))"

text \<open>A caller that sends a request to three operations, and one that sends a list of them.\<close>

fun serve ::
  "('k \<Rightarrow> ('s, 'e, 'v option) cm) \<Rightarrow> ('k \<Rightarrow> 'v \<Rightarrow> int \<Rightarrow> ('s, 'e, int) cm) \<Rightarrow> ('k \<Rightarrow> ('s, 'e, int) cm) \<Rightarrow>
   ('k, 'v) request \<Rightarrow> ('s, 'e, 'v reply) cm" where
  "serve fetch store delete (Fetch k) = bnd (fetch k) (\<lambda>r. ret (Found r))"
| "serve fetch store delete (Store k v flag) = bnd (store k v flag) (\<lambda>r. ret (Code r))"
| "serve fetch store delete (Delete k) = bnd (delete k) (\<lambda>r. ret (Code r))"

fun serve_all :: "('r \<Rightarrow> ('s, 'e, 'a) cm) \<Rightarrow> 'r list \<Rightarrow> ('s, 'e, 'a list) cm" where
  "serve_all f [] = ret []"
| "serve_all f (r # rs) = bnd (f r) (\<lambda>a. bnd (serve_all f rs) (\<lambda>as. ret (a # as)))"

fun legal_request :: "('k \<Rightarrow> 'v \<Rightarrow> int \<Rightarrow> bool) \<Rightarrow> ('k, 'v) request \<Rightarrow> bool" where
  "legal_request legal (Store k v flag) \<longleftrightarrow> legal k v flag"
| "legal_request legal _ \<longleftrightarrow> True"

text \<open>
  The contract of a store of keyed records: \<open>rep s m\<close> says that the state \<open>s\<close>
  stands for the map \<open>m\<close>, \<open>room n s\<close> that \<open>n\<close> more operations fit.
\<close>

locale kv_store =
  fixes rep :: "'s \<Rightarrow> ('k \<Rightarrow> 'v option) \<Rightarrow> bool"
    and room :: "nat \<Rightarrow> 's \<Rightarrow> bool"
    and legal :: "'k \<Rightarrow> 'v \<Rightarrow> int \<Rightarrow> bool"
    and fetch :: "'k \<Rightarrow> ('s, 'e, 'v option) cm"
    and store :: "'k \<Rightarrow> 'v \<Rightarrow> int \<Rightarrow> ('s, 'e, int) cm"
    and delete :: "'k \<Rightarrow> ('s, 'e, int) cm"
  assumes fetch_law: "rep s m \<Longrightarrow> room (Suc n) s \<Longrightarrow> \<exists>s'. fetch k s = Inr (m k, s') \<and> rep s' m \<and> room n s'"
    and store_law: "rep s m \<Longrightarrow> room (Suc n) s \<Longrightarrow> legal k v flag \<Longrightarrow>
      \<exists>s'. store k v flag s = Inr (fst (store_spec m k v flag), s') \<and> rep s' (snd (store_spec m k v flag)) \<and> room n s'"
    and delete_law: "rep s m \<Longrightarrow> room (Suc n) s \<Longrightarrow>
      \<exists>s'. delete k s = Inr (if m k = None then -1 else 0, s') \<and> rep s' (m(k := None)) \<and> room n s'"
begin

lemma serve_answer:
  assumes "rep s m" and "room (Suc n) s" and "legal_request legal r"
  shows "\<exists>s'. serve fetch store delete r s = Inr (fst (answer m r), s') \<and> rep s' (snd (answer m r)) \<and> room n s'"
proof (cases r)
  case (Fetch k)
  then show ?thesis using fetch_law [OF assms(1,2), of k] by (auto simp: bnd_Inr)
next
  case (Store k v flag)
  then show ?thesis using store_law [OF assms(1,2), of k v flag] assms(3) by (auto simp: bnd_Inr)
next
  case (Delete k)
  then obtain s' where "delete k s = Inr (if m k = None then -1 else 0, s')" "rep s' (m(k := None))" "room n s'"
    using delete_law [OF assms(1,2), of k] by blast
  then show ?thesis using Delete by (simp add: bnd_Inr)
qed

lemma serve_all_answers:
  assumes "rep s m" and "room (length rs) s" and "list_all (legal_request legal) rs"
  shows "\<exists>s'. serve_all (serve fetch store delete) rs s = Inr (fst (answers m rs), s') \<and>
    rep s' (snd (answers m rs)) \<and> room 0 s'"
  using assms
proof (induction rs arbitrary: s m)
  case Nil
  then show ?case by simp
next
  case (Cons r rs)
  obtain s1 where s1: "serve fetch store delete r s = Inr (fst (answer m r), s1)" "rep s1 (snd (answer m r))"
    "room (length rs) s1"
    using serve_answer [of s m "length rs" r] Cons.prems by auto
  with Cons.IH [of s1 "snd (answer m r)"] Cons.prems(3) show ?case
    by (auto simp: bnd_Inr Let_def split: prod.splits)
qed

end

text \<open>Room for \<open>n\<close> more records of the greatest size, and the arguments \<^verbatim>\<open>db_store\<close> accepts.\<close>

definition db_room :: "nat \<Rightarrow> DB \<Rightarrow> bool" where
  "db_room n s \<longleftrightarrow>
     length (fbytes (idxfd s)) + n * (PTR_SZ + IDXLEN_SZ + IDXLEN_MAX) \<le> PTR_MAX \<and>
     length (fbytes (datfd s)) + n * DATLEN_MAX \<le> PTR_MAX"

definition db_legal :: "string \<Rightarrow> string \<Rightarrow> int \<Rightarrow> bool" where
  "db_legal key v flag \<longleftrightarrow>
     key_ok key \<and> 1 \<le> length key \<and> length key \<le> 1010 \<and> data_ok v \<and>
     (flag = DB_INSERT \<or> flag = DB_REPLACE \<or> flag = DB_STORE)"

lemma room_fits:
  assumes "db_room (Suc n) s" and "db_legal key v flag"
  shows "fits s key v"
proof -
  have l: "length (fbytes (datfd s)) \<le> PTR_MAX" "length (fbytes (idxfd s)) \<le> PTR_MAX"
    using assms(1) by (simp_all add: db_room_def)
  have "length (dec (length (fbytes (datfd s)))) \<le> 7" "length (dec (length v + 1)) \<le> 4"
    using length_dec_le [of "length (fbytes (datfd s))" 6] length_dec_le [of "length v + 1" 3] l(1) assms(2)
    by (simp_all add: db_legal_def data_ok_def)
  moreover have "1 \<le> length (dec n)" for n by (cases "dec n") simp_all
  from this [of "length (fbytes (datfd s))"] this [of "length v + 1"]
  have "1 \<le> length (dec (length (fbytes (datfd s))))" "1 \<le> length (dec (length v + 1))" .
  ultimately show ?thesis
    using l assms(2) by (simp add: fits_def db_legal_def LONG_MAX_def Let_def)
qed

lemma room_grows: "db_room (Suc n) s \<Longrightarrow> grows s s' \<Longrightarrow> db_room n s'"
  by (simp add: db_room_def grows_def)

lemma room_same:
  "db_room (Suc n) s \<Longrightarrow> length (fbytes (idxfd s')) = length (fbytes (idxfd s)) \<Longrightarrow>
   length (fbytes (datfd s')) = length (fbytes (datfd s)) \<Longrightarrow> db_room n s'"
  by (simp add: db_room_def)

interpretation db_kv: kv_store db_rep db_room db_legal "db_fetch no_faults" "db_store no_faults" "db_delete no_faults"
proof (unfold_locales, goal_cases)
  case (1 s m n k)
  then show ?case using db_fetch_refines [OF 1(1), of k] room_same by metis
next
  case (2 s m n k v flag)
  then show ?case
    using db_store_refines [OF 2(1), of k v flag] room_fits [OF 2(2,3)] room_grows [OF 2(2)]
    unfolding db_legal_def by blast
next
  case (3 s m n k)
  then show ?case using db_delete_refines [OF 3(1), of k] room_same by metis
qed

end
