(* ===== verification/Db_Properties.thy ===== *)
theory Db_Properties
  imports Db_Session
begin

text \<open>
  What the database library of \<^verbatim>\<open>apue.3e/db/db.c\<close> promises its callers: it is a map
  from keys to data kept in two files, through every operation, every reopening and
  every failing system call; and the arguments for which it is not.
\<close>

section \<open>A concrete database\<close>

text \<open>The handle on a database that was just created.\<close>

definition fresh_db :: DB where
  "fresh_db = db_zero\<lparr>nhash := NHASH_DEF, hashoff := HASH_OFF,
     idxfd := \<lparr>fbytes = db_init_table, fpos = 967, flocks = no_locks\<rparr>\<rparr>"

lemma fresh_rep: "db_rep fresh_db Map.empty"
  by (rule empty_rep) (simp_all add: fresh_db_def db_zero_def closed_file_def)

lemma length_init_table: "length db_init_table = 967"
proof -
  have "length (fmt_ptr PTR_SZ 0) = PTR_SZ" by (simp add: length_fmt_ptr)
  then have "length (concat (replicate n (fmt_ptr PTR_SZ 0))) = n * PTR_SZ" for n by (induction n) simp_all
  then show ?thesis by (simp only: db_init_table_def length_append) simp
qed

lemma fresh_room: "n \<le> 9660 \<Longrightarrow> db_room n fresh_db"
  by (simp add: db_room_def fresh_db_def db_zero_def closed_file_def length_init_table)

lemma refuses_serve:
  "refuses (serve (db_fetch F) (db_store F) (db_delete F) r)
     (serve (db_fetch no_faults) (db_store no_faults) (db_delete no_faults) r)"
  by (cases r) (auto intro!: refuses_intros refuses_fetch refuses_store refuses_delete)

lemma refuses_serve_all:
  "(\<And>r. refuses (f r) (f' r)) \<Longrightarrow> refuses (serve_all f rs) (serve_all f' rs)"
  by (induction rs) (auto intro!: refuses_intros)

lemma long_key_overflows:
  assumes "db_rep s m" and "m key = None" and "1021 \<le> length key" and "data_ok v"
    and "flag = DB_INSERT \<or> flag = DB_STORE"
  shows "db_store no_faults key v flag s = Inl (Overflow ''idxbuf'')"
proof -
  obtain d cs where f: "files s d" and c: "chain_inv (nhash s) d cs {}" and m: "m = abs_map (nhash s) d cs"
    and l: "flocks (idxfd s) = no_locks" "flocks (datfd s) = no_locks"
    using assms(1) by (auto simp: db_rep_def)
  define j where j: "j = Suc (db_hash (nhash s) key)"
  note D = chain_invD [OF c]
  have jn: "0 < j" "j \<le> nhash s" using db_hash_less [OF D(2), of key] j by simp_all
  have new: "\<And>k. k \<in> set (cs j) \<Longrightarrow> a_key (a_recs d ! k) \<noteq> key"
    using assms(2) m unfolding j by (auto simp: abs_map_None)
  obtain t where t: "db_find_and_lock no_faults key True s = Inr (-1, t)" and i: "in_chain (nhash s) j d t"
    using in_chain_miss [OF f c j l new] by blast
  obtain t1 where t1: "db_readptr no_faults (chainoff t) t = Inr (int (get_slot d (Head j)), t1)" "in_chain (nhash s) j d t1"
    using in_chain_readptr [OF i D(1,3) jn(2)] by blast
  have pos: "0 < length (dec n)" for n by simp
  have short: "length (a_key (a_recs d ! k)) < 1021" if "k \<in> set (cs 0)" for k
  proof -
    have "wf_rec (a_recs d ! k)" using wf_adb_recD [OF D(1), of k] chain_inv_member(1) [OF c, of 0 k] that by simp
    then have "length (rec_body (a_recs d ! k)) \<le> IDXLEN_MAX" by (simp add: wf_rec_def)
    moreover have "length (rec_body (a_recs d ! k)) = length (a_key (a_recs d ! k)) +
        length (dec (a_doff (a_recs d ! k))) + length (dec (length (a_dat (a_recs d ! k)) + 1)) + 3"
      by (simp add: rec_body_def)
    ultimately show ?thesis using pos [of "a_doff (a_recs d ! k)"] by linarith
  qed
  have no: "\<not> (length (a_key (a_recs d ! k)) = length key \<and> length (a_dat (a_recs d ! k)) + 1 = Suc (length v))"
    if "k \<in> set (cs 0)" for k using short [OF that] assms(3) by simp
  obtain t2 where t2: "db_findfree no_faults (length key) (Suc (length v)) t1 = Inr (-1, t2)" "in_chain (nhash s) j d t2"
    using in_chain_no_free [OF t1(2) jn(1) c no] by blast
  have wd: "\<exists>t3. db_writedat no_faults v 0 SEEK_END t2 = Inr ((), t3)"
    using db_writedat_append [OF in_chainD(4) [OF t2(2)]] by blast
  then obtain t3 where t3: "db_writedat no_faults v 0 SEEK_END t2 = Inr ((), t3)" by blast
  have p: "\<not> (int (get_slot d (Head j)) < 0 \<or> int (get_slot d (Head j)) > int PTR_MAX)"
    using get_slot_le [OF D(1), of "Head j"] jn(2) D(3) by simp
  have ov: "1022 < length key + (length (dec (nat (datoff t3))) + length (dec (datlen t3)))"
    using assms(3) pos [of "nat (datoff t3)"] pos [of "datlen t3"] by linarith
  have "db_writeidx no_faults key 0 SEEK_END (int (get_slot d (Head j))) t3 = Inl (Overflow ''idxbuf'')"
    using p ov by (simp add: db_writeidx_def bnd_def thn_def require_apply del: get_slot.simps)
  then show ?thesis
    using assms(5) data_ok_len [OF assms(4)]
    by (elim disjE) (simp_all add: db_store_def bnd_def thn_def require_apply t t1(1) t2(1) t3 del: get_slot.simps)
qed

section \<open>The map\<close>

text \<open>
  C1. A database created with \<^verbatim>\<open>db_open (name, O_CREAT | O_TRUNC | ...)\<close> and then used
  through any sequence of at most 9660 calls of \<^verbatim>\<open>db_fetch\<close>, \<^verbatim>\<open>db_store\<close> and
  \<^verbatim>\<open>db_delete\<close> with legal arguments answers each call as a map that starts empty, never
  ends the process, and stands for that map at the end with no lock held.
\<close>

theorem db_session_is_map:
  assumes "\<not> deny (name @ ''.idx'')" and "\<not> deny (name @ ''.dat'')"
    and "oflag AND (O_CREAT OR O_TRUNC) = O_CREAT OR O_TRUNC"
    and "list_all (legal_request db_legal) rs" and "length rs \<le> 9660"
  shows "\<exists>s d' s'. db_open deny no_faults name oflag d = Inr (Some s, d') \<and>
    serve_all (serve (db_fetch no_faults) (db_store no_faults) (db_delete no_faults)) rs s =
      Inr (fst (answers Map.empty rs), s') \<and>
    db_rep s' (snd (answers Map.empty rs))"
proof -
  obtain s where s: "db_open deny no_faults name oflag d =
      Inr (Some s, d(name @ ''.idx'' \<mapsto> [], name @ ''.dat'' \<mapsto> []))" "db_rep s Map.empty"
      "fbytes (idxfd s) = db_init_table" "fbytes (datfd s) = []"
    using db_open_create [where deny = deny and d = d, OF assms(1-3)] by blast
  have "db_room (length rs) s" using s(3,4) assms(5) by (simp add: db_room_def length_init_table)
  with db_kv.serve_all_answers [OF s(2) _ assms(4)] s(1) show ?thesis by blast
qed

theorem db_session_is_map_witness:
  "\<exists>s d' s'. db_open (\<lambda>_. False) no_faults ''db4'' 0x242 Map.empty = Inr (Some s, d') \<and>
    serve_all (serve (db_fetch no_faults) (db_store no_faults) (db_delete no_faults))
      [Store ''Alpha'' ''data1'' 1, Store ''Alpha'' ''other'' 1, Fetch ''Alpha'', Delete ''Alpha'', Fetch ''Alpha''] s =
      Inr ([Code 0, Code 1, Found (Some ''data1''), Code 0, Found None], s') \<and>
    db_rep s' Map.empty"
  using db_session_is_map [where deny = "\<lambda>_. False" and name = "''db4''" and oflag = "0x242" and d = Map.empty and
      rs = "[Store ''Alpha'' ''data1'' 1, Store ''Alpha'' ''other'' 1, Fetch ''Alpha'', Delete ''Alpha'', Fetch ''Alpha'']"]
  by (simp add: db_legal_def key_ok_def data_ok_def O_CREAT_def O_TRUNC_def store_spec_def Let_def)

text \<open>
  C2. \<^verbatim>\<open>db_store\<close> on a database that stands for the map \<open>m\<close>: an insert of a present
  key returns 1 and a replace of an absent key returns -1, both without effect; every other legal
  call returns 0 and leaves a database that stands for \<open>m\<close> with the key bound to the datum.
  All five ways the code stores a record (appended, in a free record, after deleting the old one,
  over the old data, refused) are covered, and the locks are released.
\<close>

theorem db_store_updates:
  assumes "db_rep s m" and "key_ok key" and "data_ok v" and "fits s key v"
    and "flag = DB_INSERT \<or> flag = DB_REPLACE \<or> flag = DB_STORE"
  shows "\<exists>s'. db_store no_faults key v flag s = Inr (fst (store_spec m key v flag), s') \<and>
    db_rep s' (snd (store_spec m key v flag))"
  using db_store_refines [OF assms] by blast

theorem db_store_updates_witness:
  "\<exists>s'. db_store no_faults ''beta'' ''Data for beta'' DB_INSERT fresh_db = Inr (0, s') \<and>
    db_rep s' (Map.empty(''beta'' \<mapsto> ''Data for beta''))"
proof -
  have legal: "db_legal ''beta'' ''Data for beta'' DB_INSERT" by (simp add: db_legal_def key_ok_def data_ok_def)
  have "fits fresh_db ''beta'' ''Data for beta''" by (rule room_fits [OF fresh_room [of "Suc 0"] legal]) simp
  from db_store_updates [OF fresh_rep _ _ this, of DB_INSERT] show ?thesis
    by (simp add: store_spec_def key_ok_def data_ok_def)
qed

text \<open>
  C3. \<^verbatim>\<open>db_fetch\<close> returns the datum of the key, or a null pointer when the key is not in
  the map; it changes neither file, releases its lock and counts the call as a success or a failure.
\<close>

theorem db_fetch_looks_up:
  assumes "db_rep s m"
  shows "\<exists>s'. db_fetch no_faults key s = Inr (m key, s') \<and> db_rep s' m \<and>
    fbytes (idxfd s') = fbytes (idxfd s) \<and> fbytes (datfd s') = fbytes (datfd s) \<and>
    (cnt_fetchok s', cnt_fetcherr s') =
      (if m key = None then (cnt_fetchok s, cnt_fetcherr s + 1) else (cnt_fetchok s + 1, cnt_fetcherr s))"
  using assms by (rule db_fetch_refines)

theorem db_fetch_looks_up_witness:
  "\<exists>s'. db_fetch no_faults ''beta'' fresh_db = Inr (None, s') \<and> db_rep s' Map.empty \<and>
    cnt_fetcherr s' = cnt_fetcherr fresh_db + 1"
  using db_fetch_looks_up [OF fresh_rep, of "''beta''"] by auto

text \<open>
  C4. \<^verbatim>\<open>db_delete\<close> returns 0 and removes the key, or returns -1 for an absent key and
  leaves the map; the record is blanked and moved to the free list, so the files keep their lengths.
\<close>

theorem db_delete_removes:
  assumes "db_rep s m"
  shows "\<exists>s'. db_delete no_faults key s = Inr (if m key = None then -1 else 0, s') \<and> db_rep s' (m(key := None)) \<and>
    (cnt_delok s', cnt_delerr s') =
      (if m key = None then (cnt_delok s, cnt_delerr s + 1) else (cnt_delok s + 1, cnt_delerr s)) \<and>
    length (fbytes (idxfd s')) = length (fbytes (idxfd s)) \<and> length (fbytes (datfd s')) = length (fbytes (datfd s))"
  using assms by (rule db_delete_refines)

theorem db_delete_removes_witness:
  "\<exists>s'. db_delete no_faults ''beta'' fresh_db = Inr (-1, s') \<and> db_rep s' Map.empty"
  using db_delete_removes [OF fresh_rep, of "''beta''"] by auto

text \<open>
  C5. After \<^verbatim>\<open>db_rewind\<close>, calling \<^verbatim>\<open>db_nextrec\<close> until it returns a null pointer
  visits every entry of the map whose key is not all blanks, each key once, and nothing else
  (deleted records are skipped); the walk ends and leaves the database as it was.
\<close>

theorem db_walk_visits_map:
  assumes "db_rep s m" and "length (fbytes (idxfd s)) < n"
  shows "\<exists>ps s'. thn (db_rewind no_faults) (db_records n no_faults) s = Inr (ps, s') \<and> db_rep s' m \<and>
    distinct (map fst ps) \<and> set ps = {(k, v). m k = Some v \<and> \<not> blank k}"
  using assms by (rule walk_refines)

theorem db_walk_visits_map_witness:
  "\<exists>s'. thn (db_rewind no_faults) (db_records 1000 no_faults) fresh_db = Inr ([], s') \<and> db_rep s' Map.empty"
  using db_walk_visits_map [OF fresh_rep, of 1000]
  by (auto simp: fresh_db_def length_init_table)

text \<open>
  C6. Closing a database and opening it again without truncation gives a handle that stands for
  the same map: everything is in the two files.
\<close>

theorem db_reopen_keeps_map:
  assumes "db_rep s m" and "\<not> deny (name @ ''.idx'')" and "\<not> deny (name @ ''.dat'')" and "oflag AND O_TRUNC = 0"
  shows "\<exists>s'. db_open deny no_faults name oflag (db_close name s d) = Inr (Some s', db_close name s d) \<and>
    db_rep s' m"
  using db_open_existing [where deny = deny, OF assms] by blast

theorem db_reopen_keeps_map_witness:
  "\<exists>s'. db_open (\<lambda>_. False) no_faults ''db4'' 2 (db_close ''db4'' fresh_db Map.empty) =
      Inr (Some s', db_close ''db4'' fresh_db Map.empty) \<and> db_rep s' Map.empty"
  using db_reopen_keeps_map [where deny = "\<lambda>_. False" and name = "''db4''" and oflag = 2, OF fresh_rep]
  by (simp add: O_TRUNC_def)

section \<open>Failing system calls\<close>

text \<open>
  C7. Whatever system calls fail, in whatever states (\<open>F\<close> is any predicate on calls), a
  sequence of requests that gets all its replies gets the replies of the map and leaves a database
  that stands for the right map: a failure ends the process or has no effect on any answer.
\<close>

theorem db_faults_never_lie:
  assumes "db_rep s m" and "db_room (length rs) s" and "list_all (legal_request db_legal) rs"
    and "serve_all (serve (db_fetch F) (db_store F) (db_delete F)) rs s = Inr (as, s')"
  shows "as = fst (answers m rs) \<and> db_rep s' (snd (answers m rs))"
proof -
  have "serve_all (serve (db_fetch no_faults) (db_store no_faults) (db_delete no_faults)) rs s = Inr (as, s')"
    using refusesD [OF refuses_serve_all [OF refuses_serve] assms(4)] .
  with db_kv.serve_all_answers [OF assms(1-3)] show ?thesis by auto
qed

theorem db_faults_never_lie_witness:
  "\<exists>as s'. serve_all (serve (db_fetch no_faults) (db_store no_faults) (db_delete no_faults))
      [Store ''Alpha'' ''data1'' 1, Fetch ''Alpha''] fresh_db = Inr (as, s') \<and>
    as = [Code 0, Found (Some ''data1'')] \<and> db_rep s' (Map.empty(''Alpha'' \<mapsto> ''data1''))"
proof -
  let ?rs = "[Store ''Alpha'' ''data1'' 1, Fetch ''Alpha'']"
  have legal: "list_all (legal_request db_legal) ?rs" by (simp add: db_legal_def key_ok_def data_ok_def)
  have room: "db_room (length ?rs) fresh_db" by (rule fresh_room) simp
  obtain as s' where run: "serve_all (serve (db_fetch no_faults) (db_store no_faults) (db_delete no_faults)) ?rs fresh_db =
      Inr (as, s')"
    using db_kv.serve_all_answers [OF fresh_rep room legal] by blast
  from db_faults_never_lie [OF fresh_rep room legal run] run show ?thesis by (simp add: store_spec_def Let_def)
qed

section \<open>Arguments the library refuses, and one it does not\<close>

text \<open>
  C8. A key of 1021 characters or more that is not in the database makes \<^verbatim>\<open>db_store\<close> write
  past the end of the index buffer: \<^verbatim>\<open>_db_writeidx\<close> formats the record with
  \<^verbatim>\<open>sprintf\<close> into the \<open>IDXLEN_MAX + 2\<close> bytes of \<^verbatim>\<open>idxbuf\<close> and only then
  compares its length with \<open>IDXLEN_MAX\<close>.
\<close>

theorem db_store_long_key:
  assumes "db_rep s m" and "m key = None" and "1021 \<le> length key" and "data_ok v"
    and "flag = DB_INSERT \<or> flag = DB_STORE"
  shows "db_store no_faults key v flag s = Inl (Overflow ''idxbuf'')"
  using assms by (rule long_key_overflows)

theorem db_store_long_key_witness:
  "db_store no_faults (replicate 2000 CHR ''a'') ''data'' DB_INSERT fresh_db = Inl (Overflow ''idxbuf'')"
  by (rule db_store_long_key [OF fresh_rep]) (simp_all only: length_replicate, simp_all add: data_ok_def)

text \<open>
  \<^verbatim>\<open>db_store\<close> refuses, before it touches a file, a flag that is none of the three (it
  returns -1 with \<^verbatim>\<open>errno\<close> set to \<^verbatim>\<open>EINVAL\<close>) and a datum whose length with
  its newline is not between \<open>DATLEN_MIN\<close> and \<open>DATLEN_MAX\<close> (it ends the process),
  whatever system calls fail.
\<close>

lemma db_store_refuses:
  "(flag \<noteq> DB_INSERT \<and> flag \<noteq> DB_REPLACE \<and> flag \<noteq> DB_STORE \<longrightarrow>
      db_store F key v flag s = Inr (-1, s\<lparr>errno := EINVAL\<rparr>)) \<and>
   (flag = DB_INSERT \<or> flag = DB_REPLACE \<or> flag = DB_STORE \<longrightarrow>
      length v + 1 < DATLEN_MIN \<or> DATLEN_MAX < length v + 1 \<longrightarrow>
      db_store F key v flag s = Inl (ErrDump ''db_store: invalid data length''))"
  by (auto simp: db_store_def bnd_def thn_def require_apply)

end
