(* ===== verification/Inet_Addr.thy ===== *)
theory Inet_Addr
  imports C_Prelude "HOL-Library.Word"
begin

text \<open>
  The address conversions of \<^verbatim>\<open>unpv13e/libfree\<close>: \<^verbatim>\<open>inet_pton.c\<close>,
  \<^verbatim>\<open>inet_ntop.c\<close>, \<^verbatim>\<open>inet_aton.c\<close>, the IPv4-only versions of the first two, and the
  Internet checksum of \<^verbatim>\<open>in_cksum.c\<close>. Addresses are lists of bytes in network order,
  strings are lists of nonnull characters.
\<close>

section \<open>Presentation to network\<close>

unbundle bit_operations_syntax

text \<open>\<^verbatim>\<open>strchr (s, c) - s\<close>.\<close>

definition strchr_pos :: "string \<Rightarrow> char \<Rightarrow> nat option" where
  "strchr_pos s c = (if c \<in> set s then Some (length (takeWhile (\<lambda>x. x \<noteq> c) s)) else None)"

definition digits :: string where "digits = ''0123456789''"
definition xdigits_l :: string where "xdigits_l = ''0123456789abcdef''"
definition xdigits_u :: string where "xdigits_u = ''0123456789ABCDEF''"

text \<open>
  The loop of \<^verbatim>\<open>inet_pton4\<close>; \<open>tmp\<close> holds the bytes up to and including the one
  \<^verbatim>\<open>tp\<close> points to.
\<close>

fun pton4_loop :: "bool \<Rightarrow> nat \<Rightarrow> 8 word list \<Rightarrow> string \<Rightarrow> 8 word list option" where
  "pton4_loop saw_digit octets tmp [] = (if octets < 4 then None else Some tmp)"
| "pton4_loop saw_digit octets tmp (ch # src) =
     (case strchr_pos digits ch of
        Some d \<Rightarrow>
          (let new = unat (last tmp) * 10 + d in
           if new > 255 then None
           else if \<not> saw_digit
           then (if octets + 1 > 4 then None
                 else pton4_loop True (octets + 1) (butlast tmp @ [of_nat new]) src)
           else pton4_loop saw_digit octets (butlast tmp @ [of_nat new]) src)
      | None \<Rightarrow>
          if ch = CHR ''.'' \<and> saw_digit
          then (if octets = 4 then None else pton4_loop False octets (tmp @ [0]) src)
          else None)"

definition inet_pton4 :: "string \<Rightarrow> 8 word list option" where
  "inet_pton4 src = pton4_loop False 0 [0] src"

definition xdigit :: "char \<Rightarrow> nat option" where
  "xdigit ch = (case strchr_pos xdigits_l ch of Some d \<Rightarrow> Some d | None \<Rightarrow> strchr_pos xdigits_u ch)"

text \<open>\<^verbatim>\<open>*tp++ = val >> 8; *tp++ = val\<close>, and a copy of bytes to \<^verbatim>\<open>tp\<close>.\<close>

definition put16 :: "8 word list \<Rightarrow> nat \<Rightarrow> nat \<Rightarrow> 8 word list" where
  "put16 tmp tp val = tmp[tp := of_nat (drop_bit 8 val AND 255), tp + 1 := of_nat (val AND 255)]"

definition put_bytes :: "8 word list \<Rightarrow> nat \<Rightarrow> 8 word list \<Rightarrow> 8 word list" where
  "put_bytes tmp tp bs = take tp tmp @ bs @ drop (tp + length bs) tmp"

text \<open>
  The loop of \<^verbatim>\<open>inet_pton6\<close>: \<open>tp\<close> and \<open>colonp\<close> are indices into \<open>tmp\<close>;
  the result is the state behind the loop, or \<open>None\<close> for \<^verbatim>\<open>return (0)\<close>.
\<close>

fun pton6_loop ::
  "8 word list \<Rightarrow> nat \<Rightarrow> nat option \<Rightarrow> string \<Rightarrow> bool \<Rightarrow> nat \<Rightarrow> string \<Rightarrow>
   (8 word list \<times> nat \<times> nat option \<times> bool \<times> nat) option" where
  "pton6_loop tmp tp colonp curtok saw_xdigit val [] = Some (tmp, tp, colonp, saw_xdigit, val)"
| "pton6_loop tmp tp colonp curtok saw_xdigit val (ch # src) =
     (case xdigit ch of
        Some d \<Rightarrow>
          (let val' = push_bit 4 val OR d in
           if val' > 0xffff then None else pton6_loop tmp tp colonp curtok True val' src)
      | None \<Rightarrow>
          if ch = CHR '':''
          then (if \<not> saw_xdigit
                then (if colonp \<noteq> None then None
                      else pton6_loop tmp tp (Some tp) src saw_xdigit val src)
                else if tp + 2 > 16 then None
                else pton6_loop (put16 tmp tp val) (tp + 2) colonp src False 0 src)
          else if ch = CHR ''.'' \<and> tp + 4 \<le> 16
          then (case inet_pton4 curtok of
                  Some bs \<Rightarrow> Some (put_bytes tmp tp bs, tp + 4, colonp, False, val)
                | None \<Rightarrow> None)
          else None)"

text \<open>The shift by hand behind the loop: \<^verbatim>\<open>endp[- i] = colonp[n - i]; colonp[n - i] = 0\<close>.\<close>

fun pton6_shift :: "nat \<Rightarrow> nat \<Rightarrow> nat \<Rightarrow> nat \<Rightarrow> 8 word list \<Rightarrow> 8 word list" where
  "pton6_shift 0 i n colonp tmp = tmp"
| "pton6_shift (Suc k) i n colonp tmp =
     pton6_shift k (i + 1) n colonp
       ((tmp[16 - i := tmp ! (colonp + (n - i))])[colonp + (n - i) := 0])"

definition inet_pton6 :: "string \<Rightarrow> 8 word list option" where
  "inet_pton6 src0 =
     (let start = (if take 1 src0 = '':''
                   then (if take 1 (drop 1 src0) = '':'' then Some (drop 1 src0) else None)
                   else Some src0)
      in case start of
        None \<Rightarrow> None
      | Some src \<Rightarrow>
         (case pton6_loop (replicate 16 0) 0 None src False 0 src of
            None \<Rightarrow> None
          | Some (tmp, tp, colonp, saw_xdigit, val) \<Rightarrow>
             (if saw_xdigit \<and> tp + 2 > 16 then None
              else
                (let (tmp, tp) = (if saw_xdigit then (put16 tmp tp val, tp + 2) else (tmp, tp));
                     (tmp, tp) = (case colonp of
                        None \<Rightarrow> (tmp, tp)
                      | Some c \<Rightarrow> (pton6_shift (tp - c) 1 (tp - c) c tmp, 16))
                 in if tp \<noteq> 16 then None else Some tmp))))"

datatype family = AF_INET | AF_INET6 | AF_OTHER int

text \<open>\<^verbatim>\<open>inet_pton\<close>: the value returned, and the bytes stored at \<^verbatim>\<open>dst\<close> when it is 1.\<close>

definition pton_ret :: "8 word list option \<Rightarrow> int \<times> 8 word list option" where
  "pton_ret r = (case r of Some bs \<Rightarrow> (1, Some bs) | None \<Rightarrow> (0, None))"

fun inet_pton :: "family \<Rightarrow> string \<Rightarrow> int \<times> 8 word list option" where
  "inet_pton AF_INET src = pton_ret (inet_pton4 src)"
| "inet_pton AF_INET6 src = pton_ret (inet_pton6 src)"
| "inet_pton (AF_OTHER _) src = (-1, None)"

section \<open>Network to presentation\<close>

text \<open>
  What the text conversions leave: the text in the caller's buffer, a null pointer with
  \<^verbatim>\<open>errno\<close>, or a copy past the \<open>sz\<close> bytes the caller has.
\<close>

datatype ntop_res = Text string | Enospc | Eafnosupport | Overrun

text \<open>\<^verbatim>\<open>"%u.%u.%u.%u"\<close> and \<^verbatim>\<open>"%x"\<close>.\<close>

definition fmt_quad :: "8 word list \<Rightarrow> string" where
  "fmt_quad src =
     dec (unat (src ! 0)) @ ''.'' @ dec (unat (src ! 1)) @ ''.'' @
     dec (unat (src ! 2)) @ ''.'' @ dec (unat (src ! 3))"

fun fmt_hex :: "nat \<Rightarrow> string" where
  "fmt_hex n = (if n < 16 then [xdigits_l ! n] else fmt_hex (n div 16) @ [xdigits_l ! (n mod 16)])"

declare fmt_hex.simps [simp del]

definition inet_ntop4 :: "8 word list \<Rightarrow> nat \<Rightarrow> ntop_res" where
  "inet_ntop4 src sz =
     (let tmp = fmt_quad src in
      if length tmp > sz then Enospc
      else if length tmp + 1 > sz then Overrun
      else Text tmp)"

text \<open>The wordwise array: \<^verbatim>\<open>words[i / 2] |= src[i] << ((1 - (i % 2)) << 3)\<close>.\<close>

definition ntop6_words :: "8 word list \<Rightarrow> nat list" where
  "ntop6_words src =
     foldl (\<lambda>ws i. ws[i div 2 := ws ! (i div 2) OR push_bit (8 * (1 - i mod 2)) (unat (src ! i))])
       (replicate 8 0) [0..<16]"

text \<open>Runs of zero words as (base, length); \<open>None\<close> is a base of -1.\<close>

definition better :: "(nat \<times> nat) option \<Rightarrow> (nat \<times> nat) option \<Rightarrow> (nat \<times> nat) option" where
  "better best cur =
     (case cur of
        None \<Rightarrow> best
      | Some (cb, cl) \<Rightarrow>
          (case best of None \<Rightarrow> cur | Some (bb, bl) \<Rightarrow> if cl > bl then cur else best))"

fun scan_runs :: "nat \<Rightarrow> (nat \<times> nat) option \<Rightarrow> (nat \<times> nat) option \<Rightarrow> nat list \<Rightarrow> (nat \<times> nat) option" where
  "scan_runs i best cur [] = better best cur"
| "scan_runs i best cur (w # ws) =
     (if w = 0
      then scan_runs (i + 1) best (case cur of None \<Rightarrow> Some (i, 1) | Some (b, l) \<Rightarrow> Some (b, l + 1)) ws
      else scan_runs (i + 1) (better best cur) None ws)"

definition best_run :: "nat list \<Rightarrow> (nat \<times> nat) option" where
  "best_run ws =
     (case scan_runs 0 None None ws of
        Some (b, l) \<Rightarrow> if l < 2 then None else Some (b, l)
      | None \<Rightarrow> None)"

definition in_run :: "(nat \<times> nat) option \<Rightarrow> nat \<Rightarrow> bool" where
  "in_run best i = (case best of None \<Rightarrow> False | Some (b, l) \<Rightarrow> b \<le> i \<and> i < b + l)"

definition is_base :: "(nat \<times> nat) option \<Rightarrow> nat \<Rightarrow> bool" where
  "is_base best i = (case best of None \<Rightarrow> False | Some (b, l) \<Rightarrow> i = b)"

definition v4_tail :: "(nat \<times> nat) option \<Rightarrow> nat list \<Rightarrow> bool" where
  "v4_tail best ws = (best = Some (0, 6) \<or> best = Some (0, 5) \<and> ws ! 5 = 0xffff)"

text \<open>The formatting loop; \<open>n\<close> counts the turns left, \<open>out\<close> is \<^verbatim>\<open>tmp\<close> up to \<^verbatim>\<open>tp\<close>.\<close>

fun ntop6_loop :: "nat \<Rightarrow> nat \<Rightarrow> (nat \<times> nat) option \<Rightarrow> nat list \<Rightarrow> 8 word list \<Rightarrow> string \<Rightarrow> ntop_res" where
  "ntop6_loop 0 i best ws src out = Text out"
| "ntop6_loop (Suc n) i best ws src out =
     (if in_run best i
      then ntop6_loop n (i + 1) best ws src (if is_base best i then out @ '':'' else out)
      else
        (let out = (if i \<noteq> 0 then out @ '':'' else out) in
         if i = 6 \<and> v4_tail best ws
         then (case inet_ntop4 (drop 12 src) (46 - length out) of
                 Text t \<Rightarrow> Text (out @ t)
               | r \<Rightarrow> r)
         else ntop6_loop n (i + 1) best ws src (out @ fmt_hex (ws ! i))))"

definition inet_ntop6 :: "8 word list \<Rightarrow> nat \<Rightarrow> ntop_res" where
  "inet_ntop6 src sz =
     (let ws = ntop6_words src; best = best_run ws in
      case ntop6_loop 8 0 best ws src [] of
        Text out \<Rightarrow>
          (let out = (case best of Some (b, l) \<Rightarrow> if b + l = 8 then out @ '':'' else out | None \<Rightarrow> out) in
           if length out + 1 > sz then Enospc else Text out)
      | r \<Rightarrow> r)"

fun inet_ntop :: "family \<Rightarrow> 8 word list \<Rightarrow> nat \<Rightarrow> ntop_res" where
  "inet_ntop AF_INET src sz = inet_ntop4 src sz"
| "inet_ntop AF_INET6 src sz = inet_ntop6 src sz"
| "inet_ntop (AF_OTHER _) src sz = Eafnosupport"

section \<open>The older conversions\<close>

text \<open>
  \<^verbatim>\<open>inet_aton\<close> of \<^verbatim>\<open>inet_aton.c\<close>: accumulators of 64 bits; the \<^verbatim>\<open>do\<close> loop
  also handles the terminating null character.
\<close>

definition aton_store :: "int \<Rightarrow> 64 word \<Rightarrow> 64 word" where
  "aton_store dots addr = (if dots < 3 then push_bit (nat (8 * (3 - dots))) addr else addr)"

fun aton_loop :: "int \<Rightarrow> 64 word \<Rightarrow> 64 word \<Rightarrow> string \<Rightarrow> (int \<times> 64 word) option" where
  "aton_loop dots acc addr [] =
     (if acc > 255 then None else Some (dots, push_bit 8 addr OR acc))"
| "aton_loop dots acc addr (cc # cp) =
     (if isdigit cc then aton_loop dots (acc * 10 + of_nat (of_char cc - 48)) addr cp
      else if cc = CHR ''.''
      then (if dots + 1 > 3 then None
            else if acc > 255 then None
            else aton_loop (dots + 1) 0 (push_bit 8 addr OR acc) cp)
      else None)"

text \<open>The address in host order as the 32 bits \<^verbatim>\<open>htonl\<close> takes.\<close>

definition inet_aton :: "string \<Rightarrow> 32 word option" where
  "inet_aton cp =
     (case aton_loop 0 0 0 cp of
        None \<Rightarrow> None
      | Some (dots, addr) \<Rightarrow> Some (ucast (aton_store dots addr)))"

text \<open>The four bytes of \<^verbatim>\<open>htonl (a)\<close>.\<close>

definition net_bytes :: "32 word \<Rightarrow> 8 word list" where
  "net_bytes a = [ucast (drop_bit 24 a), ucast (drop_bit 16 a), ucast (drop_bit 8 a), ucast a]"

fun inet_pton_ipv4 :: "family \<Rightarrow> string \<Rightarrow> int \<times> 8 word list option" where
  "inet_pton_ipv4 AF_INET strptr =
     (case inet_aton strptr of Some a \<Rightarrow> (1, Some (net_bytes a)) | None \<Rightarrow> (0, None))"
| "inet_pton_ipv4 _ strptr = (-1, None)"

fun inet_ntop_ipv4 :: "family \<Rightarrow> 8 word list \<Rightarrow> nat \<Rightarrow> ntop_res" where
  "inet_ntop_ipv4 AF_INET p len =
     (let temp = fmt_quad p in if length temp \<ge> len then Enospc else Text temp)"
| "inet_ntop_ipv4 _ p len = Eafnosupport"

section \<open>The Internet checksum\<close>

text \<open>The words of the buffer as a little-endian machine reads them, an odd last byte filled up with zero.\<close>

fun le_words :: "8 word list \<Rightarrow> 16 word list" where
  "le_words (a # b # bs) = (ucast a OR push_bit 8 (ucast b)) # le_words bs"
| "le_words [a] = [ucast a]"
| "le_words [] = []"

definition cksum_fold :: "32 word \<Rightarrow> 16 word" where
  "cksum_fold acc =
     (let sum1 = drop_bit 16 acc + (acc AND 0xffff); sum2 = sum1 + drop_bit 16 sum1
      in NOT (ucast sum2))"

definition in_cksum :: "8 word list \<Rightarrow> 16 word" where
  "in_cksum addr = cksum_fold (foldl (\<lambda>acc w. acc + ucast w) 0 (le_words addr))"

end
