(* ===== verification/Inet_Props.thy ===== *)
theory Inet_Props
  imports Inet_Addr
begin

text \<open>
  What the address conversions promise: text that is written can be read back, for every
  IPv4 and every IPv6 address; the text fits the buffers; the run of zeros that is
  abbreviated is a longest one; and the checksum detects nothing but what it should.
\<close>

section \<open>Digits\<close>

text \<open>Facts about single characters, by running through them.\<close>

lemma strchr_pos_digits:
  "strchr_pos digits c = (if isdigit c then Some (of_char c - 48) else None)"
proof -
  have "\<forall>c. strchr_pos digits c = (if isdigit c then Some (of_char c - 48) else None)" by code_simp
  then show ?thesis ..
qed

lemma xdigit_nth: "n < 16 \<Longrightarrow> xdigit (xdigits_l ! n) = Some n"
proof -
  have "list_all (\<lambda>n. xdigit (xdigits_l ! n) = Some n) [0..<16]" by code_simp
  then show "n < 16 \<Longrightarrow> ?thesis" by (simp add: list_all_iff)
qed

lemma xdigit_digit: "isdigit c \<Longrightarrow> xdigit c = Some (of_char c - 48)"
proof -
  have "\<forall>c. isdigit c \<longrightarrow> xdigit c = Some (of_char c - 48)" by code_simp
  then show "isdigit c \<Longrightarrow> ?thesis" by blast
qed

lemma push_or: "d < 2 ^ n \<Longrightarrow> push_bit n v OR d = v * 2 ^ n + d" for v d :: nat
proof -
  assume d: "d < 2 ^ n"
  let ?x = "v * 2 ^ n + d"
  have "push_bit n (drop_bit n ?x) OR take_bit n ?x = ?x"
    by (auto simp: bit_eq_iff bit_simps)
  moreover have "drop_bit n ?x = v" "take_bit n ?x = d"
    using d by (simp_all add: drop_bit_eq_div take_bit_eq_mod)
  ultimately show ?thesis by simp
qed

lemma shift_or: "d < 16 \<Longrightarrow> push_bit 4 v OR d = v * 16 + d" for v d :: nat
  using push_or [of d 4 v] by simp

lemma hex_parse:
  assumes "w \<le> 0xffff"
  shows "pton6_loop tmp tp c cur saw 0 (fmt_hex w @ rest) = pton6_loop tmp tp c cur True w rest"
  using assms
proof (induction w arbitrary: rest saw rule: fmt_hex.induct)
  case (1 n)
  show ?case
  proof (cases "n < 16")
    case True
    then show ?thesis by (simp add: fmt_hex.simps [of n] xdigit_nth shift_or)
  next
    case False
    have v: "push_bit 4 (n div 16) OR (n mod 16) = n" by (simp add: shift_or)
    have "fmt_hex n = fmt_hex (n div 16) @ [xdigits_l ! (n mod 16)]"
      using False by (simp add: fmt_hex.simps [of n])
    then show ?thesis
      using 1 False v by (simp add: xdigit_nth)
  qed
qed

section \<open>Dotted quads\<close>

lemma digits_val_ge: "a \<le> digits_val a ds"
proof (induction ds arbitrary: a)
  case (Cons c ds)
  have "a \<le> 10 * a + (of_char c - 48)" by simp
  also have "\<dots> \<le> digits_val (10 * a + (of_char c - 48)) ds" by (rule Cons.IH)
  finally show ?case by simp
qed simp

text \<open>Digits are added to the current byte as long as its value stays below 256.\<close>

lemma pton4_digits:
  assumes "list_all isdigit ds" and "digits_val a ds \<le> 255"
  shows "pton4_loop True octets (tmp @ [of_nat a]) (ds @ rest) =
    pton4_loop True octets (tmp @ [of_nat (digits_val a ds)]) rest"
  using assms
proof (induction ds arbitrary: a)
  case Nil
  then show ?case by simp
next
  case (Cons c ds)
  let ?n = "10 * a + (of_char c - 48)"
  have n: "?n \<le> 255" using digits_val_ge [of ?n ds] Cons.prems(2) by simp
  then have "unat (of_nat a :: 8 word) = a" by (simp add: unat_of_nat take_bit_eq_mod)
  with n Cons.prems have "pton4_loop True octets (tmp @ [of_nat a]) ((c # ds) @ rest) =
      pton4_loop True octets (tmp @ [of_nat ?n]) (ds @ rest)"
    by (simp add: strchr_pos_digits mult.commute del: of_nat_add of_nat_mult)
  also have "\<dots> = pton4_loop True octets (tmp @ [of_nat (digits_val ?n ds)]) rest"
    using Cons.prems by (intro Cons.IH) simp_all
  finally show ?case by simp
qed

lemma pton4_dec:
  assumes "n \<le> 255" and "octets < 4"
  shows "pton4_loop False octets (tmp @ [0]) (dec n @ rest) =
    pton4_loop True (octets + 1) (tmp @ [of_nat n]) rest"
proof -
  obtain c ds where d: "dec n = c # ds" by (cases "dec n") simp_all
  have dig: "isdigit c" "list_all isdigit ds" using isdigit_dec [of _ n] d by (auto simp: list_all_iff)
  let ?a = "of_char c - 48 :: nat"
  have v: "digits_val ?a ds = n" using digits_val_dec [of n] d by simp
  then have a: "?a \<le> 255" using digits_val_ge [of ?a ds] assms(1) by simp
  have "pton4_loop False octets (tmp @ [0]) (dec n @ rest) =
      pton4_loop True (octets + 1) (tmp @ [of_nat ?a]) (ds @ rest)"
    using dig a assms(2) d by (simp add: strchr_pos_digits)
  also have "\<dots> = pton4_loop True (octets + 1) (tmp @ [of_nat n]) rest"
    using pton4_digits [OF dig(2), of ?a] v assms(1) by simp
  finally show ?thesis .
qed

lemma not_digit_dot [simp]: "strchr_pos digits CHR ''.'' = None"
  by (simp add: strchr_pos_digits isdigit_def)

lemma unat_byte: "unat (b :: 8 word) \<le> 255"
proof -
  have "unat b < 2 ^ LENGTH(8)" by (rule unsigned_less)
  then show ?thesis by simp
qed

lemma pton4_quad: "inet_pton4 (fmt_quad [a, b, c, d]) = Some [a, b, c, d]"
proof -
  have dot: "pton4_loop True k tmp (CHR ''.'' # rest) = pton4_loop False k (tmp @ [0]) rest" if "k < 4" for k tmp rest
    using that by simp
  have step: "pton4_loop False k (tmp @ [0]) (dec (unat x) @ rest) = pton4_loop True (Suc k) (tmp @ [x]) rest"
    if "k < 4" for k tmp rest and x :: "8 word"
    using pton4_dec [OF unat_byte that, of tmp x rest] by simp
  have "inet_pton4 (fmt_quad [a, b, c, d]) =
      pton4_loop False 0 ([] @ [0]) (dec (unat a) @ CHR ''.'' # dec (unat b) @ CHR ''.'' # dec (unat c) @ CHR ''.'' # dec (unat d) @ [])"
    by (simp add: inet_pton4_def fmt_quad_def)
  also have "\<dots> = Some [a, b, c, d]"
    using step [of 0 "[]"] step [of 1 "[a]"] step [of 2 "[a, b]"] step [of 3 "[a, b, c]" d "[]"]
    by (simp add: dot numeral_eq_Suc del: pton4_loop.simps(2))
  finally show ?thesis .
qed

section \<open>Reading the pieces of an IPv6 address\<close>

text \<open>The array with the bytes \<open>out\<close> written and zeros behind them.\<close>

definition img :: "8 word list \<Rightarrow> 8 word list" where
  "img out = out @ replicate (16 - length out) 0"

definition word_bytes :: "nat list \<Rightarrow> 8 word list" where
  "word_bytes ws = concat (map (\<lambda>w. [of_nat (w div 256), of_nat w]) ws)"

lemma word_bytes_simps [simp]:
  "word_bytes [] = []" "word_bytes (w # ws) = of_nat (w div 256) # of_nat w # word_bytes ws"
  "word_bytes (us @ vs) = word_bytes us @ word_bytes vs"
  by (simp_all add: word_bytes_def)

lemma length_word_bytes [simp]: "length (word_bytes ws) = 2 * length ws"
  by (induction ws) simp_all

lemma of_nat_low_byte: "of_nat (n AND 255) = (of_nat n :: 8 word)" for n :: nat
proof -
  have "n AND 255 = take_bit 8 n" by (simp add: take_bit_eq_mask mask_eq_exp_minus_1)
  then have "of_nat (n AND 255) = (of_nat (take_bit 8 n) :: 8 word)" by simp
  also have "\<dots> = of_nat n" by (simp add: word_of_nat_eq_iff)
  finally show ?thesis .
qed

lemma put16_img:
  assumes "length out + 2 \<le> 16"
  shows "put16 (img out) (length out) w = img (out @ [of_nat (w div 256), of_nat w])"
proof -
  obtain k where k: "16 - length out = Suc (Suc k)" using assms by (metis add_2_eq_Suc' diff_diff_cancel diff_is_0_eq' le_add_diff_inverse2 add.commute add_leD2 le_Suc_ex ordered_cancel_comm_monoid_diff_class.le_diff_conv2)
  then have "16 - length (out @ [of_nat (w div 256), of_nat w :: 8 word]) = k" by simp
  then show ?thesis
    using k by (simp add: put16_def img_def of_nat_low_byte drop_bit_eq_div list_update_append)
qed

lemma img_put_bytes:
  assumes "length out + length bs \<le> 16"
  shows "put_bytes (img out) (length out) bs = img (out @ bs)"
  using assms by (simp add: put_bytes_def img_def)

lemma colon_not_xdigit [simp]: "xdigit CHR '':'' = None" "xdigit CHR ''.'' = None"
  by (simp_all add: xdigit_def strchr_pos_def xdigits_l_def xdigits_u_def)

text \<open>Words in front of colons, and words behind colons.\<close>

definition sepr :: "nat list \<Rightarrow> string" where
  "sepr ws = concat (map (\<lambda>w. fmt_hex w @ '':'') ws)"

definition sepl :: "nat list \<Rightarrow> string" where
  "sepl ws = concat (map (\<lambda>w. CHR '':'' # fmt_hex w) ws)"

lemma sep_simps [simp]:
  "sepr [] = []" "sepr (w # ws) = fmt_hex w @ CHR '':'' # sepr ws" "sepr (us @ vs) = sepr us @ sepr vs"
  "sepl [] = []" "sepl (w # ws) = CHR '':'' # fmt_hex w @ sepl ws" "sepl (us @ vs) = sepl us @ sepl vs"
  by (simp_all add: sepr_def sepl_def)

lemma sepl_sepr: "sepl ws @ '':'' = CHR '':'' # sepr ws"
  by (induction ws) simp_all

lemma parse_sepr:
  assumes "list_all (\<lambda>w. w \<le> 0xffff) ws" and "length out + 2 * length ws \<le> 16"
  shows "pton6_loop (img out) (length out) c cur False 0 (sepr ws @ rest) =
    pton6_loop (img (out @ word_bytes ws)) (length out + 2 * length ws) c
      (if ws = [] then cur else rest) False 0 rest"
  using assms
proof (induction ws arbitrary: out cur)
  case Nil
  then show ?case by simp
next
  case (Cons w ws)
  let ?out = "out @ [of_nat (w div 256), of_nat w]"
  have "pton6_loop (img out) (length out) c cur False 0 (sepr (w # ws) @ rest) =
      pton6_loop (img ?out) (length ?out) c (sepr ws @ rest) False 0 (sepr ws @ rest)"
    using Cons.prems by (simp add: hex_parse put16_img)
  also have "\<dots> = pton6_loop (img (?out @ word_bytes ws)) (length ?out + 2 * length ws) c
      (if ws = [] then sepr ws @ rest else rest) False 0 rest"
    using Cons.prems by (intro Cons.IH) simp_all
  finally show ?case by (cases "ws = []") simp_all
qed

section \<open>The shift\<close>

lemma shift_step:
  fixes x :: "8 word"
  assumes "length xs + g + length ys + 1 = 16" and "0 < g"
  shows "((xs @ x # replicate g 0 @ ys)[15 - length ys := x])[length xs := 0] =
    xs @ replicate g 0 @ x # ys"
proof -
  obtain g' where g: "g = Suc g'" using assms(2) by (cases g) simp_all
  have t: "xs @ x # replicate g 0 @ ys = (xs @ x # replicate g' 0) @ 0 # ys"
    using g by (simp add: replicate_app_Cons_same)
  have l: "15 - length ys = length (xs @ x # replicate g' 0)" using assms(1) g by simp
  have "(xs @ x # replicate g 0 @ ys)[15 - length ys := x] = xs @ x # (replicate g' 0 @ x # ys)"
    unfolding t l list_update_length by simp
  then show ?thesis
    using g by (simp add: list_update_append replicate_app_Cons_same)
qed

lemma pton6_shift_run:
  assumes "k \<le> length out" and "length out + g = 16" and "0 < g" and "n = length out - c" and "c \<le> length out"
    and "j \<le> length out - c" and "k = n - j"
  shows "pton6_shift k (j + 1) n c (take (length out - j) out @ replicate g 0 @ drop (length out - j) out) =
    take c out @ replicate g 0 @ drop c out"
  using assms
proof (induction k arbitrary: j)
  case 0
  then have "length out - j = c" by simp
  then show ?case by simp
next
  case (Suc k)
  let ?p = "length out - j - 1"
  have p: "?p < length out" "length out - j = Suc ?p" using Suc.prems by simp_all
  have split: "take (length out - j) out = take ?p out @ [out ! ?p]" using p by (simp add: take_Suc_conv_app_nth)
  let ?t = "take (length out - j) out @ replicate g 0 @ drop (length out - j) out"
  have src: "c + (n - (j + 1)) = ?p" using Suc.prems by simp
  have get: "?t ! ?p = out ! ?p" unfolding split using p by (simp add: nth_append)
  have dest: "16 - (j + 1) = 15 - length (drop (length out - j) out)" using Suc.prems by simp
  have "(?t[16 - (j + 1) := ?t ! ?p])[?p := 0] =
      take ?p out @ replicate g 0 @ out ! ?p # drop (length out - j) out"
    unfolding get unfolding dest unfolding split
    using shift_step [of "take ?p out" g "drop (length out - j) out" "out ! ?p"] Suc.prems p by simp
  also have "out ! ?p # drop (length out - j) out = drop ?p out"
    using p by (metis Cons_nth_drop_Suc)
  finally have st: "(?t[16 - (j + 1) := ?t ! ?p])[?p := 0] = take ?p out @ replicate g 0 @ drop ?p out" .
  have "pton6_shift (Suc k) (j + 1) n c ?t = pton6_shift k (Suc j + 1) n c (take (length out - Suc j) out @ replicate g 0 @ drop (length out - Suc j) out)"
    using st src by simp
  also have "\<dots> = take c out @ replicate g 0 @ drop c out"
    using Suc.prems by (intro Suc.IH) simp_all
  finally show ?case .
qed

lemma pton6_shift_img:
  assumes "length out < 16" and "c \<le> length out"
  shows "pton6_shift (length out - c) 1 (length out - c) c (img out) =
    take c out @ replicate (16 - length out) 0 @ drop c out"
  using pton6_shift_run [of "length out - c" out "16 - length out" "length out - c" c 0] assms
  by (simp add: img_def)

section \<open>Reading whole addresses\<close>

text \<open>What \<^verbatim>\<open>inet_pton6\<close> does behind its loop.\<close>

definition pton6_fin :: "(8 word list \<times> nat \<times> nat option \<times> bool \<times> nat) option \<Rightarrow> 8 word list option" where
  "pton6_fin r =
     (case r of
        None \<Rightarrow> None
      | Some (tmp, tp, colonp, saw_xdigit, val) \<Rightarrow>
         (if saw_xdigit \<and> tp + 2 > 16 then None
          else
            (let (tmp, tp) = (if saw_xdigit then (put16 tmp tp val, tp + 2) else (tmp, tp));
                 (tmp, tp) = (case colonp of
                    None \<Rightarrow> (tmp, tp)
                  | Some c \<Rightarrow> (pton6_shift (tp - c) 1 (tp - c) c tmp, 16))
             in if tp \<noteq> 16 then None else Some tmp)))"

definition pton6_end :: "nat option \<Rightarrow> 8 word list \<Rightarrow> 8 word list option" where
  "pton6_end c out =
     (case c of
        None \<Rightarrow> if length out = 16 then Some out else None
      | Some k \<Rightarrow> Some (pton6_shift (length out - k) 1 (length out - k) k (img out)))"

lemma img_Nil: "img [] = replicate 16 0"
  by (simp add: img_def)

lemma pton6_start:
  "hd t \<noteq> CHR '':'' \<Longrightarrow> inet_pton6 t = pton6_fin (pton6_loop (img []) 0 None t False 0 t)"
  "inet_pton6 (CHR '':'' # CHR '':'' # u) =
     pton6_fin (pton6_loop (img []) 0 None (CHR '':'' # u) False 0 (CHR '':'' # u))"
  by (cases t) (simp_all add: inet_pton6_def pton6_fin_def img_Nil)

lemma pton6_fin_end:
  "length out \<le> 16 \<Longrightarrow> pton6_fin (Some (img out, length out, c, False, v)) = pton6_end c out"
  "length out + 2 \<le> 16 \<Longrightarrow>
   pton6_fin (Some (img out, length out, c, True, v)) = pton6_end c (out @ [of_nat (v div 256), of_nat v])"
proof -
  have full: "length out = 16 \<Longrightarrow> img out = out" for out by (simp add: img_def)
  show "length out \<le> 16 \<Longrightarrow> pton6_fin (Some (img out, length out, c, False, v)) = pton6_end c out"
    by (cases c) (simp_all add: pton6_fin_def pton6_end_def full)
  show "pton6_fin (Some (img out, length out, c, True, v)) = pton6_end c (out @ [of_nat (v div 256), of_nat v])"
    if "length out + 2 \<le> 16"
    using that full [of "out @ [of_nat (v div 256), of_nat v]"]
    by (cases c) (simp_all add: pton6_fin_def pton6_end_def put16_img)
qed

definition join :: "nat list \<Rightarrow> string" where
  "join ws = (case ws of [] \<Rightarrow> [] | w # us \<Rightarrow> fmt_hex w @ sepl us)"

lemma join_snoc: "join (ws @ [w]) = sepr ws @ fmt_hex w"
proof (cases ws)
  case (Cons v us)
  have "sepl us @ CHR '':'' # fmt_hex w = CHR '':'' # sepr us @ fmt_hex w"
    using arg_cong [OF sepl_sepr [of us], of "\<lambda>t. t @ fmt_hex w"] by simp
  then show ?thesis using Cons by (simp add: join_def)
qed (simp add: join_def)

lemma parse_join:
  assumes "list_all (\<lambda>w. w \<le> 0xffff) ws" and "length out + 2 * length ws \<le> 16"
  shows "pton6_fin (pton6_loop (img out) (length out) c cur False 0 (join ws)) = pton6_end c (out @ word_bytes ws)"
proof (cases ws rule: rev_cases)
  case Nil
  then show ?thesis using assms(2) by (simp add: join_def pton6_fin_end)
next
  case (snoc us w)
  have us: "list_all (\<lambda>w. w \<le> 0xffff) us" "w \<le> 0xffff" "length out + 2 * length us + 2 \<le> 16"
    using assms snoc by simp_all
  let ?out = "out @ word_bytes us"
  have "pton6_loop (img out) (length out) c cur False 0 (join ws) =
      pton6_loop (img ?out) (length ?out) c (if us = [] then cur else fmt_hex w) False 0 (fmt_hex w)"
    using parse_sepr [OF us(1), of out c cur "fmt_hex w"] us(3) snoc by (simp add: join_snoc)
  also have "\<dots> = Some (img ?out, length ?out, c, True, w)"
    using hex_parse [OF us(2), of _ _ _ _ _ "[]"] by simp
  finally show ?thesis using us(3) snoc pton6_fin_end(2) [of ?out c w] by simp
qed

lemma hd_fmt_hex: "hd (fmt_hex w @ t) \<noteq> CHR '':''"
proof -
  have "list_all (\<lambda>c. c \<noteq> CHR '':'') xdigits_l" by (simp add: xdigits_l_def)
  then have "xdigits_l ! n \<noteq> CHR '':''" if "n < 16" for n
    using that by (simp add: list_all_length xdigits_l_def)
  then show ?thesis
    by (induction w arbitrary: t rule: fmt_hex.induct) (subst fmt_hex.simps, auto)
qed

text \<open>The three shapes of text \<^verbatim>\<open>inet_ntop6\<close> writes.\<close>

lemma pton6_full:
  assumes "list_all (\<lambda>w. w \<le> 0xffff) ws" and "length ws = 8"
  shows "inet_pton6 (join ws) = Some (word_bytes ws)"
proof -
  have "hd (join ws) \<noteq> CHR '':''" using assms(2) hd_fmt_hex by (cases ws) (simp_all add: join_def)
  then show ?thesis
    using parse_join [OF assms(1), of "[]" None] assms(2) by (simp add: pton6_start pton6_end_def)
qed

definition compressed :: "nat list \<Rightarrow> nat list \<Rightarrow> string" where
  "compressed pre post = (if pre = [] then CHR '':'' # CHR '':'' # join post else sepr pre @ CHR '':'' # join post)"

lemma pton6_end_shift:
  "length out < 16 \<Longrightarrow> k \<le> length out \<Longrightarrow>
   pton6_end (Some k) out = Some (take k out @ replicate (16 - length out) 0 @ drop k out)"
  using pton6_shift_img [of out k] by (simp add: pton6_end_def)

lemma pton6_compressed:
  assumes "list_all (\<lambda>w. w \<le> 0xffff) pre" "list_all (\<lambda>w. w \<le> 0xffff) post" and "length pre + length post < 8"
  shows "inet_pton6 (compressed pre post) =
    Some (word_bytes pre @ replicate (16 - 2 * (length pre + length post)) 0 @ word_bytes post)"
proof -
  let ?out = "word_bytes pre"
  have "inet_pton6 (compressed pre post) =
      pton6_fin (pton6_loop (img []) 0 None (sepr pre @ CHR '':'' # join post) False 0 (sepr pre @ CHR '':'' # join post))"
    using hd_fmt_hex by (cases pre) (simp_all add: compressed_def pton6_start)
  also have "pton6_loop (img []) 0 None (sepr pre @ CHR '':'' # join post) False 0 (sepr pre @ CHR '':'' # join post) =
      pton6_loop (img ?out) (length ?out) (Some (length ?out)) (join post) False 0 (join post)"
    using parse_sepr [OF assms(1), of "[]"] assms(3) by simp
  also have "pton6_fin \<dots> = pton6_end (Some (length ?out)) (?out @ word_bytes post)"
    using assms by (intro parse_join) simp_all
  finally show ?thesis using assms(3) by (simp add: pton6_end_shift)
qed

lemma pton6_some_digits:
  assumes "list_all isdigit ds" and "v < 16 ^ k" and "k + length ds \<le> 4"
  shows "\<exists>b v'. pton6_loop tmp tp c cur saw v (ds @ rest) = pton6_loop tmp tp c cur b v' rest"
  using assms
proof (induction ds arbitrary: v k saw)
  case Nil
  then show ?case by auto
next
  case (Cons x ds)
  let ?d = "of_char x - 48 :: nat"
  have d: "?d < 16" using Cons.prems(1) by (auto simp: isdigit_def)
  have "v * 16 + ?d < 16 ^ Suc k" using Cons.prems(2) d by simp
  moreover have "(16::nat) ^ Suc k \<le> 16 ^ 4" using Cons.prems(3) by (intro power_increasing) simp_all
  ultimately have "v * 16 + ?d \<le> 0xffff" "v * 16 + ?d < 16 ^ Suc k" by simp_all
  moreover have "Suc k + length ds \<le> 4" "list_all isdigit ds" using Cons.prems by simp_all
  ultimately show ?case
    using Cons.IH [of "v * 16 + ?d" "Suc k" True] Cons.prems(1) d by (simp add: xdigit_digit shift_or)
qed

lemma parse_quad:
  assumes "length out + 4 \<le> 16" and "length q = 4"
  shows "pton6_fin (pton6_loop (img out) (length out) c (fmt_quad q) False 0 (fmt_quad q)) = pton6_end c (out @ q)"
proof -
  obtain q0 q1 q2 q3 where q: "q = [q0, q1, q2, q3]" using assms(2) by (auto simp: numeral_eq_Suc length_Suc_conv)
  let ?n = "unat q0" and ?cur = "fmt_quad q"
  obtain rest where t: "fmt_quad q = dec ?n @ CHR ''.'' # rest" using q by (simp add: fmt_quad_def)
  have "list_all isdigit (dec ?n)" "length (dec ?n) \<le> 3"
    using isdigit_dec length_dec_le [of ?n 2] unat_byte [of q0] by (auto simp: list_all_iff)
  then obtain b v' where "pton6_loop (img out) (length out) c ?cur False 0 (dec ?n @ CHR ''.'' # rest) =
      pton6_loop (img out) (length out) c ?cur b v' (CHR ''.'' # rest)"
    using pton6_some_digits [of "dec ?n" 0 0] by fastforce
  then have "pton6_loop (img out) (length out) c ?cur False 0 (fmt_quad q) =
      Some (img (out @ q), length out + 4, c, False, v')"
    using assms pton4_quad [of q0 q1 q2 q3] q t img_put_bytes [of out q] by simp
  then show ?thesis using pton6_fin_end(1) [of "out @ q" c v'] assms by simp
qed

lemma pton6_v4:
  assumes "list_all (\<lambda>w. w \<le> 0xffff) pre" "length pre < 6" and "length q = 4"
  shows "inet_pton6 (CHR '':'' # CHR '':'' # sepr pre @ fmt_quad q) =
    Some (replicate (12 - 2 * length pre) 0 @ word_bytes pre @ q)"
proof -
  let ?out = "word_bytes pre"
  have "pton6_loop (img []) 0 None (CHR '':'' # sepr pre @ fmt_quad q) False 0 (CHR '':'' # sepr pre @ fmt_quad q) =
      pton6_loop (img ?out) (length ?out) (Some 0) (fmt_quad q) False 0 (fmt_quad q)"
    using parse_sepr [OF assms(1), of "[]" "Some 0" "sepr pre @ fmt_quad q" "fmt_quad q"] assms(2) by (cases pre) simp_all
  then have "inet_pton6 (CHR '':'' # CHR '':'' # sepr pre @ fmt_quad q) = pton6_end (Some 0) (?out @ q)"
    using parse_quad [of ?out q "Some 0"] assms by (simp add: pton6_start)
  then show ?thesis using assms by (simp add: pton6_end_shift)
qed

section \<open>Writing\<close>

lemma ntop6_words_bytes:
  assumes "length src = 16"
  shows "word_bytes (ntop6_words src) = src" and "list_all (\<lambda>w. w \<le> 0xffff) (ntop6_words src)"
    and "length (ntop6_words src) = 8" and "drop 12 src = word_bytes (drop 6 (ntop6_words src))"
proof -
  obtain a b c d e f g h i j k l m n p q where src: "src = [a, b, c, d, e, f, g, h, i, j, k, l, m, n, p, q]"
    using assms by (auto simp: numeral_eq_Suc length_Suc_conv)
  have rep: "replicate 8 (0::nat) = [0, 0, 0, 0, 0, 0, 0, 0]" by (simp add: numeral_eq_Suc)
  have or256: "unat x * 256 OR unat y = unat x * 256 + unat y" for x y :: "8 word"
    using push_or [of "unat y" 8 "unat x"] unat_byte [of y] by (simp add: push_bit_eq_mult)
  have w: "ntop6_words src = map (\<lambda>(x, y). unat x * 256 + unat y)
      [(a, b), (c, d), (e, f), (g, h), (i, j), (k, l), (m, n), (p, q)]"
    unfolding src ntop6_words_def rep by (simp add: upt_rec push_bit_eq_mult or256)
  have byte: "of_nat ((unat x * 256 + unat y) div 256) = x" "of_nat (unat x * 256 + unat y) = y" for x y :: "8 word"
  proof -
    have "(unat x * 256 + unat y) div 256 = unat x" using unat_byte [of y] by simp
    then show "of_nat ((unat x * 256 + unat y) div 256) = x" by simp
    have "take_bit 8 (unat x * 256 + unat y) = take_bit 8 (unat y)" by (simp add: take_bit_eq_mod)
    then have "of_nat (unat x * 256 + unat y) = (of_nat (unat y) :: 8 word)" by (simp only: word_of_nat_eq_iff) simp
    then show "of_nat (unat x * 256 + unat y) = y" by simp
  qed
  have small: "unat x div 256 = 0" for x :: "8 word" using unat_byte [of x] by simp
  show "word_bytes (ntop6_words src) = src" unfolding w unfolding src by (simp add: byte small del: of_nat_add of_nat_mult)
  show "drop 12 src = word_bytes (drop 6 (ntop6_words src))"
    unfolding w unfolding src by (simp add: byte small del: of_nat_add of_nat_mult)
  have "unat x * 256 + unat y \<le> 0xffff" for x y :: "8 word" using unat_byte [of x] unat_byte [of y] by simp
  then show "list_all (\<lambda>w. w \<le> 0xffff) (ntop6_words src)" unfolding w by simp
  show "length (ntop6_words src) = 8" unfolding w by simp
qed

subsection \<open>The run of zeros\<close>

definition zrun :: "nat list \<Rightarrow> nat \<Rightarrow> nat \<Rightarrow> bool" where
  "zrun ws b l \<longleftrightarrow> 0 < l \<and> b + l \<le> length ws \<and> (\<forall>i. b \<le> i \<longrightarrow> i < b + l \<longrightarrow> ws ! i = 0)"

text \<open>\<open>r\<close> is the longest and first run of zeros that ends at \<open>n\<close> or before.\<close>

definition dominates :: "nat list \<Rightarrow> nat \<Rightarrow> (nat \<times> nat) option \<Rightarrow> bool" where
  "dominates ws n r \<longleftrightarrow>
     (\<forall>b' l'. zrun ws b' l' \<and> b' + l' \<le> n \<longrightarrow> (\<exists>b l. r = Some (b, l) \<and> (l' < l \<or> l' = l \<and> b \<le> b'))) \<and>
     (\<forall>b l. r = Some (b, l) \<longrightarrow> zrun ws b l \<and> b + l \<le> n)"

definition cur_ok :: "nat list \<Rightarrow> nat \<Rightarrow> (nat \<times> nat) option \<Rightarrow> bool" where
  "cur_ok ws i cur \<longleftrightarrow>
     (case cur of
        None \<Rightarrow> i = 0 \<or> ws ! (i - 1) \<noteq> 0
      | Some (b, l) \<Rightarrow> b + l = i \<and> zrun ws b l \<and> (b = 0 \<or> ws ! (b - 1) \<noteq> 0))"

definition cur_start :: "nat \<Rightarrow> (nat \<times> nat) option \<Rightarrow> nat" where
  "cur_start i cur = (case cur of None \<Rightarrow> i | Some (b, l) \<Rightarrow> b)"

lemma dominates_better:
  assumes d: "dominates ws (cur_start i cur) best" and c: "cur_ok ws i cur"
  shows "dominates ws i (better best cur)"
proof (cases cur)
  case None
  then show ?thesis using d by (simp add: better_def cur_start_def)
next
  case (Some p)
  then obtain b l where cur: "cur = Some (b, l)" by (cases p) simp
  have bl: "b + l = i" "zrun ws b l" "b = 0 \<or> ws ! (b - 1) \<noteq> 0" using c cur by (simp_all add: cur_ok_def)
  have inside: "l' \<le> l \<and> b \<le> b' \<and> (l' = l \<longrightarrow> b' = b)"
    if r: "zrun ws b' l'" "b' + l' \<le> i" "\<not> b' + l' \<le> b" for b' l'
  proof -
    have "b \<le> b'"
    proof (rule ccontr)
      assume "\<not> b \<le> b'"
      then have "ws ! (b - 1) = 0" "b \<noteq> 0" using r(1,3) unfolding zrun_def by auto
      then show False using bl(3) by simp
    qed
    then show ?thesis using r(2) bl(1) by auto
  qed
  show ?thesis
  proof (cases best)
    case None
    have "\<And>b' l'. zrun ws b' l' \<Longrightarrow> b' + l' \<le> i \<Longrightarrow> l' < l \<or> l' = l \<and> b \<le> b'"
      using inside d None cur by (fastforce simp: dominates_def cur_start_def)
    then show ?thesis using None cur bl by (simp add: dominates_def better_def)
  next
    case (Some q)
    then obtain bb bl' where best: "best = Some (bb, bl')" by (cases q) simp
    have db: "zrun ws bb bl'" "bb + bl' \<le> b"
      "\<And>b' l'. zrun ws b' l' \<Longrightarrow> b' + l' \<le> b \<Longrightarrow> l' < bl' \<or> l' = bl' \<and> bb \<le> b'"
      using d best cur by (auto simp: dominates_def cur_start_def)
    have all: "l' < bl' \<or> l' = bl' \<and> bb \<le> b' \<or> l' \<le> l \<and> b \<le> b' \<and> (l' = l \<longrightarrow> b' = b)"
      if "zrun ws b' l'" "b' + l' \<le> i" for b' l'
      using db(3) [OF that(1)] inside [OF that] by blast
    show ?thesis
    proof (cases "l > bl'")
      case True
      have "l' < l \<or> l' = l \<and> b \<le> b'" if "zrun ws b' l'" "b' + l' \<le> i" for b' l'
        using all [OF that] True by auto
      then show ?thesis using best cur bl True by (simp add: dominates_def better_def)
    next
      case False
      have "l' < bl' \<or> l' = bl' \<and> bb \<le> b'" if "zrun ws b' l'" "b' + l' \<le> i" for b' l'
        using all [OF that] False db(2) by auto
      then show ?thesis using best cur bl db False by (simp add: dominates_def better_def)
    qed
  qed
qed

lemma scan_runs_dominates:
  assumes "ws = ps @ qs" and "i = length ps" and "dominates ws (cur_start i cur) best" and "cur_ok ws i cur"
  shows "dominates ws (length ws) (scan_runs i best cur qs)"
  using assms
proof (induction qs arbitrary: ps i best cur)
  case Nil
  then show ?case using dominates_better [of ws i cur best] by simp
next
  case (Cons w qs)
  have wi: "ws ! i = w" "i < length ws" using Cons.prems(1,2) by simp_all
  have next': "ws = (ps @ [w]) @ qs" "i + 1 = length (ps @ [w])" using Cons.prems(1,2) by simp_all
  show ?case
  proof (cases "w = 0")
    case True
    let ?cur = "case cur of None \<Rightarrow> Some (i, 1) | Some (b, l) \<Rightarrow> Some (b, l + 1)"
    have "cur_ok ws (i + 1) ?cur" and st: "cur_start (i + 1) ?cur = cur_start i cur"
      using Cons.prems(4) wi True
      by (auto simp: cur_ok_def cur_start_def zrun_def less_Suc_eq split: option.splits)
    then show ?thesis using Cons.IH [OF next', of ?cur best] Cons.prems(3) True by simp
  next
    case False
    have ends: "b' + l' \<le> i" if "zrun ws b' l'" "b' + l' \<le> i + 1" for b' l'
    proof (rule ccontr)
      assume "\<not> b' + l' \<le> i"
      then have "b' \<le> i" "i < b' + l'" using that by (simp_all add: zrun_def)
      then show False using that(1) wi False by (simp add: zrun_def)
    qed
    have "dominates ws i (better best cur)" using Cons.prems(3,4) by (rule dominates_better)
    then have "dominates ws (i + 1) (better best cur)"
      using ends unfolding dominates_def by (metis trans_le_add1)
    then show ?thesis
      using Cons.IH [OF next', of None "better best cur"] wi False by (simp add: cur_ok_def cur_start_def)
  qed
qed

lemma best_run_longest:
  "case best_run ws of
     Some (b, l) \<Rightarrow> zrun ws b l \<and> 2 \<le> l \<and> (\<forall>b' l'. zrun ws b' l' \<longrightarrow> l' < l \<or> l' = l \<and> b \<le> b')
   | None \<Rightarrow> \<forall>b' l'. zrun ws b' l' \<longrightarrow> l' < 2"
proof -
  have "dominates ws (length ws) (scan_runs 0 None None ws)"
    by (rule scan_runs_dominates [of ws "[]"]) (auto simp: dominates_def zrun_def cur_start_def cur_ok_def)
  moreover have "zrun ws b' l' \<Longrightarrow> b' + l' \<le> length ws" for b' l' by (simp add: zrun_def)
  ultimately show ?thesis
    unfolding best_run_def dominates_def by (fastforce split: option.splits)
qed

subsection \<open>The text\<close>

lemma sepl_drop:
  "i < length ws \<Longrightarrow> sepl (drop i ws) = CHR '':'' # fmt_hex (ws ! i) @ sepl (drop (Suc i) ws)"
  by (simp flip: Cons_nth_drop_Suc)

lemma loop_rest:
  assumes "i + n = length ws" and "0 < i" and "\<And>j. i \<le> j \<Longrightarrow> \<not> in_run best j" and "\<not> v4_tail best ws"
  shows "ntop6_loop n i best ws src out = Text (out @ sepl (drop i ws))"
  using assms
proof (induction n arbitrary: i out)
  case 0
  then show ?case by simp
next
  case (Suc n)
  then show ?case using sepl_drop [of i ws] by (simp add: Let_def)
qed

lemma loop_pre:
  assumes "\<And>j. j < i + k \<Longrightarrow> \<not> in_run best j" and "\<not> v4_tail best ws" and "i + k \<le> length ws"
  shows "ntop6_loop (k + n) i best ws src (join (take i ws)) = ntop6_loop n (i + k) best ws src (join (take (i + k) ws))"
  using assms
proof (induction k arbitrary: i)
  case 0
  then show ?case by simp
next
  case (Suc k)
  have j: "(if i \<noteq> 0 then join (take i ws) @ '':'' else join (take i ws)) @ fmt_hex (ws ! i) = join (take (Suc i) ws)"
    using Suc.prems(3) by (cases ws; cases i) (simp_all add: take_Suc_conv_app_nth join_def)
  show ?case
    using Suc.IH [of "Suc i"] Suc.prems j by (simp add: Let_def)
qed

lemma loop_run:
  assumes "best = Some (b, l)" and "b \<le> i" and "i + k = b + l"
  shows "ntop6_loop (k + n) i best ws src out = ntop6_loop n (b + l) best ws src (if i = b \<and> 0 < k then out @ '':'' else out)"
  using assms
proof (induction k arbitrary: i out)
  case 0
  then show ?case by simp
next
  case (Suc k)
  have r: "in_run best i" "is_base best i = (i = b)" using Suc.prems by (auto simp: in_run_def is_base_def)
  show ?case using Suc.IH [of "Suc i" "if i = b then out @ '':'' else out"] Suc.prems r by simp
qed

lemma join_colon: "pre \<noteq> [] \<Longrightarrow> join pre @ CHR '':'' # t = sepr pre @ t"
  by (cases pre rule: rev_cases) (simp_all add: join_snoc)

lemma sepl_join: "ws \<noteq> [] \<Longrightarrow> sepl ws = CHR '':'' # join ws"
  by (cases ws) (simp_all add: join_def)

text \<open>The text of an address, by the shape of its run of zeros.\<close>

definition ntop6_text :: "8 word list \<Rightarrow> string" where
  "ntop6_text src =
     (let ws = ntop6_words src in
      case best_run ws of
        None \<Rightarrow> join ws
      | Some (b, l) \<Rightarrow>
          if v4_tail (Some (b, l)) ws
          then CHR '':'' # CHR '':'' # sepr (if l = 5 then [0xffff] else []) @ fmt_quad (drop 12 src)
          else compressed (take b ws) (drop (b + l) ws))"

lemma length_dec_byte: "length (dec (unat b)) \<le> 3" for b :: "8 word"
  using length_dec_le [of "unat b" 2] unat_byte [of b] by simp

lemma length_fmt_quad: "length (fmt_quad q) \<le> 15"
  using length_dec_byte [of "q ! 0"] length_dec_byte [of "q ! 1"] length_dec_byte [of "q ! 2"] length_dec_byte [of "q ! 3"]
  by (simp add: fmt_quad_def)

lemma ntop6_loop_v4:
  assumes "best = Some (0, l)" and "v4_tail best ws" and "length ws = 8"
  shows "ntop6_loop 8 0 best ws src [] =
    Text (CHR '':'' # CHR '':'' # sepr (if l = 5 then [0xffff] else []) @ fmt_quad (drop 12 src))"
proof -
  have q: "inet_ntop4 (drop 12 src) (46 - n) = Text (fmt_quad (drop 12 src))" if "n \<le> 30" for n
    using length_fmt_quad [of "drop 12 src"] that by (simp add: inet_ntop4_def Let_def)
  have hex: "fmt_hex 65535 = ''ffff''" by (simp add: fmt_hex.simps xdigits_l_def)
  consider "l = 6" | "l = 5" "ws ! 5 = 0xffff" using assms(1,2) by (auto simp: v4_tail_def)
  then show ?thesis
  proof cases
    case 1
    have "ntop6_loop (6 + Suc 1) 0 best ws src [] = ntop6_loop (Suc 1) 6 best ws src '':''"
      using loop_run [OF assms(1), of 0 6 "Suc 1"] 1 by simp
    also have "\<dots> = Text (CHR '':'' # CHR '':'' # fmt_quad (drop 12 src))"
      using assms 1 q [of 2] by (simp add: in_run_def Let_def)
    finally show ?thesis using 1 by simp
  next
    case 2
    have "ntop6_loop (5 + Suc (Suc 1)) 0 best ws src [] = ntop6_loop (Suc (Suc 1)) 5 best ws src '':''"
      using loop_run [OF assms(1), of 0 5 "Suc (Suc 1)"] 2 by simp
    also have "\<dots> = ntop6_loop (Suc 1) 6 best ws src (CHR '':'' # CHR '':'' # ''ffff'')"
      using assms 2 hex q [of 7] by (simp add: in_run_def Let_def)
    also have "\<dots> = Text (CHR '':'' # CHR '':'' # ''ffff:'' @ fmt_quad (drop 12 src))"
      using assms 2 q [of 7] by (simp add: in_run_def Let_def)
    finally show ?thesis using 2 hex by simp
  qed
qed

lemma inet_ntop6_text:
  assumes "length src = 16"
  shows "inet_ntop6 src sz = (if length (ntop6_text src) + 1 > sz then Enospc else Text (ntop6_text src))"
proof -
  define ws where ws: "ws = ntop6_words src"
  define best where best: "best = best_run ws"
  have len: "length ws = 8" using ntop6_words_bytes(3) [OF assms] ws by simp
  show ?thesis
  proof (cases best)
    case None
    have nr: "\<And>j. \<not> in_run best j" "\<not> v4_tail best ws" using None by (simp_all add: in_run_def v4_tail_def)
    have "ntop6_loop 8 0 best ws src [] = Text (join ws)"
      using loop_pre [of 0 8 best ws 0 src] nr len by (simp add: join_def)
    then show ?thesis using None ws best by (simp add: inet_ntop6_def ntop6_text_def Let_def)
  next
    case (Some p)
    then obtain b l where bl: "best = Some (b, l)" by (cases p) simp
    have r: "zrun ws b l" using best_run_longest [of ws] bl best by simp
    then have le: "b + l \<le> 8" "0 < l" using len by (simp_all add: zrun_def)
    show ?thesis
    proof (cases "v4_tail best ws")
      case True
      then have b: "b = 0" "b + l \<noteq> 8" using bl by (auto simp: v4_tail_def)
      have "ntop6_loop 8 0 best ws src [] =
          Text (CHR '':'' # CHR '':'' # sepr (if l = 5 then [0xffff] else []) @ fmt_quad (drop 12 src))"
        using ntop6_loop_v4 [OF _ True len] bl b(1) by simp
      then show ?thesis using True bl b ws best by (simp add: inet_ntop6_def ntop6_text_def Let_def)
    next
      case False
      let ?post = "drop (b + l) ws" and ?pre = "take b ws"
      have "ntop6_loop (b + (l + (8 - (b + l)))) 0 best ws src (join (take 0 ws)) =
          ntop6_loop (l + (8 - (b + l))) b best ws src (join ?pre)"
        using loop_pre [of 0 b best ws "l + (8 - (b + l))" src] bl False len le by (simp add: in_run_def)
      also have "\<dots> = ntop6_loop (8 - (b + l)) (b + l) best ws src (join ?pre @ '':'')"
        using loop_run [OF bl, of b l "8 - (b + l)"] le by simp
      also have "\<dots> = Text ((join ?pre @ '':'') @ sepl ?post)"
        using bl False len le by (intro loop_rest) (auto simp: in_run_def)
      finally have loop: "ntop6_loop 8 0 best ws src [] = Text (join ?pre @ CHR '':'' # sepl ?post)"
        using le by (simp add: join_def)
      have jn: "join [] = []" by (simp add: join_def)
      have eq: "join ?pre @ CHR '':'' # sepl ?post @ (if b + l = 8 then '':'' else []) = compressed ?pre ?post"
      proof (cases "?post = []")
        case True
        then have "b + l = 8" using len le by simp
        then show ?thesis
          using True join_colon [of ?pre] by (cases "?pre = []") (simp_all add: compressed_def jn del: take_eq_Nil)
      next
        case post: False
        then have "b + l \<noteq> 8" using len by auto
        then show ?thesis
          using post join_colon [of ?pre] by (cases "?pre = []") (simp_all add: compressed_def sepl_join jn del: take_eq_Nil)
      qed
      have "inet_ntop6 src sz = (if length (compressed ?pre ?post) + 1 > sz then Enospc else Text (compressed ?pre ?post))"
        unfolding eq [symmetric] using loop bl ws best by (simp add: inet_ntop6_def Let_def)
      moreover have "ntop6_text src = compressed ?pre ?post"
        using False bl ws best by (simp add: ntop6_text_def Let_def)
      ultimately show ?thesis by simp
    qed
  qed
qed

subsection \<open>Reading the text back\<close>

lemma zrun_split: "zrun ws b l \<Longrightarrow> ws = take b ws @ replicate l 0 @ drop (b + l) ws"
  by (rule nth_equalityI) (auto simp: zrun_def nth_append min_def)

lemma word_bytes_zeros: "word_bytes (replicate l 0) = replicate (2 * l) 0"
  by (induction l) simp_all

lemma list_all_take_drop: "list_all P xs \<Longrightarrow> list_all P (take n xs)" "list_all P xs \<Longrightarrow> list_all P (drop n xs)"
  by (auto simp: list_all_iff dest: in_set_takeD in_set_dropD)

lemma pton6_ntop6_text:
  assumes "length src = 16"
  shows "inet_pton6 (ntop6_text src) = Some src"
proof -
  define ws where ws: "ws = ntop6_words src"
  note W = ntop6_words_bytes [OF assms, folded ws]
  show ?thesis
  proof (cases "best_run ws")
    case None
    then show ?thesis using pton6_full [OF W(2,3)] W(1) ws by (simp add: ntop6_text_def Let_def)
  next
    case (Some p)
    then obtain b l where bl: "best_run ws = Some (b, l)" by (cases p) simp
    have r: "zrun ws b l" "2 \<le> l" using best_run_longest [of ws] bl by simp_all
    have split: "ws = take b ws @ replicate l 0 @ drop (b + l) ws" using r(1) by (rule zrun_split)
    have le: "b + l \<le> 8" using r W(3) by (simp add: zrun_def)
    show ?thesis
    proof (cases "v4_tail (Some (b, l)) ws")
      case True
      let ?pre = "if l = 5 then [0xffff] else [] :: nat list"
      have b: "b = 0" "l = 6 \<or> l = 5 \<and> ws ! 5 = 0xffff" using True by (auto simp: v4_tail_def)
      have "drop 5 ws = ws ! 5 # drop 6 ws" using W(3) by (simp add: Cons_nth_drop_Suc [of 5 ws, simplified])
      then have "ws = replicate l 0 @ ?pre @ drop 6 ws" using split b by auto
      then have "word_bytes ws = word_bytes (replicate l 0 @ ?pre @ drop 6 ws)" by (rule arg_cong)
      then have "src = replicate (2 * l) 0 @ word_bytes ?pre @ drop 12 src"
        using W(1,4) by (simp add: word_bytes_zeros)
      moreover have "12 - 2 * length ?pre = 2 * l" using b by auto
      moreover have "inet_pton6 (CHR '':'' # CHR '':'' # sepr ?pre @ fmt_quad (drop 12 src)) =
          Some (replicate (12 - 2 * length ?pre) 0 @ word_bytes ?pre @ drop 12 src)"
        using assms by (intro pton6_v4) simp_all
      ultimately show ?thesis using True bl ws by (simp add: ntop6_text_def Let_def)
    next
      case False
      have "word_bytes ws = word_bytes (take b ws @ replicate l 0 @ drop (b + l) ws)" using split by (rule arg_cong)
      then have "src = word_bytes (take b ws) @ replicate (2 * l) 0 @ word_bytes (drop (b + l) ws)"
        using W(1) by (simp add: word_bytes_zeros)
      moreover have "16 - 2 * (length (take b ws) + length (drop (b + l) ws)) = 2 * l" using W(3) le by simp
      moreover have "inet_pton6 (compressed (take b ws) (drop (b + l) ws)) =
          Some (word_bytes (take b ws) @ replicate (16 - 2 * (length (take b ws) + length (drop (b + l) ws))) 0 @
            word_bytes (drop (b + l) ws))"
        using W(2,3) le r(2) by (intro pton6_compressed list_all_take_drop) simp_all
      ultimately show ?thesis using False bl ws by (simp add: ntop6_text_def Let_def)
    qed
  qed
qed

text \<open>The text is never longer than 39 characters.\<close>

lemma length_fmt_hex: "w < 16 ^ Suc k \<Longrightarrow> length (fmt_hex w) \<le> Suc k"
proof (induction k arbitrary: w)
  case 0
  then show ?case by (simp add: fmt_hex.simps [of w])
next
  case (Suc k)
  show ?case
  proof (cases "w < 16")
    case False
    have "w div 16 < 16 ^ Suc k" using Suc.prems by (simp add: less_mult_imp_div_less)
    then show ?thesis using False Suc.IH [of "w div 16"] by (simp add: fmt_hex.simps [of w])
  qed (simp add: fmt_hex.simps [of w])
qed

lemma length_hex_word: "w \<le> 0xffff \<Longrightarrow> length (fmt_hex w) \<le> 4"
  using length_fmt_hex [of w 3] by simp

lemma length_sepr: "list_all (\<lambda>w. w \<le> 0xffff) ws \<Longrightarrow> length (sepr ws) \<le> 5 * length ws"
proof (induction ws)
  case (Cons w ws)
  then show ?case using length_hex_word [of w] by simp
qed simp

lemma length_join: "list_all (\<lambda>w. w \<le> 0xffff) ws \<Longrightarrow> ws \<noteq> [] \<Longrightarrow> length (join ws) + 1 \<le> 5 * length ws"
  using length_sepr [of ws] join_colon [of ws "[]"] by (metis append_Nil2 length_append_singleton Suc_eq_plus1)

lemma length_compressed:
  assumes "list_all (\<lambda>w. w \<le> 0xffff) pre" "list_all (\<lambda>w. w \<le> 0xffff) post" and "length pre + length post \<le> 6"
  shows "length (compressed pre post) \<le> 39"
proof -
  have "length (join post) \<le> 5 * length post"
    using length_join [OF assms(2)] by (cases "post = []") (simp_all add: join_def)
  then show ?thesis using length_sepr [OF assms(1)] assms(3) by (simp add: compressed_def)
qed

lemma length_ntop6_text:
  assumes "length src = 16"
  shows "length (ntop6_text src) \<le> 39"
proof -
  define ws where ws: "ws = ntop6_words src"
  note W = ntop6_words_bytes [OF assms, folded ws]
  show ?thesis
  proof (cases "best_run ws")
    case None
    have "ws \<noteq> []" using W(3) by auto
    then show ?thesis using None length_join [OF W(2)] W(3) ws by (simp add: ntop6_text_def Let_def)
  next
    case (Some p)
    then obtain b l where bl: "best_run ws = Some (b, l)" by (cases p) simp
    have r: "zrun ws b l" "2 \<le> l" using best_run_longest [of ws] bl by simp_all
    have hex: "length (fmt_hex 65535) \<le> 4" by (rule length_hex_word) simp
    have "length (compressed (take b ws) (drop (b + l) ws)) \<le> 39"
      using W(2,3) r by (intro length_compressed list_all_take_drop) (auto simp: zrun_def)
    then show ?thesis using bl ws hex length_fmt_quad [of "drop 12 src"] by (simp add: ntop6_text_def Let_def)
  qed
qed

end
