(* ===== verification/Inet_Old.thy ===== *)
theory Inet_Old
  imports Inet_Props
begin

text \<open>
  The conversions of \<^verbatim>\<open>inet_aton.c\<close> and of the IPv4-only files against those of
  \<^verbatim>\<open>inet_pton.c\<close> and \<^verbatim>\<open>inet_ntop.c\<close>, and the arithmetic of the Internet checksum.
\<close>

section \<open>Colons too many\<close>

text \<open>On a full array the shift copies every byte onto itself and then clears it.\<close>

lemma pton6_shift_full:
  assumes "length out = 16" and "c + n = 16" and "j + k \<le> n"
  shows "pton6_shift k (j + 1) n c (take (16 - j) out @ replicate j 0) = take (16 - j - k) out @ replicate (j + k) 0"
  using assms
proof (induction k arbitrary: j)
  case 0
  then show ?case by simp
next
  case (Suc k)
  let ?t = "take (16 - j) out @ replicate j 0" and ?p = "16 - Suc j"
  have "?p < length out" "16 - j = Suc ?p" using Suc.prems by simp_all
  then have split: "take (16 - j) out = take ?p out @ [out ! ?p]"
    by (simp only: take_Suc_conv_app_nth)
  have src: "c + (n - (j + 1)) = ?p" using Suc.prems by simp
  have "(?t[?p := ?t ! ?p])[?p := 0] = take ?p out @ 0 # replicate j 0"
    unfolding split using Suc.prems by (simp add: list_update_append)
  then have st: "(?t[16 - (j + 1) := ?t ! (c + (n - (j + 1)))])[c + (n - (j + 1)) := 0] = take (16 - Suc j) out @ replicate (Suc j) 0"
    unfolding src by simp
  have "pton6_shift (Suc k) (j + 1) n c ?t = pton6_shift k (Suc j + 1) n c (take (16 - Suc j) out @ replicate (Suc j) 0)"
    using st by simp
  also have "\<dots> = take (16 - Suc j - k) out @ replicate (Suc j + k) 0"
    using Suc.prems by (intro Suc.IH) simp_all
  finally show ?case by simp
qed

lemma pton6_double_colon_full:
  assumes "list_all (\<lambda>w. w \<le> 0xffff) pre" "list_all (\<lambda>w. w \<le> 0xffff) post" and "length pre + length post = 8" and "pre \<noteq> []"
  shows "inet_pton6 (sepr pre @ CHR '':'' # join post) = Some (word_bytes pre @ replicate (2 * length post) 0)"
proof -
  let ?out = "word_bytes pre" and ?t = "sepr pre @ CHR '':'' # join post"
  have "hd ?t \<noteq> CHR '':''" using hd_fmt_hex assms(4) by (cases pre) simp_all
  then have "inet_pton6 ?t = pton6_fin (pton6_loop (img []) 0 None ?t False 0 ?t)" by (rule pton6_start)
  also have "pton6_loop (img []) 0 None ?t False 0 ?t =
      pton6_loop (img ?out) (length ?out) (Some (length ?out)) (join post) False 0 (join post)"
    using parse_sepr [OF assms(1), of "[]"] assms(3) by simp
  also have "pton6_fin \<dots> = pton6_end (Some (length ?out)) (?out @ word_bytes post)"
    using assms by (intro parse_join) simp_all
  finally show ?thesis
    using pton6_shift_full [of "?out @ word_bytes post" "length ?out" "2 * length post" 0 "2 * length post"] assms(3)
    by (simp add: pton6_end_def img_def)
qed

lemma pton6_trailing_colon:
  assumes "list_all (\<lambda>w. w \<le> 0xffff) ws" and "length ws = 8"
  shows "inet_pton6 (sepr ws) = Some (word_bytes ws)"
proof -
  have "hd (sepr ws) \<noteq> CHR '':''" using hd_fmt_hex assms(2) by (cases ws) simp_all
  then show ?thesis
    using parse_sepr [OF assms(1), of "[]" None "sepr ws" "[]"] assms(2) pton6_fin_end(1) [of "word_bytes ws" None 0]
    by (simp add: pton6_start pton6_end_def)
qed

section \<open>The older conversions\<close>

lemma aton_digits:
  assumes "list_all isdigit ds" and "digits_val a ds \<le> 255"
  shows "aton_loop dots (of_nat a) addr (ds @ rest) = aton_loop dots (of_nat (digits_val a ds)) addr rest"
  using assms
proof (induction ds arbitrary: a)
  case (Cons c ds)
  let ?n = "10 * a + (of_char c - 48)"
  have "aton_loop dots (of_nat a) addr ((c # ds) @ rest) = aton_loop dots (of_nat ?n) addr (ds @ rest)"
    using Cons.prems(1) by (simp add: mult.commute)
  also have "\<dots> = aton_loop dots (of_nat (digits_val ?n ds)) addr rest"
    using Cons.prems by (intro Cons.IH) simp_all
  finally show ?case by simp
qed simp

text \<open>Every state of \<^verbatim>\<open>inet_pton4\<close> has a state of \<^verbatim>\<open>inet_aton\<close> beside it.\<close>

definition quad_acc :: "8 word list \<Rightarrow> 64 word" where
  "quad_acc bs = foldl (\<lambda>addr b. push_bit 8 addr OR ucast b) 0 bs"

lemma pton4_length:
  "pton4_loop saw octets tmp src = Some bs \<Longrightarrow> tmp \<noteq> [] \<Longrightarrow> octets \<le> 4 \<Longrightarrow>
   length tmp = (if saw then octets else octets + 1) \<Longrightarrow> saw \<or> octets < 4 \<Longrightarrow> length bs = 4"
proof (induction saw octets tmp src rule: pton4_loop.induct)
  case (1 saw octets tmp)
  then show ?case by (auto split: if_splits)
next
  case (2 saw octets tmp ch src)
  then show ?case by (auto simp: Let_def split: option.splits if_splits)
qed

lemma isdigit_of_pos: "strchr_pos digits ch = Some d \<Longrightarrow> isdigit ch \<and> d = of_char ch - 48"
  by (simp add: strchr_pos_digits split: if_splits)

lemma ucast_of_byte: "n \<le> 255 \<Longrightarrow> (ucast (of_nat n :: 8 word) :: 64 word) = of_nat n"
proof -
  assume "n \<le> 255"
  then have "take_bit 8 n = n" by (simp add: take_bit_nat_eq_self_iff)
  moreover have "(ucast (of_nat n :: 8 word) :: 64 word) = of_nat (take_bit LENGTH(8) n)"
    by (rule unsigned_of_nat)
  ultimately show ?thesis by simp
qed

lemma of_nat_byte_64:
  assumes "unat (w :: 8 word) * 10 + d \<le> 255"
  shows "ucast w * 10 + of_nat d = (ucast (of_nat (unat w * 10 + d) :: 8 word) :: 64 word)"
proof -
  have "(ucast w :: 64 word) = of_nat (unat w)" using ucast_of_byte [OF unat_byte [of w]] by simp
  then show ?thesis using ucast_of_byte [OF assms] by simp
qed

lemma ucast_byte_le: "\<not> (255 :: 64 word) < ucast (w :: 8 word)"
proof -
  have "unat (ucast w :: 64 word) = unat w"
    using unat_byte [of w] by (simp add: unsigned_ucast_eq take_bit_nat_eq_self_iff)
  then show ?thesis using unat_byte [of w] by (simp add: word_less_nat_alt)
qed

lemma aton_of_pton4:
  "pton4_loop saw octets tmp src = Some bs \<Longrightarrow> tmp \<noteq> [] \<Longrightarrow> octets \<le> 4 \<Longrightarrow>
   length tmp = (if saw then octets else octets + 1) \<Longrightarrow> saw \<or> octets < 4 \<Longrightarrow> (\<not> saw \<longrightarrow> last tmp = 0) \<Longrightarrow>
   aton_loop (int (length tmp) - 1) (ucast (last tmp)) (quad_acc (butlast tmp)) src = Some (3, quad_acc bs)"
proof (induction saw octets tmp src rule: pton4_loop.induct)
  case (1 saw octets tmp)
  then have "octets = 4" "saw" "bs = tmp" "length tmp = 4" by (auto split: if_splits)
  moreover have "quad_acc tmp = push_bit 8 (quad_acc (butlast tmp)) OR ucast (last tmp)"
    using 1(2) by (cases tmp rule: rev_cases) (simp_all add: quad_acc_def)
  ultimately show ?case using ucast_byte_le by simp
next
  case (2 saw octets tmp ch src)
  show ?case
  proof (cases "strchr_pos digits ch")
    case (Some d)
    let ?n = "unat (last tmp) * 10 + d"
    have le: "?n \<le> 255" using 2(4) Some by (simp add: Let_def split: if_splits)
    have dig: "isdigit ch" "d = of_char ch - 48" using isdigit_of_pos [OF Some] by simp_all
    have "aton_loop (int (length (butlast tmp @ [of_nat ?n])) - 1) (ucast (last (butlast tmp @ [of_nat ?n :: 8 word])))
        (quad_acc (butlast (butlast tmp @ [of_nat ?n]))) src = Some (3, quad_acc bs)"
    proof (cases saw)
      case True
      with Some le 2(4-) show ?thesis by (intro 2(3) [OF Some refl]) (auto simp: Let_def)
    next
      case False
      with Some le 2(4-) show ?thesis by (intro 2(2) [OF Some refl]) (auto simp: Let_def split: if_splits)
    qed
    then show ?thesis
      using dig le 2(5) of_nat_byte_64 [OF le] by (simp del: of_nat_add of_nat_mult)
  next
    case None
    then have dot: "ch = CHR ''.''" "saw" "octets \<noteq> 4" using 2(4) by (auto split: if_splits)
    have "aton_loop (int (length (tmp @ [0 :: 8 word])) - 1) (ucast (last (tmp @ [0 :: 8 word])))
        (quad_acc (butlast (tmp @ [0]))) src = Some (3, quad_acc bs)"
      using None dot 2(4-) by (intro 2(1) [OF None]) auto
    moreover have "quad_acc tmp = push_bit 8 (quad_acc (butlast tmp)) OR ucast (last tmp)"
      using 2(5) by (cases tmp rule: rev_cases) (simp_all add: quad_acc_def)
    ultimately show ?thesis
      using dot 2(6,7) ucast_byte_le by (simp add: isdigit_def)
  qed
qed

lemma net_bytes_quad: "net_bytes (ucast (quad_acc [a, b, c, d])) = [a, b, c, d]"
  by (auto simp: net_bytes_def quad_acc_def bit_eq_iff bit_simps dest: bit_imp_le_length)

lemma inet_aton_pton4:
  assumes "inet_pton4 s = Some bs"
  shows "\<exists>a. inet_aton s = Some a \<and> net_bytes a = bs"
proof -
  have p: "pton4_loop False 0 [0] s = Some bs" using assms by (simp add: inet_pton4_def)
  have "length bs = 4" by (rule pton4_length [OF p]) simp_all
  then obtain a b c d where "bs = [a, b, c, d]" by (auto simp: numeral_eq_Suc length_Suc_conv)
  moreover have "aton_loop (int (length [0 :: 8 word]) - 1) (ucast (last [0 :: 8 word])) (quad_acc (butlast [0])) s = Some (3, quad_acc bs)"
    by (rule aton_of_pton4 [OF p]) simp_all
  ultimately show ?thesis using net_bytes_quad by (simp add: inet_aton_def quad_acc_def aton_store_def)
qed

section \<open>The checksum\<close>

lemma le_words_append: "even (length xs) \<Longrightarrow> le_words (xs @ ys) = le_words xs @ le_words ys"
  by (induction xs rule: le_words.induct) simp_all

lemma length_le_words: "length (le_words xs) = (length xs + 1) div 2"
  by (induction xs rule: le_words.induct) simp_all

definition word_sum :: "16 word list \<Rightarrow> nat" where
  "word_sum ws = sum_list (map unat ws)"

lemma unat_16: "unat (w :: 16 word) \<le> 65535"
proof -
  have "unat w < 2 ^ LENGTH(16)" by (rule unsigned_less)
  then show ?thesis by simp
qed

lemma word_sum_le: "word_sum ws \<le> 65535 * length ws"
proof (induction ws)
  case (Cons w ws)
  then show ?case using unat_16 [of w] by (simp add: word_sum_def)
qed (simp add: word_sum_def)

lemma cksum_acc: "foldl (\<lambda>acc w. acc + ucast w) (of_nat n :: 32 word) ws = of_nat (n + word_sum ws)"
proof (induction ws arbitrary: n)
  case (Cons w ws)
  have "foldl (\<lambda>acc w. acc + ucast w) (of_nat n :: 32 word) (w # ws) =
      foldl (\<lambda>acc w. acc + ucast w) (of_nat (n + unat w)) ws" by simp
  also have "\<dots> = of_nat (n + unat w + word_sum ws)" by (rule Cons.IH)
  finally show ?case by (simp add: word_sum_def add.assoc)
qed (simp add: word_sum_def)

text \<open>The one's complement sum of a total: the representative in 1 to 65535, or 0 for 0.\<close>

definition ones_sum :: "nat \<Rightarrow> nat" where
  "ones_sum n = (if n = 0 then 0 else (n - 1) mod 65535 + 1)"

lemma ones_sumI:
  assumes "n = 65535 * q + r" and "0 < r" and "r \<le> 65535"
  shows "ones_sum n = r"
proof -
  have "n - 1 = (r - 1) + 65535 * q" using assms(1,2) by linarith
  then have "(n - 1) mod 65535 = (r - 1) mod 65535" by (simp only: mod_mult_self2)
  moreover have "(r - 1) mod 65535 = r - 1" using assms(2,3) by (intro mod_less) linarith
  ultimately show ?thesis using assms(1,2) by (simp add: ones_sum_def)
qed

lemma ones_sum_fold:
  fixes n :: nat
  defines "t \<equiv> n div 65536 + n mod 65536"
  assumes "n < 2 ^ 32"
  shows "(t + t div 65536) mod 65536 = ones_sum n"
proof -
  have "n = 65536 * (n div 65536) + n mod 65536" by simp
  then have n: "n = 65535 * (n div 65536) + t" unfolding t_def by linarith
  have "n div 65536 < 65536" using assms(2) by (intro less_mult_imp_div_less) simp
  moreover have "n mod 65536 < 65536" by simp
  ultimately have t: "t \<le> 131070" unfolding t_def by linarith
  consider "t = 0" | "0 < t" "t \<le> 65535" | "65535 < t" by linarith
  then show ?thesis
  proof cases
    case 1
    then have "n = 0" using n t_def by simp
    then show ?thesis using 1 by (simp add: ones_sum_def)
  next
    case 2
    then have "t div 65536 = 0" "t mod 65536 = t" by simp_all
    then show ?thesis using ones_sumI [OF n 2] by simp
  next
    case 3
    have d: "t div 65536 = 1" using 3 t by (intro div_nat_eqI) simp_all
    have "(t + 1) mod 65536 = (t + 1 - 65536) mod 65536" using 3 by (intro le_mod_geq) simp
    also have "\<dots> = t - 65535" using t 3 by (subst mod_less) linarith+
    finally have "(t + t div 65536) mod 65536 = t - 65535" unfolding d .
    moreover have "65535 * (n div 65536 + 1) = 65535 * (n div 65536) + 65535" by simp
    then have "n = 65535 * (n div 65536 + 1) + (t - 65535)" using n 3 by linarith
    then have "ones_sum n = t - 65535" by (rule ones_sumI) (use 3 t in linarith)+
    ultimately show ?thesis by simp
  qed
qed

lemma unat_not_16: "unat (NOT x) = 65535 - unat x" for x :: "16 word"
proof -
  have "unat x \<le> 65535" by (rule unat_16)
  then have "NOT x = of_nat (65535 - unat x)" by (simp add: not_eq_complement of_nat_diff)
  then show ?thesis by (simp only: unat_of_nat take_bit_eq_mod) simp
qed

lemma unat_cksum_fold: "unat (cksum_fold s) = 65535 - ones_sum (unat s)"
proof -
  define n where n: "n = unat s"
  define t where t: "t = n div 65536 + n mod 65536"
  define w where w: "w = drop_bit 16 s + (s AND 0xffff)"
  have lt: "n < 2 ^ 32"
  proof -
    have "unat s < 2 ^ LENGTH(32)" by (rule unsigned_less)
    then show ?thesis using n by simp
  qed
  have m: "(0xffff :: 32 word) = mask 16" by (simp add: mask_eq_exp_minus_1)
  have hi: "unat (drop_bit 16 s) = n div 65536"
    unfolding unat_drop_bit_eq n by (simp add: drop_bit_eq_div)
  have lo: "unat (s AND 0xffff) = n mod 65536"
    unfolding m take_bit_eq_mask [symmetric] unsigned_take_bit_eq n by (simp add: take_bit_eq_mod)
  have b: "n div 65536 < 65536" "n mod 65536 < 65536" using lt by (auto intro: less_mult_imp_div_less)
  have s1: "unat w = t" using b unfolding w t unat_plus_if' hi lo by simp
  have le: "t \<le> 131070" using b unfolding t by linarith
  have d: "unat (drop_bit 16 w) = t div 65536" unfolding unat_drop_bit_eq s1 by (simp add: drop_bit_eq_div)
  have "t div 65536 \<le> t" by simp
  then have "t + t div 65536 \<le> 262140" using le by linarith
  then have "unat w + unat (drop_bit 16 w) < 2 ^ LENGTH(32)" unfolding s1 d by simp
  then have s2: "unat (w + drop_bit 16 w) = t + t div 65536"
    by (simp only: unat_add_lem) (simp only: s1 d)
  have "unat (ucast (w + drop_bit 16 w) :: 16 word) = (t + t div 65536) mod 65536"
    unfolding unsigned_ucast_eq s2 by (simp add: take_bit_eq_mod)
  also have "\<dots> = ones_sum n" using ones_sum_fold [OF lt] t by simp
  finally show ?thesis unfolding cksum_fold_def Let_def w [symmetric] unat_not_16 n by simp
qed

text \<open>A buffer of at most 131074 bytes: the 32-bit accumulator does not overflow.\<close>

lemma unat_in_cksum:
  assumes "length bs \<le> 131074"
  shows "unat (in_cksum bs) = 65535 - ones_sum (word_sum (le_words bs))"
proof -
  have "length (le_words bs) \<le> 65537" using assms by (simp add: length_le_words)
  then have "word_sum (le_words bs) \<le> 65535 * 65537"
    using word_sum_le [of "le_words bs"] by (meson mult_le_mono2 order_trans)
  then have "word_sum (le_words bs) < 2 ^ 32" by simp
  then have "unat (of_nat (word_sum (le_words bs)) :: 32 word) = word_sum (le_words bs)"
    by (simp add: unat_of_nat take_bit_nat_eq_self_iff)
  then show ?thesis
    using cksum_acc [of 0 "le_words bs"] unat_cksum_fold [of "of_nat (word_sum (le_words bs))"]
    by (simp add: in_cksum_def)
qed

text \<open>The checksum stored where a zero word was makes the checksum of the whole zero.\<close>

definition word_le_bytes :: "16 word \<Rightarrow> 8 word list" where
  "word_le_bytes c = [ucast c, ucast (drop_bit 8 c)]"

lemma le_words_bytes: "le_words (word_le_bytes c @ ys) = c # le_words ys"
  by (auto simp: word_le_bytes_def bit_eq_iff bit_simps dest: bit_imp_le_length)

lemma in_cksum_stored:
  assumes "even (length xs)" and "length xs + length ys + 2 \<le> 131074"
  shows "in_cksum (xs @ word_le_bytes (in_cksum (xs @ [0, 0] @ ys)) @ ys) = 0"
proof -
  define c where c: "c = in_cksum (xs @ [0, 0] @ ys)"
  define n where n: "n = word_sum (le_words xs) + word_sum (le_words ys)"
  have "word_sum (le_words (xs @ [0, 0] @ ys)) = n"
    using assms(1) by (simp add: le_words_append word_sum_def n)
  then have uc: "unat c = 65535 - ones_sum n"
    using unat_in_cksum [of "xs @ [0, 0] @ ys"] assms(2) by (simp add: c)
  have sm: "word_sum (le_words (xs @ word_le_bytes c @ ys)) = n + unat c"
    using assms(1) by (simp add: le_words_append le_words_bytes word_sum_def n)
  have "ones_sum (n + unat c) = 65535"
  proof (cases "n = 0")
    case True
    then show ?thesis using uc by (simp add: ones_sum_def)
  next
    case False
    have "n - 1 = 65535 * ((n - 1) div 65535) + (n - 1) mod 65535" by simp
    moreover have "unat c = 65534 - (n - 1) mod 65535" using uc False by (simp add: ones_sum_def)
    moreover have "(n - 1) mod 65535 < 65535" by simp
    ultimately have "n + unat c = 65535 * ((n - 1) div 65535) + 65535" using False by linarith
    then show ?thesis by (rule ones_sumI) simp_all
  qed
  then have "unat (in_cksum (xs @ word_le_bytes c @ ys)) = 0"
    using unat_in_cksum [of "xs @ word_le_bytes c @ ys"] assms(2) sm by (simp add: word_le_bytes_def)
  then show ?thesis using c by (simp add: unsigned_eq_0_iff)
qed

end
