(* ===== verification/Inet_Properties.thy ===== *)
theory Inet_Properties
  imports Inet_Old
begin

text \<open>
  The properties of the address conversions and of the Internet checksum, over the lemmas
  of the two theories before.
\<close>

text \<open>
  C10. Every IPv6 address is read back from its text: with a buffer of at least 40 bytes
  \<^verbatim>\<open>inet_ntop\<close> writes a text, whatever runs of zeros and embedded IPv4 address the address
  has, and \<^verbatim>\<open>inet_pton\<close> of that text returns 1 and the same 16 bytes.
\<close>

theorem inet6_round_trip:
  assumes "length src = 16" and "40 \<le> sz"
  shows "\<exists>t. inet_ntop AF_INET6 src sz = Text t \<and> inet_pton AF_INET6 t = (1, Some src)"
  using inet_ntop6_text [OF assms(1), of sz] length_ntop6_text [OF assms(1)] pton6_ntop6_text [OF assms(1)] assms(2)
  by (simp add: pton_ret_def)

theorem inet6_round_trip_witness:
  "\<exists>t. inet_ntop AF_INET6 [0x20, 1, 0xd, 0xb8, 0, 0, 0, 0, 0, 0, 0, 0, 0, 0, 0, 1] 46 = Text t \<and>
    inet_pton AF_INET6 t = (1, Some [0x20, 1, 0xd, 0xb8, 0, 0, 0, 0, 0, 0, 0, 0, 0, 0, 0, 1])"
  by (rule inet6_round_trip) simp_all

text \<open>
  Every IPv4 address is read back from its text by both implementations of
  \<^verbatim>\<open>inet_pton\<close>, and both implementations of \<^verbatim>\<open>inet_ntop\<close> write the same text into
  a buffer of 16 bytes or more.
\<close>

lemma inet4_round_trip:
  assumes "length src = 4" and "16 \<le> sz"
  shows "\<exists>t. inet_ntop AF_INET src sz = Text t \<and> inet_ntop_ipv4 AF_INET src sz = Text t \<and>
    inet_pton AF_INET t = (1, Some src) \<and> inet_pton_ipv4 AF_INET t = (1, Some src)"
proof -
  obtain a b c d where src: "src = [a, b, c, d]" using assms(1) by (auto simp: numeral_eq_Suc length_Suc_conv)
  have p: "inet_pton4 (fmt_quad src) = Some src" unfolding src by (rule pton4_quad)
  then obtain x where "inet_aton (fmt_quad src) = Some x" "net_bytes x = src"
    using inet_aton_pton4 by blast
  then show ?thesis
    using p length_fmt_quad [of src] assms(2) by (simp add: inet_ntop4_def pton_ret_def Let_def)
qed

text \<open>
  The run of zero words that \<^verbatim>\<open>inet_ntop6\<close> replaces by two colons is the first of
  the longest runs, and has at least two words; without such a run nothing is replaced.
\<close>

lemma best_run_is_longest:
  "case best_run ws of
     Some (b, l) \<Rightarrow> zrun ws b l \<and> 2 \<le> l \<and> (\<forall>b' l'. zrun ws b' l' \<longrightarrow> l' < l \<or> l' = l \<and> b \<le> b')
   | None \<Rightarrow> \<forall>b' l'. zrun ws b' l' \<longrightarrow> l' < 2"
  by (rule best_run_longest)



text \<open>
  What \<^verbatim>\<open>inet_pton\<close> accepts beyond the syntax of addresses: two colons inside an
  address that has all its eight words are not ignored, as its comment says, but clear every word
  behind them; and a single colon at the end of a full address is accepted.
\<close>

lemma inet_pton6_extra_colons:
  assumes "list_all (\<lambda>w. w \<le> 0xffff) (pre @ post)" and "length pre + length post = 8" and "pre \<noteq> []"
  shows "inet_pton AF_INET6 (sepr pre @ '':'' @ join post) = (1, Some (word_bytes pre @ replicate (2 * length post) 0)) \<and>
    inet_pton AF_INET6 (join (pre @ post) @ '':'') = (1, Some (word_bytes (pre @ post)))"
proof -
  have "join (pre @ post) @ '':'' = sepr (pre @ post)" using join_colon [of "pre @ post" "[]"] assms(3) by simp
  then show ?thesis
    using pton6_double_colon_full [of pre post] pton6_trailing_colon [of "pre @ post"] assms by (simp add: pton_ret_def)
qed

text \<open>
  \<^verbatim>\<open>inet_aton\<close> accepts every dotted quad that \<^verbatim>\<open>inet_pton\<close> accepts, with the
  same four bytes in network order.
\<close>

lemma inet_aton_agrees:
  assumes "inet_pton AF_INET s = (1, Some bs)"
  shows "\<exists>a. inet_aton s = Some a \<and> net_bytes a = bs"
  using assms inet_aton_pton4 by (auto simp: pton_ret_def split: option.splits)

text \<open>
  C16. A buffer of up to 131074 bytes with its checksum stored in an aligned word that was zero
  when \<^verbatim>\<open>in_cksum\<close> was called has checksum zero: the receiver's test accepts what the
  sender computed.
\<close>

theorem in_cksum_verifies:
  assumes "even (length xs)" and "length xs + length ys + 2 \<le> 131074"
  shows "in_cksum (xs @ word_le_bytes (in_cksum (xs @ [0, 0] @ ys)) @ ys) = 0"
  using assms by (rule in_cksum_stored)

theorem in_cksum_verifies_witness:
  "in_cksum ([8, 0] @ word_le_bytes (in_cksum ([8, 0] @ [0, 0] @ [1, 2, 3])) @ [1, 2, 3]) = 0"
  by (rule in_cksum_verifies) simp_all

end
