(* ===== verification/Stream_IO.thy ===== *)
theory Stream_IO
  imports C_Prelude
begin

text \<open>
  Byte streams: what \<^verbatim>\<open>read\<close> and \<^verbatim>\<open>write\<close> may answer on a socket or a
  pipe, and the loops the programs put around them: \<^verbatim>\<open>readn\<close> and \<^verbatim>\<open>writen\<close> of
  \<^verbatim>\<open>apue.3e/lib\<close>, \<^verbatim>\<open>unpv13e/lib\<close> and \<^verbatim>\<open>unpv13e/sock\<close>, the timed reads of
  \<^verbatim>\<open>apue.3e/printer/util.c\<close>, and the versions of \<^verbatim>\<open>readline\<close>. A descriptor
  is the list of what its next calls meet; nothing is assumed about how a stream is cut
  into pieces. The contract of a reading call is the locale \<open>byte_reader\<close>.
\<close>

named_theorems stream_simps

section \<open>Definitions\<close>

subsection \<open>Descriptors\<close>

abbreviation (input) EINTR :: int where "EINTR \<equiv> 4"
abbreviation (input) EIO :: int where "EIO \<equiv> 5"
abbreviation (input) ETIME :: int where "ETIME \<equiv> 62"

text \<open>
  The next events at the reading end: bytes that arrive together (no bytes: the end of the
  file), a pause longer than the timeout of a timed read, a failing call. After the last
  event the stream is at its end.
\<close>

datatype rd_event = Data "char list" | Quiet | Rfail int

type_synonym source = "rd_event list"

fun read_src :: "nat \<Rightarrow> source \<Rightarrow> (int + char list) \<times> source" where
  "read_src n [] = (Inr [], [])"
| "read_src n (Data d # evs) =
     (if length d \<le> n then (Inr d, evs) else (Inr (take n d), Data (drop n d) # evs))"
| "read_src n (Quiet # evs) = read_src n evs"
| "read_src n (Rfail e # evs) = (Inl e, evs)"

text \<open>
  The writing end: the bytes accepted so far, and how many bytes each of the next calls
  accepts, or its error; after the last event a call accepts everything.
\<close>

datatype wr_event = Took nat | Wfail int

record sink =
  sent :: "char list"
  plan :: "wr_event list"

definition write_snk :: "char list \<Rightarrow> sink \<Rightarrow> (int + nat) \<times> sink" where
  "write_snk bs w =
     (case plan w of
        [] \<Rightarrow> (Inr (length bs), w\<lparr>sent := sent w @ bs\<rparr>)
      | Took k # evs \<Rightarrow>
          (Inr (min k (length bs)), w\<lparr>sent := sent w @ take k bs, plan := evs\<rparr>)
      | Wfail e # evs \<Rightarrow> (Inl e, w\<lparr>plan := evs\<rparr>))"

subsection \<open>Reading exactly \<open>n\<close> bytes\<close>

text \<open>
  The loop of \<^verbatim>\<open>readn\<close> over any reading call: the result (\<open>Inl e\<close> is \<open>-1\<close> with
  \<^verbatim>\<open>errno\<close> set to \<open>e\<close>), the bytes stored, the descriptor afterwards.
\<close>

function readn_loop ::
  "(nat \<Rightarrow> 's \<Rightarrow> (int + char list) \<times> 's) \<Rightarrow> nat \<Rightarrow> nat \<Rightarrow> char list \<Rightarrow> 's \<Rightarrow> (int + nat) \<times> char list \<times> 's"
where
  "readn_loop rd n nleft got s =
     (if nleft = 0 then (Inr (n - nleft), got, s)
      else case rd nleft s of
        (Inl e, s') \<Rightarrow> if nleft = n then (Inl e, got, s') else (Inr (n - nleft), got, s')
      | (Inr d, s') \<Rightarrow>
          if d = [] then (Inr (n - nleft), got, s')
          else readn_loop rd n (nleft - length d) (got @ d) s')"
  by pat_completeness auto
termination by (relation "measure (\<lambda>(rd, n, nleft, got, s). nleft)") auto

definition readn :: "nat \<Rightarrow> source \<Rightarrow> (int + nat) \<times> char list \<times> source" where
  "readn n evs = readn_loop read_src n n [] evs"

text \<open>
  The timed read of the printer programs: \<^verbatim>\<open>select\<close> gives up on a pause, with the
  error \<^verbatim>\<open>ETIME\<close>; a failing \<^verbatim>\<open>select\<close> and a failing \<^verbatim>\<open>read\<close> both give
  \<open>-1\<close> and the error.
\<close>

definition tread :: "nat \<Rightarrow> source \<Rightarrow> (int + char list) \<times> source" where
  "tread nbytes evs =
     (case evs of Quiet # evs' \<Rightarrow> (Inl ETIME, evs') | _ \<Rightarrow> read_src nbytes evs)"

definition treadn :: "nat \<Rightarrow> source \<Rightarrow> (int + nat) \<times> char list \<times> source" where
  "treadn nbytes evs = readn_loop tread nbytes nbytes [] evs"

text \<open>The version of \<^verbatim>\<open>unpv13e/lib/readn.c\<close>, which calls again after a signal.\<close>

lemma read_src_fail: "read_src n evs = (Inl e, evs') \<Longrightarrow> length evs' < length evs"
  by (induction n evs rule: read_src.induct) (auto split: if_splits)

function readn_unp_loop :: "nat \<Rightarrow> nat \<Rightarrow> char list \<Rightarrow> source \<Rightarrow> (int + nat) \<times> char list \<times> source" where
  "readn_unp_loop n nleft got evs =
     (if nleft = 0 then (Inr (n - nleft), got, evs)
      else case read_src nleft evs of
        (Inl e, evs') \<Rightarrow> if e = EINTR then readn_unp_loop n nleft got evs' else (Inl e, got, evs')
      | (Inr d, evs') \<Rightarrow>
          if d = [] then (Inr (n - nleft), got, evs')
          else readn_unp_loop n (nleft - length d) (got @ d) evs')"
  by pat_completeness auto
termination
  by (relation "measures [\<lambda>(n, nleft, got, evs). nleft, \<lambda>(n, nleft, got, evs). length evs]")
    (auto dest: read_src_fail [OF sym])

definition readn_unp :: "nat \<Rightarrow> source \<Rightarrow> (int + nat) \<times> char list \<times> source" where
  "readn_unp n evs = readn_unp_loop n n [] evs"

subsection \<open>Writing all of a buffer\<close>

function writen_loop :: "nat \<Rightarrow> char list \<Rightarrow> sink \<Rightarrow> int \<times> sink" where
  "writen_loop n bs w =
     (if bs = [] then (int (n - length bs), w)
      else case write_snk bs w of
        (Inl e, w') \<Rightarrow> if length bs = n then (-1, w') else (int (n - length bs), w')
      | (Inr k, w') \<Rightarrow>
          if k = 0 then (int (n - length bs), w') else writen_loop n (drop k bs) w')"
  by pat_completeness auto
termination by (relation "measure (\<lambda>(n, bs, w). length bs)") auto

definition writen :: "char list \<Rightarrow> sink \<Rightarrow> int \<times> sink" where
  "writen bs w = writen_loop (length bs) bs w"

lemma write_snk_fail: "write_snk bs w = (Inl e, w') \<Longrightarrow> length (plan w') < length (plan w)"
  by (auto simp: write_snk_def split: list.splits wr_event.splits)

function writen_unp_loop :: "nat \<Rightarrow> char list \<Rightarrow> sink \<Rightarrow> int \<times> sink" where
  "writen_unp_loop n bs w =
     (if bs = [] then (int n, w)
      else case write_snk bs w of
        (Inl e, w') \<Rightarrow> if e = EINTR then writen_unp_loop n bs w' else (-1, w')
      | (Inr k, w') \<Rightarrow> if k = 0 then (-1, w') else writen_unp_loop n (drop k bs) w')"
  by pat_completeness auto
termination
  by (relation "measures [\<lambda>(n, bs, w). length bs, \<lambda>(n, bs, w). length (plan w)]")
    (auto dest: write_snk_fail [OF sym])

definition writen_unp :: "char list \<Rightarrow> sink \<Rightarrow> int \<times> sink" where
  "writen_unp bs w = writen_unp_loop (length bs) bs w"

text \<open>
  The version of \<^verbatim>\<open>unpv13e/sock/writen.c\<close>: the count is a \<^verbatim>\<open>size_t\<close>, so that the
  result \<open>-1\<close> of a failing call is not seen as an error: it is taken off the bytes that are
  left, and the pointer moves one byte back. \<open>p\<close> is the pointer's offset in the buffer;
  a pointer before the buffer is \<open>None\<close>.
\<close>

lemma write_snk_count: "write_snk bs w = (Inr k, w') \<Longrightarrow> k \<le> length bs \<and> length (plan w') \<le> length (plan w)"
  by (auto simp: write_snk_def split: list.splits wr_event.splits)

function writen_sock_loop :: "char list \<Rightarrow> nat \<Rightarrow> nat \<Rightarrow> sink \<Rightarrow> (int \<times> sink) option" where
  "writen_sock_loop buf p nleft w =
     (if nleft = 0 then Some (int (length buf), w)
      else case write_snk (take nleft (drop p buf)) w of
        (Inl e, w') \<Rightarrow> if p = 0 then None else writen_sock_loop buf (p - 1) (nleft + 1) w'
      | (Inr k, w') \<Rightarrow>
          if k = 0 then Some (0, w') else writen_sock_loop buf (p + k) (nleft - k) w')"
  by pat_completeness auto
termination
proof (relation "measure (\<lambda>(buf, p, nleft, w). 2 * length (plan w) + nleft)", goal_cases)
  case (2 buf p nleft w x w' e)
  then show ?case using write_snk_fail [of "take nleft (drop p buf)" w e w'] by simp
next
  case (3 buf p nleft w x w' k)
  then have "0 < k" "k \<le> nleft" "length (plan w') \<le> length (plan w)"
    using write_snk_count [of "take nleft (drop p buf)" w k w'] by simp_all
  then show ?case by simp
qed simp

definition writen_sock :: "char list \<Rightarrow> sink \<Rightarrow> (int \<times> sink) option" where
  "writen_sock buf w = writen_sock_loop buf 0 (length buf) w"

subsection \<open>Reading a line\<close>

text \<open>
  The buffer behind \<^verbatim>\<open>readline\<close>: the statics of \<^verbatim>\<open>unpv13e/lib/readline.c\<close>, the
  per-thread structure of \<^verbatim>\<open>unpv13e/threads/readline.c\<close>, the caller's structure of
  \<^verbatim>\<open>unpv13e/server/readline_r.c\<close>.
\<close>

record Rline =
  rl_cnt :: int
  rl_bufptr :: nat
  rl_buf :: "char list"

definition rl_init :: Rline where
  "rl_init = \<lparr>rl_cnt = 0, rl_bufptr = 0, rl_buf = []\<rparr>"

text \<open>The \<^verbatim>\<open>again:\<close> loop: read until the call is not interrupted.\<close>

function rl_fill :: "source \<Rightarrow> (int + char list) \<times> source" where
  "rl_fill evs =
     (case read_src MAXLINE evs of
        (Inl e, evs') \<Rightarrow> if e = EINTR then rl_fill evs' else (Inl e, evs')
      | (Inr d, evs') \<Rightarrow> (Inr d, evs'))"
  by pat_completeness auto
termination by (relation "measure length") (auto dest: read_src_fail [OF sym])

text \<open>\<^verbatim>\<open>my_read\<close>: \<open>Inl\<close> for \<open>-1\<close>, \<open>None\<close> for the end of the file.\<close>

definition my_read :: "Rline \<Rightarrow> source \<Rightarrow> (int + char option) \<times> Rline \<times> source" where
  "my_read rl evs =
     (let take1 = (\<lambda>rl evs.
            (Inr (Some (rl_buf rl ! rl_bufptr rl)),
             rl\<lparr>rl_cnt := rl_cnt rl - 1, rl_bufptr := rl_bufptr rl + 1\<rparr>, evs))
      in if rl_cnt rl \<le> 0
         then case rl_fill evs of
             (Inl e, evs') \<Rightarrow> (Inl e, rl\<lparr>rl_cnt := -1\<rparr>, evs')
           | (Inr d, evs') \<Rightarrow>
               if d = [] then (Inr None, rl\<lparr>rl_cnt := 0\<rparr>, evs')
               else take1 (rl\<lparr>rl_cnt := int (length d), rl_bufptr := 0,
                              rl_buf := overwrite (rl_buf rl) 0 d\<rparr>) evs'
         else take1 rl evs)"

text \<open>
  \<^verbatim>\<open>readline\<close>: the result, the bytes stored at \<^verbatim>\<open>vptr\<close> in order, the buffer and
  the descriptor afterwards.
\<close>

function readline_loop ::
  "nat \<Rightarrow> nat \<Rightarrow> char list \<Rightarrow> Rline \<Rightarrow> source \<Rightarrow> int \<times> char list \<times> Rline \<times> source"
where
  "readline_loop n maxlen out rl evs =
     (if n < maxlen then
        case my_read rl evs of
          (Inr (Some c), rl', evs') \<Rightarrow>
            if c = NEWLINE then (int n, out @ [c, NUL], rl', evs')
            else readline_loop (n + 1) maxlen (out @ [c]) rl' evs'
        | (Inr None, rl', evs') \<Rightarrow> (int n - 1, out @ [NUL], rl', evs')
        | (Inl e, rl', evs') \<Rightarrow> (-1, out, rl', evs')
      else (int n, out @ [NUL], rl, evs))"
  by pat_completeness auto
termination by (relation "measure (\<lambda>(n, maxlen, out, rl, evs). maxlen - n)") auto

definition readline :: "nat \<Rightarrow> Rline \<Rightarrow> source \<Rightarrow> int \<times> char list \<times> Rline \<times> source" where
  "readline maxlen rl evs = readline_loop 1 maxlen [] rl evs"

definition readlinebuf :: "Rline \<Rightarrow> int \<times> char list" where
  "readlinebuf rl =
     (rl_cnt rl, if rl_cnt rl \<noteq> 0 then slice_at (rl_bufptr rl) (nat (rl_cnt rl)) (rl_buf rl) else [])"

text \<open>
  \<^verbatim>\<open>readline_r\<close> of the preforked servers: at the end of the file it leaves the loop
  when it has stored something.
\<close>

function readline_r_loop ::
  "nat \<Rightarrow> nat \<Rightarrow> char list \<Rightarrow> Rline \<Rightarrow> source \<Rightarrow> int \<times> char list \<times> Rline \<times> source"
where
  "readline_r_loop n maxlen out rl evs =
     (if n < maxlen then
        case my_read rl evs of
          (Inr (Some c), rl', evs') \<Rightarrow>
            if c = NEWLINE then (int n, out @ [c, NUL], rl', evs')
            else readline_r_loop (n + 1) maxlen (out @ [c]) rl' evs'
        | (Inr None, rl', evs') \<Rightarrow>
            if n = 1 then (0, out, rl', evs') else (int n, out @ [NUL], rl', evs')
        | (Inl e, rl', evs') \<Rightarrow> (-1, out, rl', evs')
      else (int n, out @ [NUL], rl, evs))"
  by pat_completeness auto
termination by (relation "measure (\<lambda>(n, maxlen, out, rl, evs). maxlen - n)") auto

definition readline_r :: "nat \<Rightarrow> Rline \<Rightarrow> source \<Rightarrow> int \<times> char list \<times> Rline \<times> source" where
  "readline_r maxlen rl evs = readline_r_loop 1 maxlen [] rl evs"

text \<open>The version that reads one byte at a time (\<^verbatim>\<open>unpv13e/test/readline1.c\<close>).\<close>

function readline1_loop ::
  "nat \<Rightarrow> nat \<Rightarrow> char list \<Rightarrow> source \<Rightarrow> int \<times> char list \<times> source"
where
  "readline1_loop n maxlen out evs =
     (if n < maxlen then
        case read_src 1 evs of
          (Inr [], evs') \<Rightarrow> (int n - 1, out @ [NUL], evs')
        | (Inr (c # _), evs') \<Rightarrow>
            if c = NEWLINE then (int n, out @ [c, NUL], evs')
            else readline1_loop (n + 1) maxlen (out @ [c]) evs'
        | (Inl e, evs') \<Rightarrow>
            if e = EINTR then readline1_loop n maxlen out evs' else (-1, out, evs')
      else (int n, out @ [NUL], evs))"
  by pat_completeness auto
termination
  by (relation "measures [\<lambda>(n, maxlen, out, evs). maxlen - n, \<lambda>(n, maxlen, out, evs). length evs]")
    (auto dest: read_src_fail [OF sym])

definition readline1 :: "nat \<Rightarrow> source \<Rightarrow> int \<times> char list \<times> source" where
  "readline1 maxlen evs = readline1_loop 1 maxlen [] evs"

declare readn_loop.simps [simp del] readn_unp_loop.simps [simp del] writen_loop.simps [simp del]
  writen_unp_loop.simps [simp del] writen_sock_loop.simps [simp del] rl_fill.simps [simp del]
  readline_loop.simps [simp del] readline_r_loop.simps [simp del] readline1_loop.simps [simp del]

section \<open>What a stream still holds\<close>

text \<open>A measure for loops that read to the end: bytes and events that are left.\<close>

definition weight :: "source \<Rightarrow> nat" where
  "weight evs = sum_list (map (\<lambda>ev. case ev of Data d \<Rightarrow> Suc (length d) | _ \<Rightarrow> 1) evs)"

lemma weight_simps [stream_simps, simp]:
  "weight [] = 0" "weight (Data d # evs) = Suc (length d) + weight evs"
  "weight (Quiet # evs) = Suc (weight evs)" "weight (Rfail e # evs) = Suc (weight evs)"
  by (simp_all add: weight_def)

lemma read_src_weight:
  "0 < n \<Longrightarrow> read_src n evs = (r, evs') \<Longrightarrow> weight evs' < weight evs \<or> r = Inr [] \<and> evs' = []"
  by (induction n evs rule: read_src.induct) (auto split: if_splits)

lemma tread_weight:
  "0 < n \<Longrightarrow> tread n evs = (r, evs') \<Longrightarrow> weight evs' < weight evs \<or> r = Inr [] \<and> evs' = []"
  using read_src_weight [of n evs r evs']
  by (cases evs rule: list.exhaust; cases "hd evs") (auto simp: tread_def)

lemma read_src_length: "read_src n evs = (Inr d, evs') \<Longrightarrow> length d \<le> n"
  by (induction n evs rule: read_src.induct) (auto split: if_splits)

lemma tread_length: "tread n evs = (Inr d, evs') \<Longrightarrow> length d \<le> n"
  by (auto simp: tread_def split: list.splits rd_event.splits if_splits dest: read_src_length)

section \<open>Streams as tokens\<close>

text \<open>
  What a descriptor delivers, however it is cut up: a list of bytes, ends of file and
  errors. Specifications of the reading routines are functions of this list.
\<close>

datatype tok = Byte char | Eof | Err int

fun toks_of :: "rd_event \<Rightarrow> tok list" where
  "toks_of (Data d) = (if d = [] then [Eof] else map Byte d)"
| "toks_of Quiet = []"
| "toks_of (Rfail e) = [Err e]"

definition toks :: "source \<Rightarrow> tok list" where
  "toks evs = concat (map toks_of evs)"

text \<open>The same stream seen by a timed read.\<close>

definition ttoks :: "source \<Rightarrow> tok list" where
  "ttoks evs = concat (map (\<lambda>ev. if ev = Quiet then [Err ETIME] else toks_of ev) evs)"

text \<open>Interruptions left out, for the routines that call again.\<close>

definition calm :: "tok list \<Rightarrow> tok list" where
  "calm ts = filter (\<lambda>t. t \<noteq> Err EINTR) ts"

fun lead :: "nat \<Rightarrow> tok list \<Rightarrow> char list" where
  "lead (Suc n) (Byte c # ts) = c # lead n ts"
| "lead _ _ = []"

definition after :: "nat \<Rightarrow> tok list \<Rightarrow> tok list" where
  "after n ts =
     (let k = length (lead n ts) in if k = n then drop k ts else drop (Suc k) ts)"

fun blocked :: "tok list \<Rightarrow> int option" where
  "blocked (Err e # ts) = Some e"
| "blocked _ = None"

text \<open>
  Reading \<open>n\<close> bytes, as a function of the tokens: the bytes up to an end of file or
  an error. \<^verbatim>\<open>readn\<close> of \<^verbatim>\<open>apue.3e\<close> fails when the error comes first, that of
  \<^verbatim>\<open>unpv13e\<close> when it meets one at all.
\<close>

definition readn_spec :: "nat \<Rightarrow> tok list \<Rightarrow> (int + nat) \<times> char list \<times> tok list" where
  "readn_spec n ts =
     (case blocked ts of
        Some e \<Rightarrow> if 0 < n then Inl e else Inr 0
      | None \<Rightarrow> Inr (length (lead n ts)), lead n ts, after n ts)"

definition readn_unp_spec :: "nat \<Rightarrow> tok list \<Rightarrow> (int + nat) \<times> char list \<times> tok list" where
  "readn_unp_spec n ts =
     (case blocked (drop (length (lead n ts)) ts) of
        Some e \<Rightarrow> if length (lead n ts) < n then Inl e else Inr (length (lead n ts))
      | None \<Rightarrow> Inr (length (lead n ts)), lead n ts, after n ts)"

lemma toks_simps [stream_simps, simp]:
  "toks [] = []" "toks (ev # evs) = toks_of ev @ toks evs"
  by (simp_all add: toks_def)

lemma ttoks_simps [stream_simps, simp]:
  "ttoks [] = []" "ttoks (Data d # evs) = toks_of (Data d) @ ttoks evs"
  "ttoks (Quiet # evs) = Err ETIME # ttoks evs" "ttoks (Rfail e # evs) = Err e # ttoks evs"
  by (simp_all add: ttoks_def)

lemma calm_simps [stream_simps, simp]:
  "calm [] = []" "calm (Byte c # ts) = Byte c # calm ts" "calm (Eof # ts) = Eof # calm ts"
  "calm (Err e # ts) = (if e = EINTR then calm ts else Err e # calm ts)"
  "calm (ts @ us) = calm ts @ calm us" "calm (map Byte d) = map Byte d"
  by (auto simp: calm_def)

lemma lead_append [stream_simps]:
  "lead n (map Byte d @ ts) = take n d @ lead (n - length d) ts"
  by (induction d arbitrary: n) (case_tac n; simp)+

lemma length_lead: "length (lead n ts) \<le> n"
  by (induction n ts rule: lead.induct) auto

lemma after_append [stream_simps]:
  "length d \<le> n \<Longrightarrow> after n (map Byte d @ ts) = after (n - length d) ts"
  by (auto simp: after_def lead_append Let_def)

lemma lead_0 [stream_simps, simp]: "lead 0 ts = []" "after 0 ts = ts"
  by (simp_all add: after_def)

lemma lead_stop [stream_simps, simp]:
  "lead n (Eof # ts) = []" "lead n (Err e # ts) = []" "lead n [] = []"
  by (cases n; simp)+

lemma after_stop [stream_simps, simp]:
  "0 < n \<Longrightarrow> after n (Eof # ts) = ts" "0 < n \<Longrightarrow> after n (Err e # ts) = ts" "after n [] = []"
  by (simp_all add: after_def Let_def)

section \<open>The contract of a reading call\<close>

locale byte_reader =
  fixes rd :: "nat \<Rightarrow> 's \<Rightarrow> (int + char list) \<times> 's" and tk :: "'s \<Rightarrow> tok list"
  assumes rd_error: "0 < n \<Longrightarrow> rd n s = (Inl e, s') \<Longrightarrow> tk s = Err e # tk s'"
    and rd_data: "0 < n \<Longrightarrow> rd n s = (Inr d, s') \<Longrightarrow> d \<noteq> [] \<Longrightarrow>
      length d \<le> n \<and> tk s = map Byte d @ tk s'"
    and rd_end: "0 < n \<Longrightarrow> rd n s = (Inr [], s') \<Longrightarrow>
      tk s = Eof # tk s' \<or> tk s = [] \<and> tk s' = []"
begin

text \<open>The loop of \<^verbatim>\<open>readn\<close> depends on the tokens only, not on how the reads cut them.\<close>

lemma readn_loop_tokens:
  assumes "nleft \<le> n" and "length got = n - nleft"
    and "readn_loop rd n nleft got s = (r, out, s')"
  shows "out = got @ lead nleft (tk s) \<and> tk s' = after nleft (tk s) \<and>
    r = (case blocked (tk s) of
           Some e \<Rightarrow> if nleft = n \<and> 0 < n then Inl e else Inr (length out)
         | None \<Rightarrow> Inr (length out))"
  using assms
proof (induction nleft arbitrary: got s rule: less_induct)
  case (less nleft)
  obtain x s1 where rd: "rd nleft s = (x, s1)" by (cases "rd nleft s")
  show ?case
  proof (cases "nleft = 0")
    case True
    with less.prems show ?thesis by (auto simp: readn_loop.simps [of rd n 0] split: option.splits)
  next
    case False
    then have pos: "0 < nleft" by simp
    show ?thesis
    proof (cases x)
      case (Inl e)
      from rd_error [OF pos rd [unfolded Inl]] Inl rd pos less.prems show ?thesis
        by (auto simp: readn_loop.simps [of rd n nleft] split: if_splits)
    next
      case (Inr d)
      show ?thesis
      proof (cases "d = []")
        case True
        from rd_end [OF pos rd [unfolded Inr True]] True Inr rd pos less.prems show ?thesis
          by (auto simp: readn_loop.simps [of rd n nleft])
      next
        case False
        note d = rd_data [OF pos rd [unfolded Inr] False]
        have step: "readn_loop rd n (nleft - length d) (got @ d) s1 = (r, out, s')"
          using less.prems(3) False pos Inr rd by (simp add: readn_loop.simps [of rd n nleft])
        have nb: "blocked (tk s) = None" using d False by (cases d) auto
        have lt: "nleft - length d < nleft" "nleft - length d \<noteq> n"
          using False pos less.prems(1) by (cases d; simp)+
        show ?thesis
          using less.IH [OF lt(1) _ _ step] d lt less.prems(1,2) nb
          by (simp add: stream_simps split: option.splits)
      qed
    qed
  qed
qed

lemma readn_tokens:
  assumes "readn_loop rd n n [] s = (r, out, s')"
  shows "readn_spec n (tk s) = (r, out, tk s')"
  using readn_loop_tokens [OF _ _ assms] by (auto simp: readn_spec_def split: option.splits)

end

lemma read_src_tokens:
  "0 < n \<Longrightarrow> read_src n evs = (Inl e, evs') \<Longrightarrow> toks evs = Err e # toks evs'"
  "0 < n \<Longrightarrow> read_src n evs = (Inr d, evs') \<Longrightarrow> d \<noteq> [] \<Longrightarrow>
     length d \<le> n \<and> toks evs = map Byte d @ toks evs'"
  "0 < n \<Longrightarrow> read_src n evs = (Inr [], evs') \<Longrightarrow>
     toks evs = Eof # toks evs' \<or> toks evs = [] \<and> toks evs' = []"
  by (induction n evs rule: read_src.induct)
    (auto split: if_splits simp flip: map_append simp: append_eq_append_conv2)

interpretation src: byte_reader read_src toks
  by unfold_locales (auto dest: read_src_tokens)

lemma tread_tokens:
  "0 < n \<Longrightarrow> tread n evs = (Inl e, evs') \<Longrightarrow> ttoks evs = Err e # ttoks evs'"
  "0 < n \<Longrightarrow> tread n evs = (Inr d, evs') \<Longrightarrow> d \<noteq> [] \<Longrightarrow>
     length d \<le> n \<and> ttoks evs = map Byte d @ ttoks evs'"
  "0 < n \<Longrightarrow> tread n evs = (Inr [], evs') \<Longrightarrow>
     ttoks evs = Eof # ttoks evs' \<or> ttoks evs = [] \<and> ttoks evs' = []"
  by (cases "(n, evs)" rule: read_src.cases;
      auto simp: tread_def split: if_splits simp flip: map_append)+

interpretation timed: byte_reader tread ttoks
  by unfold_locales (auto dest: tread_tokens)

section \<open>Reads that call again after a signal\<close>

lemma readn_unp_loop_tokens:
  assumes "nleft \<le> n" and "length got = n - nleft"
    and "readn_unp_loop n nleft got evs = (r, out, evs')"
  shows "out = got @ lead nleft (calm (toks evs)) \<and>
    calm (toks evs') = after nleft (calm (toks evs)) \<and>
    r = (case blocked (drop (length (lead nleft (calm (toks evs)))) (calm (toks evs))) of
           Some e \<Rightarrow> if length (lead nleft (calm (toks evs))) < nleft then Inl e else Inr (length out)
         | None \<Rightarrow> Inr (length out))"
  using assms
proof (induction n nleft got evs rule: readn_unp_loop.induct)
  case (1 n nleft got evs)
  obtain x evs1 where rd: "read_src nleft evs = (x, evs1)" by (cases "read_src nleft evs")
  show ?case
  proof (cases "nleft = 0")
    case True
    with "1.prems" show ?thesis by (auto simp: readn_unp_loop.simps [of n 0] split: option.splits)
  next
    case False
    then have pos: "0 < nleft" by simp
    show ?thesis
    proof (cases x)
      case (Inl e)
      note tk = src.rd_error [OF pos rd [unfolded Inl]]
      show ?thesis
      proof (cases "e = EINTR")
        case True
        then have "readn_unp_loop n nleft got evs1 = (r, out, evs')"
          using "1.prems"(3) pos Inl rd by (simp add: readn_unp_loop.simps [of n nleft])
        note ih = "1.IH"(1) [OF False rd [symmetric] Inl True "1.prems"(1,2) this]
        have same: "calm (toks evs) = calm (toks evs1)" using True tk by simp
        show ?thesis unfolding same by (rule ih)
      next
        case False
        with tk Inl rd pos "1.prems" show ?thesis
          by (auto simp: readn_unp_loop.simps [of n nleft])
      qed
    next
      case (Inr d)
      show ?thesis
      proof (cases "d = []")
        case True
        from src.rd_end [OF pos rd [unfolded Inr True]] True Inr rd pos "1.prems" show ?thesis
          by (auto simp: readn_unp_loop.simps [of n nleft])
      next
        case ne: False
        note d = src.rd_data [OF pos rd [unfolded Inr] ne]
        have step: "readn_unp_loop n (nleft - length d) (got @ d) evs1 = (r, out, evs')"
          using "1.prems"(3) ne pos Inr rd by (simp add: readn_unp_loop.simps [of n nleft])
        have "length (got @ d) = n - (nleft - length d)" "nleft - length d \<le> n"
          using d "1.prems" by simp_all
        from "1.IH"(2) [OF False rd [symmetric] Inr ne this(2,1) step] d show ?thesis
          by (auto simp: stream_simps split: option.splits)
      qed
    qed
  qed
qed

lemma readn_unp_tokens:
  assumes "readn_unp n evs = (r, out, evs')"
  shows "readn_unp_spec n (calm (toks evs)) = (r, out, calm (toks evs'))"
  using readn_unp_loop_tokens [OF _ _ assms [unfolded readn_unp_def]]
  by (auto simp: readn_unp_spec_def)

section \<open>Writing\<close>

lemma write_snk_sent:
  "write_snk bs w = (Inr k, w') \<Longrightarrow> sent w' = sent w @ take k bs \<and> k \<le> length bs"
  "write_snk bs w = (Inl e, w') \<Longrightarrow> sent w' = sent w"
  by (auto simp: write_snk_def min_def split: list.splits wr_event.splits)

text \<open>
  Whatever the calls answer, the bytes written are a prefix of the buffer, each once, and a
  result that is not negative says how long it is.
\<close>

lemma writen_loop_sent:
  assumes "writen_loop n bs w = (r, w')" and "length bs \<le> n"
  shows "\<exists>k \<le> length bs. sent w' = sent w @ take k bs \<and>
    (r = int (n - length bs + k) \<or> r = -1 \<and> k = 0 \<and> length bs = n)"
  using assms
proof (induction n bs w rule: writen_loop.induct)
  case (1 n bs w)
  obtain x w1 where wr: "write_snk bs w = (x, w1)" by (cases "write_snk bs w")
  show ?case
  proof (cases "bs = [] \<or> (\<exists>e. x = Inl e) \<or> x = Inr 0")
    case True
    with "1.prems" wr show ?thesis
      by (auto simp: writen_loop.simps [of n bs] dest: write_snk_sent split: if_splits intro: exI [of _ 0])
  next
    case False
    then obtain k where ne: "bs \<noteq> []" and x: "x = Inr k" and k: "k \<noteq> 0" by (cases x) auto
    have step: "writen_loop n (drop k bs) w1 = (r, w')"
      using "1.prems"(1) ne x k wr by (simp add: writen_loop.simps [of n bs])
    note s1 = write_snk_sent(1) [OF wr [unfolded x]]
    have le: "length (drop k bs) \<le> n" using "1.prems"(2) by simp
    obtain j where j: "j \<le> length (drop k bs)" "sent w' = sent w1 @ take j (drop k bs)"
        "r = int (n - length (drop k bs) + j) \<or> r = -1 \<and> j = 0 \<and> length (drop k bs) = n"
      using "1.IH" [OF ne wr [symmetric] x k step le] by blast
    have "sent w' = sent w @ take (k + j) bs" using j(2) s1 by (simp add: take_add)
    moreover have "r = int (n - length bs + (k + j))"
      using j(1,3) s1 k "1.prems"(2) ne by (auto simp: of_nat_diff)
    ultimately show ?thesis using j(1) s1 by (intro exI [of _ "k + j"]) auto
  qed
qed

lemma writen_unp_loop_sent:
  assumes "writen_unp_loop n bs w = (r, w')"
  shows "\<exists>k \<le> length bs. sent w' = sent w @ take k bs \<and>
    (r = int n \<and> k = length bs \<or> r = -1 \<and> k < length bs)"
  using assms
proof (induction n bs w rule: writen_unp_loop.induct)
  case (1 n bs w)
  obtain x w1 where wr: "write_snk bs w = (x, w1)" by (cases "write_snk bs w")
  show ?case
  proof (cases "bs = [] \<or> x = Inr 0 \<or> (\<exists>e. x = Inl e \<and> e \<noteq> EINTR)")
    case True
    with "1.prems" wr show ?thesis
      by (auto simp: writen_unp_loop.simps [of n bs] dest: write_snk_sent split: if_splits
          intro: exI [of _ 0])
  next
    case stop: False
    then have ne: "bs \<noteq> []" by simp
    show ?thesis
    proof (cases x)
      case (Inl e)
      with stop have e: "e = EINTR" by simp
      then have "writen_unp_loop n bs w1 = (r, w')"
        using "1.prems" ne Inl wr by (simp add: writen_unp_loop.simps [of n bs])
      from "1.IH"(1) [OF ne wr [symmetric] Inl e this] write_snk_sent(2) [OF wr [unfolded Inl]]
      show ?thesis by simp
    next
      case (Inr k)
      with stop have k: "k \<noteq> 0" by simp
      then have "writen_unp_loop n (drop k bs) w1 = (r, w')"
        using "1.prems" ne Inr wr by (simp add: writen_unp_loop.simps [of n bs])
      from "1.IH"(2) [OF ne wr [symmetric] Inr k this] obtain j where
        j: "j \<le> length (drop k bs)" "sent w' = sent w1 @ take j (drop k bs)"
          "r = int n \<and> j = length (drop k bs) \<or> r = -1 \<and> j < length (drop k bs)" by blast
      note s1 = write_snk_sent(1) [OF wr [unfolded Inr]]
      have "sent w' = sent w @ take (k + j) bs" using j(2) s1 by (simp add: take_add)
      then show ?thesis using j(1,3) s1 by (intro exI [of _ "k + j"]) auto
    qed
  qed
qed

text \<open>The \<^verbatim>\<open>sock\<close> version after a failing call: the byte before the failure is sent again.\<close>

lemma writen_sock_resends:
  assumes "0 < k" and "k < length bs"
  shows "writen_sock bs \<lparr>sent = out, plan = [Took k, Wfail e]\<rparr> =
    Some (int (length bs), \<lparr>sent = out @ take k bs @ drop (k - 1) bs, plan = []\<rparr>)"
  using assms
  by (auto simp: writen_sock_def writen_sock_loop.simps [of bs] write_snk_def)

section \<open>Lines\<close>

fun readline_spec :: "nat \<Rightarrow> nat \<Rightarrow> char list \<Rightarrow> tok list \<Rightarrow> int \<times> char list \<times> tok list" where
  "readline_spec n maxlen out [] = (if n < maxlen then int n - 1 else int n, out @ [NUL], [])"
| "readline_spec n maxlen out (t # ts) =
     (if n < maxlen then
        case t of
          Byte c \<Rightarrow> if c = NEWLINE then (int n, out @ [c, NUL], ts)
                    else readline_spec (n + 1) maxlen (out @ [c]) ts
        | Eof \<Rightarrow> (int n - 1, out @ [NUL], ts)
        | Err e \<Rightarrow> (-1, out, ts)
      else (int n, out @ [NUL], t # ts))"

definition rl_ok :: "Rline \<Rightarrow> bool" where
  "rl_ok rl \<longleftrightarrow> rl_cnt rl \<le> 0 \<or> rl_bufptr rl + nat (rl_cnt rl) \<le> length (rl_buf rl)"

definition pending :: "Rline \<Rightarrow> char list" where
  "pending rl = slice_at (rl_bufptr rl) (nat (rl_cnt rl)) (rl_buf rl)"

definition rtoks :: "Rline \<Rightarrow> source \<Rightarrow> tok list" where
  "rtoks rl evs = map Byte (pending rl) @ calm (toks evs)"

lemma rl_fill_tokens:
  "rl_fill evs = (Inl e, evs') \<Longrightarrow> calm (toks evs) = Err e # calm (toks evs') \<and> e \<noteq> EINTR"
  "rl_fill evs = (Inr d, evs') \<Longrightarrow> d \<noteq> [] \<Longrightarrow> calm (toks evs) = map Byte d @ calm (toks evs')"
  "rl_fill evs = (Inr [], evs') \<Longrightarrow>
     calm (toks evs) = Eof # calm (toks evs') \<or> calm (toks evs) = [] \<and> calm (toks evs') = []"
proof (induction evs rule: rl_fill.induct)
  case (1 evs)
  obtain x evs1 where rd: "read_src MAXLINE evs = (x, evs1)" by (cases "read_src MAXLINE evs")
  { case 1
    with rd "1.IH"(1) [OF rd [symmetric]] show ?case
      by (cases x) (auto simp: rl_fill.simps [of evs] dest!: src.rd_error [rotated] split: if_splits)
  next
    case 2
    with rd "1.IH"(2) [OF rd [symmetric]] show ?case
      by (cases x) (auto simp: rl_fill.simps [of evs] dest!: src.rd_error [rotated]
          dest: src.rd_data [rotated] split: if_splits)
  next
    case 3
    with rd "1.IH"(3) [OF rd [symmetric]] show ?case
      by (cases x) (auto simp: rl_fill.simps [of evs] dest!: src.rd_error [rotated]
          dest!: src.rd_end [rotated] split: if_splits)
  }
qed

lemma rl_init_ok [simp]: "rl_ok rl_init" "pending rl_init = []"
  by (simp_all add: rl_ok_def rl_init_def pending_def slice_at_def)

lemma pending_empty [simp]: "rl_cnt rl \<le> 0 \<Longrightarrow> pending rl = []"
  by (simp add: pending_def slice_at_def)

text \<open>One byte of \<^verbatim>\<open>my_read\<close> is one token.\<close>

lemma my_read_tokens:
  assumes "rl_ok rl" and "my_read rl evs = (x, rl', evs')"
  shows "rl_ok rl' \<and>
    (case x of
       Inl e \<Rightarrow> rtoks rl evs = Err e # rtoks rl' evs'
     | Inr (Some c) \<Rightarrow> rtoks rl evs = Byte c # rtoks rl' evs'
     | Inr None \<Rightarrow> rtoks rl evs = Eof # rtoks rl' evs' \<or> rtoks rl evs = [] \<and> rtoks rl' evs' = [])"
proof (cases "rl_cnt rl \<le> 0")
  case False
  then have "0 < nat (rl_cnt rl)" "rl_bufptr rl + nat (rl_cnt rl) \<le> length (rl_buf rl)"
    using assms(1) by (simp_all add: rl_ok_def)
  then have p: "pending rl = rl_buf rl ! rl_bufptr rl #
      slice_at (Suc (rl_bufptr rl)) (nat (rl_cnt rl - 1)) (rl_buf rl)"
    by (simp add: pending_def slice_at_def nat_diff_distrib take_Cons' Cons_nth_drop_Suc [symmetric])
  with False assms show ?thesis
    by (auto simp: my_read_def rtoks_def rl_ok_def pending_def)
next
  case empty: True
  obtain y evs1 where fill: "rl_fill evs = (y, evs1)" by (cases "rl_fill evs")
  show ?thesis
  proof (cases y)
    case (Inl e)
    with empty fill assms rl_fill_tokens(1) [of evs e evs1] show ?thesis
      by (auto simp: my_read_def rtoks_def rl_ok_def)
  next
    case (Inr d)
    show ?thesis
    proof (cases d)
      case Nil
      with Inr empty fill assms rl_fill_tokens(3) [of evs evs1] show ?thesis
        by (auto simp: my_read_def rtoks_def rl_ok_def)
    next
      case (Cons c cs)
      with Inr empty fill assms rl_fill_tokens(2) [of evs d evs1] show ?thesis
        by (auto simp: my_read_def rtoks_def rl_ok_def pending_def slice_at_def overwrite_def)
    qed
  qed
qed

text \<open>The buffered reader and the byte-by-byte reader are the same function of the tokens.\<close>

lemma readline_loop_tokens:
  assumes "rl_ok rl" and "readline_loop n maxlen out rl evs = (r, out', rl', evs')"
  shows "rl_ok rl' \<and> readline_spec n maxlen out (rtoks rl evs) = (r, out', rtoks rl' evs')"
  using assms
proof (induction n maxlen out rl evs rule: readline_loop.induct)
  case (1 n maxlen out rl evs)
  obtain x rl1 evs1 where rd: "my_read rl evs = (x, rl1, evs1)" by (cases "my_read rl evs") auto
  note tk = my_read_tokens [OF "1.prems"(1) rd]
  show ?case
  proof (cases "n < maxlen")
    case False
    with "1.prems" show ?thesis
      by (cases "rtoks rl evs") (auto simp: readline_loop.simps [of n])
  next
    case lt: True
    show ?thesis
    proof (cases "\<exists>c. x = Inr (Some c) \<and> c \<noteq> NEWLINE")
      case True
      then obtain c where x: "x = Inr (Some c)" "c \<noteq> NEWLINE" by blast
      then have "readline_loop (n + 1) maxlen (out @ [c]) rl1 evs1 = (r, out', rl', evs')"
        using "1.prems"(2) lt rd by (simp add: readline_loop.simps [of n])
      from "1.IH" [OF lt rd [symmetric] x(1) refl refl x(2) _ this] tk x lt show ?thesis by simp
    next
      case False
      with "1.prems" lt rd tk show ?thesis
        by (cases x) (auto simp: readline_loop.simps [of n] split: option.splits if_splits)
    qed
  qed
qed

lemma readline1_loop_tokens:
  assumes "readline1_loop n maxlen out evs = (r, out', evs')"
  shows "readline_spec n maxlen out (calm (toks evs)) = (r, out', calm (toks evs'))"
  using assms
proof (induction n maxlen out evs rule: readline1_loop.induct)
  case (1 n maxlen out evs)
  obtain x evs1 where rd: "read_src 1 evs = (x, evs1)" by (cases "read_src 1 evs")
  show ?case
  proof (cases "n < maxlen")
    case False
    with "1.prems" show ?thesis
      by (cases "calm (toks evs)") (auto simp: readline1_loop.simps [of n])
  next
    case lt: True
    show ?thesis
    proof (cases x)
      case (Inl e)
      note tk = src.rd_error [OF _ rd [unfolded Inl]]
      show ?thesis
      proof (cases "e = EINTR")
        case True
        then have "readline1_loop n maxlen out evs1 = (r, out', evs')"
          using "1.prems" lt rd Inl by (simp add: readline1_loop.simps [of n])
        from "1.IH"(1) [OF lt rd [symmetric] Inl True this] True tk show ?thesis by simp
      next
        case False
        with "1.prems" lt rd Inl tk show ?thesis by (simp add: readline1_loop.simps [of n])
      qed
    next
      case (Inr d)
      show ?thesis
      proof (cases d)
        case Nil
        with "1.prems" lt rd Inr src.rd_end [of 1 evs evs1] show ?thesis
          by (auto simp: readline1_loop.simps [of n])
      next
        case (Cons c cs)
        then have tk: "toks evs = Byte c # toks evs1"
          using src.rd_data [of 1 evs d evs1] rd Inr by auto
        show ?thesis
        proof (cases "c = NEWLINE")
          case True
          with "1.prems" lt rd Inr Cons tk show ?thesis by (simp add: readline1_loop.simps [of n])
        next
          case False
          then have "readline1_loop (n + 1) maxlen (out @ [c]) evs1 = (r, out', evs')"
            using "1.prems" lt rd Inr Cons by (simp add: readline1_loop.simps [of n])
          from "1.IH"(2) [OF lt rd [symmetric] Inr Cons False this] tk lt False show ?thesis by simp
        qed
      qed
    qed
  qed
qed

text \<open>Reading a line that fits, and one that does not.\<close>

lemma readline_spec_line:
  "NEWLINE \<notin> set l \<Longrightarrow> n + length l < maxlen \<Longrightarrow>
     readline_spec n maxlen out (map Byte l @ Byte NEWLINE # ts) =
       (int (n + length l), out @ l @ [NEWLINE, NUL], ts)"
  by (induction l arbitrary: n out) auto

lemma readline_spec_long:
  "NEWLINE \<notin> set l \<Longrightarrow> n \<le> maxlen \<Longrightarrow> length l = maxlen - n \<Longrightarrow>
     readline_spec n maxlen out (map Byte l @ ts) = (int maxlen, out @ l @ [NUL], ts)"
proof (induction l arbitrary: n out)
  case Nil
  then show ?case by (cases ts) auto
qed auto

lemma readline_spec_stores:
  "n \<le> maxlen \<Longrightarrow> readline_spec n maxlen out ts = (r, out', ts') \<Longrightarrow>
     length out' \<le> length out + (maxlen - n) + 1"
  by (induction n maxlen out ts rule: readline_spec.induct)
    (auto split: if_splits tok.splits)

text \<open>\<^verbatim>\<open>readline_r\<close> at the end of the file: one more than the bytes it stored.\<close>

lemma readline_r_loop_eof:
  assumes "rl_ok rl" and "NEWLINE \<notin> set l" and "rtoks rl evs = map Byte l"
    and "n + length l < maxlen" and "n \<noteq> 1 \<or> l \<noteq> []"
    and "readline_r_loop n maxlen out rl evs = (r, out', rl', evs')" and "0 < n"
  shows "r = int (n + length l) \<and> out' = out @ l @ [NUL]"
  using assms
proof (induction l arbitrary: n out rl evs)
  case Nil
  obtain x rl1 evs1 where rd: "my_read rl evs = (x, rl1, evs1)" by (cases "my_read rl evs") auto
  from my_read_tokens [OF Nil.prems(1) rd] Nil.prems have "x = Inr None"
    by (auto split: sum.splits option.splits)
  with Nil.prems rd show ?case by (simp add: readline_r_loop.simps [of n])
next
  case (Cons c l)
  obtain x rl1 evs1 where rd: "my_read rl evs = (x, rl1, evs1)" by (cases "my_read rl evs") auto
  from my_read_tokens [OF Cons.prems(1) rd] Cons.prems(3)
  have x: "x = Inr (Some c)" "rl_ok rl1" "rtoks rl1 evs1 = map Byte l"
    by (auto split: sum.splits option.splits)
  with Cons.prems rd have "readline_r_loop (n + 1) maxlen (out @ [c]) rl1 evs1 = (r, out', rl', evs')"
    by (auto simp: readline_r_loop.simps [of n])
  from Cons.IH [OF x(2) _ x(3) _ _ this] Cons.prems show ?case by auto
qed

end
