(* ===== verification/Stream_Properties.thy ===== *)
theory Stream_Properties
  imports Stream_IO
begin

text \<open>
  What the reading and writing loops promise: results that do not depend on how the stream
  is cut into pieces, no byte lost or sent twice, and lines read through a buffer exactly as
  they are read byte by byte.
\<close>

text \<open>
  C17. How many bytes \<^verbatim>\<open>readn\<close> of \<^verbatim>\<open>apue.3e\<close>, the printer's \<^verbatim>\<open>treadn\<close> and
  \<^verbatim>\<open>readn\<close> of \<^verbatim>\<open>unpv13e\<close> return, which bytes they store and what they leave
  unread is a function of the bytes, errors and ends of file the descriptor delivers,
  however they are cut into reads: the bytes up to \<open>n\<close>, an end of file or an error; for a timed
  read a pause is an error, and the last of the three does not see interruptions.
\<close>

theorem readn_ignores_cuts:
  "(case readn n evs of (r, out, evs') \<Rightarrow> readn_spec n (toks evs) = (r, out, toks evs')) \<and>
   (case treadn n evs of (r, out, evs') \<Rightarrow> readn_spec n (ttoks evs) = (r, out, ttoks evs')) \<and>
   (case readn_unp n evs of (r, out, evs') \<Rightarrow>
      readn_unp_spec n (calm (toks evs)) = (r, out, calm (toks evs')))"
  by (auto simp: readn_def treadn_def split: prod.split
      intro: src.readn_tokens timed.readn_tokens readn_unp_tokens)

text \<open>
  C18. Whatever the \<^verbatim>\<open>write\<close> calls answer, both \<^verbatim>\<open>writen\<close> put a prefix of the
  buffer on the stream, every byte once and in order. A result of \<^verbatim>\<open>apue.3e\<close>'s version
  that is not \<open>-1\<close> is the length of that prefix, and \<open>-1\<close> means nothing was written;
  \<^verbatim>\<open>unpv13e\<close>'s version returns the whole length or, having written less, \<open>-1\<close>.
\<close>

theorem writen_prefix_once:
  "(case writen bs w of (r, w') \<Rightarrow> \<exists>k \<le> length bs. sent w' = sent w @ take k bs \<and>
      (r = int k \<or> r = -1 \<and> k = 0)) \<and>
   (case writen_unp bs w of (r, w') \<Rightarrow> \<exists>k \<le> length bs. sent w' = sent w @ take k bs \<and>
      (r = int (length bs) \<and> k = length bs \<or> r = -1 \<and> k < length bs))"
proof (intro conjI; clarsimp split: prod.split)
  fix r w'
  assume "writen bs w = (r, w')"
  from writen_loop_sent [OF this [unfolded writen_def]]
  show "\<exists>k \<le> length bs. sent w' = sent w @ take k bs \<and> (r = int k \<or> r = -1 \<and> k = 0)" by auto
next
  fix r w'
  assume "writen_unp bs w = (r, w')"
  from writen_unp_loop_sent [OF this [unfolded writen_unp_def]]
  show "\<exists>k \<le> length bs. sent w' = sent w @ take k bs \<and>
      (r = int (length bs) \<and> k = length bs \<or> r = -1 \<and> k < length bs)" .
qed

text \<open>
  C19. \<^verbatim>\<open>readline\<close> with its read-ahead buffer is \<^verbatim>\<open>readline\<close> that reads one byte
  per call: on streams that deliver the same bytes, errors and ends of file (the buffered
  ones first), both return the same value, store the same bytes, and leave the same stream
  behind, so that the same holds of every later call.
\<close>

theorem readline_buffered_eq_bytewise:
  assumes "rl_ok rl" and "calm (toks evs1) = rtoks rl evs"
    and "readline maxlen rl evs = (r, out, rl', evs')"
  shows "\<exists>evs1'. readline1 maxlen evs1 = (r, out, evs1') \<and>
    calm (toks evs1') = rtoks rl' evs' \<and> rl_ok rl'"
proof -
  obtain r1 out1 evs1' where one: "readline1 maxlen evs1 = (r1, out1, evs1')"
    by (cases "readline1 maxlen evs1")
  from readline1_loop_tokens [OF one [unfolded readline1_def]]
    readline_loop_tokens [OF assms(1) assms(3) [unfolded readline_def]] assms(2) one
  show ?thesis by simp
qed

theorem readline_buffered_eq_bytewise_witness:
  "\<exists>evs1'. readline1 10 [Data ''a'', Rfail EINTR, Data ''b'', Data [NEWLINE], Data ''c''] =
      (3, ''ab'' @ [NEWLINE, NUL], evs1') \<and>
    calm (toks evs1') =
      rtoks \<lparr>rl_cnt = 1, rl_bufptr = 3, rl_buf = ''ab'' @ [NEWLINE] @ ''c''\<rparr> [] \<and>
    rl_ok \<lparr>rl_cnt = 1, rl_bufptr = 3, rl_buf = ''ab'' @ [NEWLINE] @ ''c''\<rparr>"
  by (rule readline_buffered_eq_bytewise [where rl = rl_init and
        evs = "[Rfail EINTR, Data (''ab'' @ [NEWLINE] @ ''c'')]"])
    (simp, simp add: rtoks_def, code_simp)

text \<open>
  C20. A line that fits is stored whole with its newline and a null byte, and the result is
  its length. Of a line that does not fit, \<open>maxlen - 1\<close> bytes are stored and a null byte,
  but the result is \<open>maxlen\<close>: one more than the bytes read. No call stores more than \<open>maxlen\<close>
  bytes.
\<close>

theorem readline_lines:
  assumes "rl_ok rl" and "0 < maxlen" and "NEWLINE \<notin> set l"
    and "readline maxlen rl evs = (r, out, rl', evs')"
  shows "length out \<le> maxlen \<and>
    (rtoks rl evs = map Byte l @ Byte NEWLINE # ts \<and> Suc (length l) < maxlen \<longrightarrow>
      r = int (length (l @ [NEWLINE])) \<and> out = l @ [NEWLINE, NUL] \<and> rtoks rl' evs' = ts) \<and>
    (rtoks rl evs = map Byte l @ ts \<and> Suc (length l) = maxlen \<longrightarrow>
      r = int (length l) + 1 \<and> out = l @ [NUL] \<and> rtoks rl' evs' = ts)"
proof -
  note sp = readline_loop_tokens [OF assms(1) assms(4) [unfolded readline_def]]
  have "length out \<le> maxlen"
    using readline_spec_stores [of 1 maxlen "[]" _ r out] sp assms(2) by auto
  moreover have "r = int (length (l @ [NEWLINE])) \<and> out = l @ [NEWLINE, NUL] \<and> rtoks rl' evs' = ts"
    if "rtoks rl evs = map Byte l @ Byte NEWLINE # ts" "Suc (length l) < maxlen"
    using readline_spec_line [OF assms(3), of 1 maxlen "[]" ts] sp that by simp
  moreover have "r = int (length l) + 1 \<and> out = l @ [NUL] \<and> rtoks rl' evs' = ts"
    if "rtoks rl evs = map Byte l @ ts" "Suc (length l) = maxlen"
    using readline_spec_long [OF assms(3), of 1 maxlen "[]" ts] sp that by auto
  ultimately show ?thesis by blast
qed

theorem readline_lines_witness:
  "readline 4 rl_init [Data ''abcd''] =
     (4, ''abc'' @ [NUL], \<lparr>rl_cnt = 1, rl_bufptr = 3, rl_buf = ''abcd''\<rparr>, []) \<and>
   (4::int) = int (length ''abc'') + 1 \<and>
   rtoks \<lparr>rl_cnt = 1, rl_bufptr = 3, rl_buf = ''abcd''\<rparr> [] = [Byte (CHR ''d'')]"
proof -
  have run: "readline 4 rl_init [Data ''abcd''] =
     (4, ''abc'' @ [NUL], \<lparr>rl_cnt = 1, rl_bufptr = 3, rl_buf = ''abcd''\<rparr>, [])" by code_simp
  have "rtoks rl_init [Data ''abcd''] = map Byte ''abc'' @ [Byte (CHR ''d'')]"
    by (simp add: rtoks_def)
  with readline_lines [OF rl_init_ok(1) _ _ run, of "''abc''" "[Byte (CHR ''d'')]"] run
  show ?thesis by simp
qed

end
