(* ===== verification/Print_Proto.thy ===== *)
theory Print_Proto
  imports Stream_IO
begin

text \<open>
  The protocol between \<^verbatim>\<open>print\<close> and \<^verbatim>\<open>printd\<close> (\<^verbatim>\<open>apue.3e/printer/print.h\<close>):
  the two structures, their memory images on a little-endian machine, which are what goes
  over the socket, and the client, \<^verbatim>\<open>submit_file\<close> of \<^verbatim>\<open>print.c\<close>. Memory the C code
  does not initialize is an argument.
\<close>

named_theorems proto_simps

section \<open>Definitions\<close>

subsection \<open>Words and byte order\<close>

definition le32 :: "32 word \<Rightarrow> char list" where
  "le32 w =
     [char_of (unat w), char_of (unat w div 256), char_of (unat w div 65536),
      char_of (unat w div 16777216)]"

definition of_le32 :: "char list \<Rightarrow> 32 word" where
  "of_le32 bs =
     of_nat (of_char (bs ! 0) + 256 * of_char (bs ! 1) + 65536 * of_char (bs ! 2)
             + 16777216 * of_char (bs ! 3))"

text \<open>\<^verbatim>\<open>htonl\<close>, which is also \<^verbatim>\<open>ntohl\<close>: the four bytes in the opposite order.\<close>

definition htonl :: "32 word \<Rightarrow> 32 word" where
  "htonl w = of_le32 (rev (le32 w))"

abbreviation ntohl :: "32 word \<Rightarrow> 32 word" where
  "ntohl \<equiv> htonl"

subsection \<open>Strings into fixed buffers\<close>

definition strcpy :: "char list \<Rightarrow> string \<Rightarrow> char list" where
  "strcpy dst s = overwrite dst 0 (s @ [NUL])"

definition strncpy :: "char list \<Rightarrow> string \<Rightarrow> nat \<Rightarrow> char list" where
  "strncpy dst s n = overwrite dst 0 (take n (s @ replicate n NUL))"

definition strncat :: "char list \<Rightarrow> string \<Rightarrow> nat \<Rightarrow> char list" where
  "strncat dst s n = overwrite dst (length (cstr dst)) (take n s @ [NUL])"

subsection \<open>The structures\<close>

abbreviation (input) USERNM_MAX :: nat where "USERNM_MAX \<equiv> 64"
abbreviation (input) JOBNM_MAX :: nat where "JOBNM_MAX \<equiv> 256"
abbreviation (input) MSGLEN_MAX :: nat where "MSGLEN_MAX \<equiv> 512"
abbreviation (input) IOBUFSZ :: nat where "IOBUFSZ \<equiv> 8192"

definition PR_TEXT :: "32 word" where "PR_TEXT = 1"

record printreq =
  req_size :: "32 word"
  flags :: "32 word"
  usernm :: "char list"
  jobnm :: "char list"

record printresp =
  retcode :: "32 word"
  res_jobid :: "32 word"
  msg :: "char list"

definition wf_req :: "printreq \<Rightarrow> bool" where
  "wf_req r \<longleftrightarrow> length (usernm r) = USERNM_MAX \<and> length (jobnm r) = JOBNM_MAX"

definition wf_res :: "printresp \<Rightarrow> bool" where
  "wf_res r \<longleftrightarrow> length (msg r) = MSGLEN_MAX"

definition sizeof_req :: nat where "sizeof_req = 8 + USERNM_MAX + JOBNM_MAX"
definition sizeof_res :: nat where "sizeof_res = 8 + MSGLEN_MAX"

definition req_bytes :: "printreq \<Rightarrow> char list" where
  "req_bytes r = le32 (req_size r) @ le32 (flags r) @ usernm r @ jobnm r"

definition bytes_req :: "char list \<Rightarrow> printreq" where
  "bytes_req bs =
     \<lparr>req_size = of_le32 (take 4 bs), flags = of_le32 (take 4 (drop 4 bs)),
      usernm = take USERNM_MAX (drop 8 bs), jobnm = take JOBNM_MAX (drop 72 bs)\<rparr>"

definition res_bytes :: "printresp \<Rightarrow> char list" where
  "res_bytes r = le32 (retcode r) @ le32 (res_jobid r) @ msg r"

definition bytes_res :: "char list \<Rightarrow> printresp" where
  "bytes_res bs =
     \<lparr>retcode = of_le32 (take 4 bs), res_jobid = of_le32 (take 4 (drop 4 bs)),
      msg = take MSGLEN_MAX (drop 8 bs)\<rparr>"

subsection \<open>The client\<close>

text \<open>
  The request \<^verbatim>\<open>submit_file\<close> builds in the uninitialized structure \<open>req0\<close>;
  \<open>pwd\<close> is what \<^verbatim>\<open>getpwuid\<close> answers.
\<close>

definition submit_user :: "string option \<Rightarrow> char list \<Rightarrow> char list" where
  "submit_user pwd buf =
     (case pwd of
        None \<Rightarrow> strcpy buf ''unknown''
      | Some pw_name \<Rightarrow> (strncpy buf pw_name (USERNM_MAX - 1)) [USERNM_MAX - 1 := NUL])"

definition submit_jobnm :: "string \<Rightarrow> char list \<Rightarrow> char list" where
  "submit_jobnm fname buf =
     (let len = length fname
      in if len \<ge> JOBNM_MAX
         then strncat (strcpy buf ''... '') (drop (len - JOBNM_MAX + 5) fname) (JOBNM_MAX - 5)
         else strcpy buf fname)"

definition submit_req :: "printreq \<Rightarrow> string option \<Rightarrow> string \<Rightarrow> nat \<Rightarrow> bool \<Rightarrow> printreq" where
  "submit_req req0 pwd fname nbytes text =
     req0\<lparr>usernm := submit_user pwd (usernm req0), req_size := htonl (of_nat nbytes),
          flags := (if text then htonl PR_TEXT else 0), jobnm := submit_jobnm fname (jobnm req0)\<rparr>"

text \<open>
  How \<^verbatim>\<open>print\<close> ends. \<open>WildWrite\<close>: the file's \<^verbatim>\<open>read\<close> failed, and its result
  \<open>-1\<close> goes to \<^verbatim>\<open>writen\<close> as the number of bytes of an 8192-byte buffer.
\<close>

datatype client_end =
    JobId "32 word"
  | Rejected string
  | CantWrite
  | ShortWrite int nat
  | NoResponse
  | WildWrite

function send_file :: "source \<Rightarrow> sink \<Rightarrow> (client_end + unit) \<times> sink" where
  "send_file fd sock =
     (case read_src IOBUFSZ fd of
        (Inl e, _) \<Rightarrow> (Inl WildWrite, sock)
      | (Inr buf, fd') \<Rightarrow>
          if buf = [] then (Inr (), sock)
          else case writen buf sock of
              (nw, sock') \<Rightarrow>
                if nw \<noteq> int (length buf)
                then (Inl (if nw < 0 then CantWrite else ShortWrite nw (length buf)), sock')
                else send_file fd' sock')"
  by pat_completeness auto
termination
  by (relation "measure (\<lambda>(fd, sock). weight fd)") (auto dest: read_src_weight [rotated, OF sym])

definition read_response :: "source \<Rightarrow> client_end" where
  "read_response inp =
     (case readn sizeof_res inp of
        (nr, bs, _) \<Rightarrow>
          if nr \<noteq> Inr sizeof_res then NoResponse
          else let res = bytes_res bs
               in if retcode res \<noteq> 0 then Rejected (cstr (msg res))
                  else JobId (ntohl (res_jobid res)))"

definition submit_file ::
  "printreq \<Rightarrow> string option \<Rightarrow> string \<Rightarrow> nat \<Rightarrow> bool \<Rightarrow> source \<Rightarrow> sink \<Rightarrow> source \<Rightarrow> client_end \<times> sink"
where
  "submit_file req0 pwd fname nbytes text fd sock inp =
     (case writen (req_bytes (submit_req req0 pwd fname nbytes text)) sock of
        (nw, sock') \<Rightarrow>
          if nw \<noteq> int sizeof_req
          then (if nw < 0 then CantWrite else ShortWrite nw sizeof_req, sock')
          else case send_file fd sock' of
              (Inl r, sock'') \<Rightarrow> (r, sock'')
            | (Inr _, sock'') \<Rightarrow> (read_response inp, sock''))"

section \<open>Memory images\<close>

declare send_file.simps [simp del]

lemma length_le32 [simp]: "length (le32 w) = 4"
  by (simp add: le32_def)

text \<open>A number below \<open>2 ^ 32\<close> and its four digits to the base 256.\<close>

lemma base256_split:
  assumes "n < (4294967296::nat)"
  shows "n mod 256 + 256 * (n div 256 mod 256) + 65536 * (n div 65536 mod 256)
      + 16777216 * (n div 16777216 mod 256) = n"
proof -
  have d: "n div 65536 = n div 256 div 256" "n div 16777216 = n div 256 div 256 div 256"
    by (simp_all add: div_mult2_eq [symmetric])
  have "n div 256 div 256 div 256 < 256" using assms unfolding d(2) [symmetric]
    by (simp add: less_mult_imp_div_less)
  then have "n div 256 div 256 div 256 mod 256 = n div 256 div 256 div 256" by simp
  moreover have "n = n mod 256 + 256 * (n div 256)" by simp
  moreover have "n div 256 = n div 256 mod 256 + 256 * (n div 256 div 256)" by simp
  moreover have "n div 256 div 256 = n div 256 div 256 mod 256 + 256 * (n div 256 div 256 div 256)" by simp
  ultimately show ?thesis unfolding d by linarith
qed

lemma base256_digits:
  fixes a b c d :: nat
  assumes "a < 256" "b < 256" "c < 256" "d < 256"
  defines "n \<equiv> a + 256 * b + 65536 * c + 16777216 * d"
  shows "n mod 256 = a" "n div 256 mod 256 = b" "n div 65536 mod 256 = c" "n div 16777216 mod 256 = d"
    "n < 4294967296"
proof -
  have n: "n = a + 256 * (b + 256 * (c + 256 * d))" by (simp add: n_def)
  have d: "n div 65536 = n div 256 div 256" "n div 16777216 = n div 256 div 256 div 256"
    by (simp_all add: div_mult2_eq [symmetric])
  have step: "(x + 256 * y) div 256 = y" "(x + 256 * y) mod 256 = x" if "x < 256" for x y :: nat
    using that by simp_all
  have e1: "n div 256 = b + 256 * (c + 256 * d)" unfolding n using assms(1) by (rule step(1))
  have e2: "n div 65536 = c + 256 * d" unfolding d(1) e1 using assms(2) by (rule step(1))
  have e3: "n div 16777216 = d" unfolding d(2) e1 using assms(2,3) by (simp only: step(1))
  show "n mod 256 = a" unfolding n using assms(1) by (rule step(2))
  show "n div 256 mod 256 = b" unfolding e1 using assms(2) by (rule step(2))
  show "n div 65536 mod 256 = c" unfolding e2 using assms(3) by (rule step(2))
  show "n div 16777216 mod 256 = d" unfolding e3 using assms(4) by simp
  show "n < 4294967296" using assms(1-4) unfolding n_def by linarith
qed

lemma of_le32_le32 [simp]: "of_le32 (le32 w) = w"
proof -
  have "unat w < 4294967296" using unsigned_less [of w] by simp
  then have "of_le32 (le32 w) = of_nat (unat w)"
    using base256_split [of "unat w"] by (simp add: of_le32_def le32_def)
  then show ?thesis by simp
qed

lemma le32_of_le32:
  assumes "length bs = 4"
  shows "le32 (of_le32 bs) = bs"
proof -
  obtain a b c d where bs: "bs = [a, b, c, d]"
    using assms by (auto simp: numeral_eq_Suc length_Suc_conv)
  let ?n = "of_char a + 256 * of_char b + 65536 * of_char c + 16777216 * (of_char d :: nat)"
  note dg = base256_digits [of "of_char a" "of_char b" "of_char c" "of_char d"]
  have "unat (of_le32 bs) = ?n"
    using dg(5) unfolding bs of_le32_def by (subst unat_of_nat) (simp add: take_bit_eq_mod)
  moreover have "char_of m = x" if "m mod 256 = of_char x" for m :: nat and x :: char
    using that by (metis char_of_mod_256 char_of_char)
  ultimately show ?thesis
    using dg(1-4) by (simp add: bs le32_def)
qed

lemma htonl_htonl [simp]: "htonl (htonl w) = w"
  by (simp add: htonl_def le32_of_le32)

lemma length_req_bytes [proto_simps]: "wf_req r \<Longrightarrow> length (req_bytes r) = sizeof_req"
  by (simp add: req_bytes_def wf_req_def sizeof_req_def)

lemma length_res_bytes [proto_simps]: "wf_res r \<Longrightarrow> length (res_bytes r) = sizeof_res"
  by (simp add: res_bytes_def wf_res_def sizeof_res_def)

lemma bytes_req_req_bytes [proto_simps]: "wf_req r \<Longrightarrow> bytes_req (req_bytes r) = r"
  by (cases r) (simp add: req_bytes_def bytes_req_def wf_req_def)

lemma bytes_res_res_bytes [proto_simps]: "wf_res r \<Longrightarrow> bytes_res (res_bytes r) = r"
  by (cases r) (simp add: res_bytes_def bytes_res_def wf_res_def)

lemma wf_bytes_req [proto_simps]: "length bs = sizeof_req \<Longrightarrow> wf_req (bytes_req bs)"
  by (simp add: bytes_req_def wf_req_def sizeof_req_def)

lemma req_bytes_bytes_req [proto_simps]:
  assumes "length bs = sizeof_req"
  shows "req_bytes (bytes_req bs) = bs"
proof -
  have "take 4 bs @ take 4 (drop 4 bs) @ take 64 (drop 8 bs) @ take 256 (drop 72 bs) = bs"
    using assms by (simp add: sizeof_req_def take_add [symmetric] flip: append_assoc)
  then show ?thesis
    using assms by (simp add: req_bytes_def bytes_req_def le32_of_le32 sizeof_req_def)
qed

section \<open>Signed 32-bit numbers\<close>

lemma sint32: "sint (w :: 32 word) = (if uint w < 2147483648 then uint w else uint w - 2 * 2147483648)"
proof -
  have u: "0 \<le> uint w" "uint w < 2 * 2147483648"
    using unsigned_less [of w, where ?'a = int] by simp_all
  have "sint w = (uint w + 2147483648) mod (2 * 2147483648) - 2147483648"
    by (simp add: sint_uint signed_take_bit_eq_take_bit_shift take_bit_eq_mod)
  then show ?thesis using shift_mod [OF u] by simp
qed

lemma sint_pos_iff: "0 < sint (w :: 32 word) \<longleftrightarrow> 0 < unat w \<and> unat w < 2147483648"
proof -
  have u: "0 \<le> uint w" "uint w < 2 * 2147483648"
    using unsigned_less [of w, where ?'a = int] by simp_all
  have "0 < sint w \<longleftrightarrow> 0 < uint w \<and> uint w < 2147483648" using u by (auto simp: sint32)
  also have "\<dots> \<longleftrightarrow> 0 < nat (uint w) \<and> nat (uint w) < 2147483648"
    using u(1) by (simp add: nat_less_iff del: nat_uint_eq)
  finally show ?thesis by simp
qed

lemma sint_small: "n < 2147483648 \<Longrightarrow> sint (word_of_int (int n) :: 32 word) = int n"
  by (simp add: sint32 unsigned_of_nat take_bit_eq_mod)

section \<open>The client's request\<close>

lemma cstr_terminated: "NUL \<notin> set s \<Longrightarrow> cstr (s @ NUL # t) = s"
  by (simp add: cstr_def)

lemma strcpy_fits:
  "NUL \<notin> set s \<Longrightarrow> length s < length buf \<Longrightarrow>
     length (strcpy buf s) = length buf \<and> cstr (strcpy buf s) = s"
  by (simp add: strcpy_def overwrite_def cstr_terminated)

lemma submit_user_field:
  assumes "length buf = USERNM_MAX" and "\<And>n. pwd = Some n \<Longrightarrow> NUL \<notin> set n"
  shows "length (submit_user pwd buf) = USERNM_MAX \<and>
    cstr (submit_user pwd buf) =
      (case pwd of None \<Rightarrow> ''unknown'' | Some n \<Rightarrow> take (USERNM_MAX - 1) n)"
proof (cases pwd)
  case None
  then show ?thesis using assms(1) strcpy_fits [of "''unknown''" buf] by (simp add: submit_user_def)
next
  case (Some n)
  let ?t = "take 63 (n @ replicate 63 NUL)"
  have lt: "length ?t = 63" by simp
  obtain x where x: "drop 63 buf = [x]"
    using assms(1) length_drop [of 63 buf]
    by (cases "drop 63 buf"; cases "tl (drop 63 buf)") (auto simp del: length_drop)
  have "strncpy buf n 63 = ?t @ [x]"
    using lt x by (simp add: strncpy_def overwrite_def del: take_append)
  then have "submit_user pwd buf = ?t @ [NUL]"
    using lt by (simp add: submit_user_def Some list_update_append del: take_append)
  moreover have "cstr (?t @ [NUL]) = take 63 n"
  proof -
    have "?t @ [NUL] = take 63 n @ NUL # replicate (63 - length n) NUL"
      by (simp add: replicate_append_same [symmetric] take_replicate)
    moreover have "NUL \<notin> set (take 63 n)" using assms(2) [OF Some] by (auto dest: in_set_takeD)
    ultimately show ?thesis using cstr_terminated by metis
  qed
  ultimately show ?thesis by (simp add: Some)
qed

lemma submit_jobnm_field:
  assumes "length buf = JOBNM_MAX" and "NUL \<notin> set fname"
  shows "length (submit_jobnm fname buf) = JOBNM_MAX \<and>
    cstr (submit_jobnm fname buf) =
      (if length fname < JOBNM_MAX then fname else ''... '' @ drop (length fname - 251) fname)"
proof (cases "length fname < JOBNM_MAX")
  case True
  then show ?thesis using assms strcpy_fits [of fname buf] by (simp add: submit_jobnm_def)
next
  case False
  let ?t = "drop (length fname - 251) fname"
  have c: "cstr (strcpy buf ''... '') = ''... ''" "length (strcpy buf ''... '') = 256"
    using assms(1) strcpy_fits [of "''... ''" buf] by simp_all
  have len: "length ?t = 251" using False by simp
  have tk: "take (Suc (Suc (Suc (Suc 0)))) (strcpy buf ''... '') = ''... ''" using assms(1) by (simp add: strcpy_def overwrite_def)
  have "submit_jobnm fname buf = strncat (strcpy buf ''... '') ?t 251"
    using False by (simp add: submit_jobnm_def Let_def)
  also have "\<dots> = (''... '' @ ?t) @ NUL # []"
    using len tk by (simp add: strncat_def c overwrite_inside)
  finally have e: "submit_jobnm fname buf = (''... '' @ ?t) @ NUL # []" .
  have "NUL \<notin> set (''... '' @ ?t)" using assms(2) by (auto dest: in_set_dropD)
  from cstr_terminated [OF this, of "[]"] show ?thesis unfolding e using False len by simp
qed

lemma wf_submit_req:
  assumes "wf_req req0" and "\<And>n. pwd = Some n \<Longrightarrow> NUL \<notin> set n" and "NUL \<notin> set fname"
  shows "wf_req (submit_req req0 pwd fname nbytes text)"
  using assms submit_user_field [of "usernm req0" pwd] submit_jobnm_field [of "jobnm req0" fname]
  by (simp add: wf_req_def submit_req_def)

text \<open>On streams that take everything the client sends the request and the file.\<close>

definition steady :: "sink \<Rightarrow> bool" where
  "steady w \<longleftrightarrow> plan w = []"

lemma writen_steady: "steady w \<Longrightarrow> writen bs w = (int (length bs), w\<lparr>sent := sent w @ bs\<rparr>)"
  by (cases w) (simp add: writen_def writen_loop.simps [of _ bs] writen_loop.simps [of _ "[]"] write_snk_def steady_def)

text \<open>The bytes of a regular file, read to its end.\<close>

fun file_data :: "source \<Rightarrow> char list option" where
  "file_data [] = Some []"
| "file_data (Data d # evs) = (if d = [] then Some [] else map_option ((@) d) (file_data evs))"
| "file_data (Quiet # evs) = file_data evs"
| "file_data (Rfail e # evs) = None"

lemma read_src_file_data:
  "0 < n \<Longrightarrow> file_data evs = Some bs \<Longrightarrow> read_src n evs = (x, evs') \<Longrightarrow>
     \<exists>d. x = Inr d \<and> (if d = [] then bs = [] else \<exists>cs. bs = d @ cs \<and> file_data evs' = Some cs)"
proof (induction n evs arbitrary: bs rule: read_src.induct)
  case (2 n d evs)
  show ?case
  proof (cases "d = []")
    case True
    with "2.prems" show ?thesis by auto
  next
    case ne: False
    with "2.prems"(2) obtain cs where cs: "file_data evs = Some cs" "bs = d @ cs" by auto
    show ?thesis
    proof (cases "length d \<le> n")
      case True
      with "2.prems"(3) ne cs show ?thesis by auto
    next
      case False
      then have "x = Inr (take n d)" "evs' = Data (drop n d) # evs" using "2.prems"(3) by auto
      moreover have "bs = take n d @ drop n d @ cs" using cs(2) by (simp flip: append_assoc)
      ultimately show ?thesis using False ne cs(1) "2.prems"(1) by simp
    qed
  qed
qed auto

lemma send_file_steady:
  assumes "steady w" and "file_data fd = Some bs"
  shows "send_file fd w = (Inr (), w\<lparr>sent := sent w @ bs\<rparr>)"
  using assms
proof (induction fd w arbitrary: bs rule: send_file.induct)
  case (1 fd w)
  obtain x fd' where rd: "read_src IOBUFSZ fd = (x, fd')" by (cases "read_src IOBUFSZ fd")
  obtain d where x: "x = Inr d"
    and d: "if d = [] then bs = [] else \<exists>cs. bs = d @ cs \<and> file_data fd' = Some cs"
    using read_src_file_data [OF _ "1.prems"(2) rd] by auto
  show ?case
  proof (cases "d = []")
    case True
    with d rd x show ?thesis by (simp add: send_file.simps [of fd])
  next
    case False
    with d obtain cs where cs: "bs = d @ cs" "file_data fd' = Some cs" by auto
    have w: "writen d w = (int (length d), w\<lparr>sent := sent w @ d\<rparr>)"
      using "1.prems"(1) by (rule writen_steady)
    have "send_file fd' (w\<lparr>sent := sent w @ d\<rparr>) = (Inr (), w\<lparr>sent := sent w @ d @ cs\<rparr>)"
      using "1.IH" [OF rd [symmetric] x False w [symmetric] _ _ cs(2)] "1.prems"(1)
      by (simp add: steady_def)
    then show ?thesis using rd x False w cs(1) by (simp add: send_file.simps [of fd])
  qed
qed

end
