(* ===== verification/Job_Queue.thy ===== *)
theory Job_Queue
  imports Print_Proto
begin

text \<open>
  The two linked lists of \<^verbatim>\<open>apue.3e/printer/printd.c\<close> on an explicit heap: the
  doubly linked list of pending jobs (\<open>add_job\<close>, \<open>replace_job\<close>, \<open>remove_job\<close>) and
  the list of worker threads (\<open>add_worker\<close>, \<open>kill_workers\<close>, \<open>client_cleanup\<close>).
  Following a pointer to memory that is not allocated ends the run with
 \<open>BadPtr\<close>; addresses are not used again after \<^verbatim>\<open>free\<close>, so that a pointer
  that was left behind is always seen. The job list implements the locale \<open>job_fifo\<close>; for the
  worker list it is shown where it does not hold what it should.
\<close>

named_theorems queue_simps

section \<open>Definitions\<close>

type_synonym ptr = "nat option"

record job =
  next_job :: ptr
  prev_job :: ptr
  jobid :: "32 word"
  req :: printreq

record worker_thread =
  next_worker :: ptr
  prev_worker :: ptr
  tid :: nat
  sockfd :: int

text \<open>
  The globals for the lists. \<open>printer_waits\<close>: the printer thread sleeps on
  \<^verbatim>\<open>jobwait\<close>. \<open>open_socks\<close> are the client sockets that are open, \<open>cancelled\<close>
  the threads \<^verbatim>\<open>pthread_cancel\<close> was called for.
\<close>

record lists =
  jobs :: "nat \<Rightarrow> job option"
  job_brk :: nat
  jobhead :: ptr
  jobtail :: ptr
  printer_waits :: bool
  wthreads :: "nat \<Rightarrow> worker_thread option"
  worker_brk :: nat
  workers :: ptr
  open_socks :: "int list"
  cancelled :: "nat list"

datatype pd_err = BadPtr | Diverges | LogSys string | LogQuit string | Exit int | Overrun string

type_synonym ('x, 'a) pdm = "('x lists_scheme, pd_err, 'a) cm"

subsection \<open>Jobs\<close>

definition get_job :: "nat \<Rightarrow> ('x, job) pdm" where
  "get_job a = (\<lambda>s. case jobs s a of None \<Rightarrow> Inl BadPtr | Some j \<Rightarrow> Inr (j, s))"

definition upd_job :: "nat \<Rightarrow> (job \<Rightarrow> job) \<Rightarrow> ('x, unit) pdm" where
  "upd_job a f =
     (\<lambda>s. case jobs s a of
        None \<Rightarrow> Inl BadPtr
      | Some j \<Rightarrow> Inr ((), s\<lparr>jobs := (jobs s)(a \<mapsto> f j)\<rparr>))"

text \<open>\<^verbatim>\<open>malloc\<close> and the two assignments before the lock; \<open>oom\<close>: no memory.\<close>

definition new_job :: "bool \<Rightarrow> printreq \<Rightarrow> 32 word \<Rightarrow> ('x, nat) pdm" where
  "new_job oom r i =
     (\<lambda>s. if oom then Inl (LogSys ''malloc failed'')
          else Inr (job_brk s,
             s\<lparr>jobs := (jobs s)(job_brk s \<mapsto>
                 \<lparr>next_job = None, prev_job = None, jobid = i, req = r\<rparr>),
               job_brk := Suc (job_brk s)\<rparr>))"

definition free_job :: "nat \<Rightarrow> ('x, unit) pdm" where
  "free_job a = modify (\<lambda>s. s\<lparr>jobs := (jobs s)(a := None)\<rparr>)"

definition link_tail :: "nat \<Rightarrow> ('x, unit) pdm" where
  "link_tail jp =
     bnd (gets jobtail) (\<lambda>t.
     thn (upd_job jp (\<lambda>j. j\<lparr>prev_job := t\<rparr>)) (
     thn (case t of
            None \<Rightarrow> modify (\<lambda>s. s\<lparr>jobhead := Some jp\<rparr>)
          | Some a \<Rightarrow> upd_job a (\<lambda>j. j\<lparr>next_job := Some jp\<rparr>)) (
     modify (\<lambda>s. s\<lparr>jobtail := Some jp\<rparr>))))"

definition cond_signal :: "('x, unit) pdm" where
  "cond_signal = modify (\<lambda>s. s\<lparr>printer_waits := False\<rparr>)"

definition add_job :: "bool \<Rightarrow> printreq \<Rightarrow> 32 word \<Rightarrow> ('x, unit) pdm" where
  "add_job oom reqp i = bnd (new_job oom reqp i) (\<lambda>jp. thn (link_tail jp) cond_signal)"

definition replace_job :: "nat \<Rightarrow> ('x, unit) pdm" where
  "replace_job jp =
     thn (upd_job jp (\<lambda>j. j\<lparr>prev_job := None\<rparr>)) (
     bnd (gets jobhead) (\<lambda>h.
     thn (upd_job jp (\<lambda>j. j\<lparr>next_job := h\<rparr>)) (
     thn (case h of
            None \<Rightarrow> modify (\<lambda>s. s\<lparr>jobtail := Some jp\<rparr>)
          | Some a \<Rightarrow> upd_job a (\<lambda>j. j\<lparr>prev_job := Some jp\<rparr>)) (
     modify (\<lambda>s. s\<lparr>jobhead := Some jp\<rparr>)))))"

definition remove_job :: "nat \<Rightarrow> ('x, unit) pdm" where
  "remove_job target =
     bnd (get_job target) (\<lambda>j.
     thn (case next_job j of
            Some a \<Rightarrow> upd_job a (\<lambda>k. k\<lparr>prev_job := prev_job j\<rparr>)
          | None \<Rightarrow> modify (\<lambda>s. s\<lparr>jobtail := prev_job j\<rparr>)) (
     case prev_job j of
       Some a \<Rightarrow> upd_job a (\<lambda>k. k\<lparr>next_job := next_job j\<rparr>)
     | None \<Rightarrow> modify (\<lambda>s. s\<lparr>jobhead := next_job j\<rparr>)))"

text \<open>
  The printer thread at the top of its loop: with the lock held it waits while the list is
  empty (\<open>None\<close>), else it takes the first job.
\<close>

definition take_job :: "('x, nat option) pdm" where
  "take_job =
     bnd (gets jobhead) (\<lambda>h.
     case h of
       None \<Rightarrow> thn (modify (\<lambda>s. s\<lparr>printer_waits := True\<rparr>)) (ret None)
     | Some a \<Rightarrow> thn (remove_job a) (ret (Some a)))"

subsection \<open>Worker threads\<close>

definition get_worker :: "nat \<Rightarrow> ('x, worker_thread) pdm" where
  "get_worker a = (\<lambda>s. case wthreads s a of None \<Rightarrow> Inl BadPtr | Some w \<Rightarrow> Inr (w, s))"

definition upd_worker :: "nat \<Rightarrow> (worker_thread \<Rightarrow> worker_thread) \<Rightarrow> ('x, unit) pdm" where
  "upd_worker a f =
     (\<lambda>s. case wthreads s a of
        None \<Rightarrow> Inl BadPtr
      | Some w \<Rightarrow> Inr ((), s\<lparr>wthreads := (wthreads s)(a \<mapsto> f w)\<rparr>))"

text \<open>Without memory the calling thread exits (\<open>False\<close>).\<close>

definition add_worker :: "bool \<Rightarrow> nat \<Rightarrow> int \<Rightarrow> ('x, bool) pdm" where
  "add_worker oom t fd =
     (if oom then ret False else
     bnd (gets worker_brk) (\<lambda>wtp.
     bnd (gets workers) (\<lambda>h.
     thn (modify (\<lambda>s. s\<lparr>worker_brk := Suc wtp,
            wthreads := (wthreads s)(wtp \<mapsto>
              \<lparr>next_worker = h, prev_worker = None, tid = t, sockfd = fd\<rparr>)\<rparr>)) (
     thn (case h of
            None \<Rightarrow> modify (\<lambda>s. s\<lparr>workers := Some wtp\<rparr>)
          | Some a \<Rightarrow> upd_worker a (\<lambda>w. w\<lparr>prev_worker := Some wtp\<rparr>)) (
     ret True)))))"

text \<open>
  The loops over the list follow \<^verbatim>\<open>next\<close> from the global \<open>workers\<close>. A list without
  a cycle has at most \<open>worker_brk\<close> nodes, the number ever allocated; a longer walk
  would not end.
\<close>

fun kill_loop :: "nat \<Rightarrow> ptr \<Rightarrow> ('x, unit) pdm" where
  "kill_loop n None = ret ()"
| "kill_loop 0 (Some a) = fail_with Diverges"
| "kill_loop (Suc n) (Some a) =
     bnd (get_worker a) (\<lambda>w.
     thn (modify (\<lambda>s. s\<lparr>cancelled := cancelled s @ [tid w]\<rparr>)) (kill_loop n (next_worker w)))"

definition kill_workers :: "('x, unit) pdm" where
  "kill_workers =
     bnd (gets worker_brk) (\<lambda>n. bnd (gets workers) (\<lambda>h. kill_loop n h))"

fun find_worker :: "nat \<Rightarrow> nat \<Rightarrow> ptr \<Rightarrow> ('x, ptr) pdm" where
  "find_worker n t None = ret None"
| "find_worker 0 t (Some a) = fail_with Diverges"
| "find_worker (Suc n) t (Some a) =
     bnd (get_worker a) (\<lambda>w. if tid w = t then ret (Some a) else find_worker n t (next_worker w))"

definition unlink_worker :: "nat \<Rightarrow> ('x, unit) pdm" where
  "unlink_worker a =
     bnd (get_worker a) (\<lambda>w.
     thn (case next_worker w of
            Some b \<Rightarrow> upd_worker b (\<lambda>v. v\<lparr>prev_worker := prev_worker w\<rparr>)
          | None \<Rightarrow> ret ()) (
     case prev_worker w of
       Some b \<Rightarrow> upd_worker b (\<lambda>v. v\<lparr>next_worker := next_worker w\<rparr>)
     | None \<Rightarrow> modify (\<lambda>s. s\<lparr>workers := next_worker w\<rparr>)))"

definition client_cleanup :: "nat \<Rightarrow> ('x, unit) pdm" where
  "client_cleanup t =
     bnd (gets worker_brk) (\<lambda>n. bnd (gets workers) (\<lambda>h.
     bnd (find_worker n t h) (\<lambda>wtp.
     case wtp of
       None \<Rightarrow> ret ()
     | Some a \<Rightarrow>
         thn (unlink_worker a) (
         bnd (get_worker a) (\<lambda>w.
         modify (\<lambda>s. s\<lparr>open_socks := filter (\<lambda>fd. fd \<noteq> sockfd w) (open_socks s),
                        wthreads := (wthreads s)(a := None)\<rparr>))))))"

section \<open>The doubly linked list\<close>

text \<open>
  \<open>dseg h p x as q n\<close>: starting from the pointer \<open>x\<close> the nodes at \<open>as\<close> follow each other
  in both directions, the first has \<open>p\<close> before it, the last is \<open>q\<close> and has \<open>n\<close> behind it.
\<close>

fun dseg :: "(nat \<Rightarrow> job option) \<Rightarrow> ptr \<Rightarrow> ptr \<Rightarrow> nat list \<Rightarrow> ptr \<Rightarrow> ptr \<Rightarrow> bool" where
  "dseg h p x [] q n \<longleftrightarrow> x = n \<and> q = p"
| "dseg h p x (a # as) q n \<longleftrightarrow>
     x = Some a \<and> (\<exists>j. h a = Some j \<and> prev_job j = p \<and> dseg h (Some a) (next_job j) as q n)"

lemma dseg_append:
  "dseg h p x (as @ bs) q n \<longleftrightarrow> (\<exists>m y. dseg h p x as m y \<and> dseg h m y bs q n)"
  by (induction as arbitrary: p x) auto

lemma dseg_frame:
  "dseg h p x as q n \<Longrightarrow> (\<And>a. a \<in> set as \<Longrightarrow> h' a = h a) \<Longrightarrow> dseg h' p x as q n"
  by (induction as arbitrary: p x) auto

lemma dseg_allocated: "dseg h p x as q n \<Longrightarrow> a \<in> set as \<Longrightarrow> h a \<noteq> None"
  by (induction as arbitrary: p x) auto

lemma dseg_last: "dseg h p x as q n \<Longrightarrow> as \<noteq> [] \<Longrightarrow> q = Some (last as)"
  by (induction as arbitrary: p x) (auto split: if_splits)

lemma dseg_hd: "dseg h p x as q n \<Longrightarrow> as \<noteq> [] \<Longrightarrow> x = Some (hd as)"
  by (cases as) auto

text \<open>Changing the pointer behind the last node, and the one before the first.\<close>

lemma dseg_set_last:
  assumes "dseg h p x (as @ [a]) q n" and "distinct (as @ [a])" and "h a = Some j"
  shows "dseg (h(a \<mapsto> j\<lparr>next_job := n'\<rparr>)) p x (as @ [a]) (Some a) n'"
  using assms by (auto simp: dseg_append intro!: dseg_frame [where h = h])

lemma dseg_set_first:
  assumes "dseg h p x (a # as) q n" and "a \<notin> set as" and "h a = Some j"
  shows "dseg (h(a \<mapsto> j\<lparr>prev_job := p'\<rparr>)) p' (Some a) (a # as) q n"
  using assms by (auto intro!: dseg_frame [where h = h])

text \<open>The list of the server: the addresses of the pending jobs, in order.\<close>

definition job_list :: "'x lists_scheme \<Rightarrow> nat list \<Rightarrow> bool" where
  "job_list s as \<longleftrightarrow>
     dseg (jobs s) None (jobhead s) as (jobtail s) None \<and> distinct as \<and>
     (\<forall>a. jobs s a \<noteq> None \<longrightarrow> a < job_brk s)"

definition item :: "(nat \<Rightarrow> job option) \<Rightarrow> nat \<Rightarrow> (32 word \<times> printreq)" where
  "item h a = (jobid (the (h a)), req (the (h a)))"

lemma upd_job_run [queue_simps]:
  "jobs s a = Some j \<Longrightarrow> upd_job a f s = Inr ((), s\<lparr>jobs := (jobs s)(a \<mapsto> f j)\<rparr>)"
  by (simp add: upd_job_def)

lemma get_job_run [queue_simps]: "jobs s a = Some j \<Longrightarrow> get_job a s = Inr (j, s)"
  by (simp add: get_job_def)

text \<open>\<open>add_job\<close> appends a fresh node.\<close>

lemma link_tail_run:
  assumes q: "dseg (jobs s) None (jobhead s) as (jobtail s) None" "distinct as"
    and jp: "jobs s jp = Some j" "jp \<notin> set as" "next_job j = None"
  shows "\<exists>h' hd'. link_tail jp s = Inr ((), s\<lparr>jobs := h', jobhead := hd', jobtail := Some jp\<rparr>) \<and>
    dseg h' None hd' (as @ [jp]) (Some jp) None \<and> dom h' = dom (jobs s) \<and>
    (\<forall>a. item h' a = item (jobs s) a)"
proof (cases as rule: rev_cases)
  case Nil
  then have t: "jobtail s = None" using q(1) by simp
  let ?h = "(jobs s)(jp \<mapsto> j\<lparr>prev_job := None\<rparr>)"
  have "link_tail jp s = Inr ((), s\<lparr>jobs := ?h, jobhead := Some jp, jobtail := Some jp\<rparr>)"
    using t jp(1) by (simp add: link_tail_def bnd_def thn_def upd_job_def)
  moreover have "dseg ?h None (Some jp) (as @ [jp]) (Some jp) None" using Nil jp(3) by simp
  ultimately show ?thesis using jp(1) by (intro exI conjI) (assumption, assumption, auto simp: item_def)
next
  case (snoc bs b)
  obtain jb where jb: "jobs s b = Some jb" using dseg_allocated [OF q(1), of b] snoc by auto
  have t: "jobtail s = Some b" using dseg_last [OF q(1)] snoc by simp
  have bj: "b \<noteq> jp" using snoc jp(2) by auto
  let ?h1 = "(jobs s)(jp \<mapsto> j\<lparr>prev_job := Some b\<rparr>)"
  let ?h = "?h1(b \<mapsto> jb\<lparr>next_job := Some jp\<rparr>)"
  have "link_tail jp s = Inr ((), s\<lparr>jobs := ?h, jobhead := jobhead s, jobtail := Some jp\<rparr>)"
    using t jp(1) bj jb by (simp add: link_tail_def bnd_def thn_def upd_job_def)
  moreover have "dseg ?h None (jobhead s) (as @ [jp]) (Some jp) None"
  proof -
    have "dseg ?h1 None (jobhead s) (bs @ [b]) (Some b) None"
      using q(1) jp(2) t snoc by (auto intro!: dseg_frame [where h = "jobs s"])
    then have "dseg ?h None (jobhead s) (bs @ [b]) (Some b) (Some jp)"
      using q(2) snoc bj jb by (intro dseg_set_last) auto
    then show ?thesis using snoc bj jp(3) by (auto simp: dseg_append)
  qed
  ultimately show ?thesis using jp(1) jb bj
    by (intro exI conjI) (assumption, assumption, auto simp: item_def)
qed

lemma add_job_run:
  assumes "job_list s as"
  shows "\<exists>h' hd'. let s' = s\<lparr>jobs := h', job_brk := Suc (job_brk s), jobhead := hd',
      jobtail := Some (job_brk s), printer_waits := False\<rparr>
    in add_job False r i s = Inr ((), s') \<and> job_list s' (as @ [job_brk s]) \<and>
       map (item h') (as @ [job_brk s]) = map (item (jobs s)) as @ [(i, r)] \<and>
       (\<forall>b. b \<noteq> job_brk s \<longrightarrow> item h' b = item (jobs s) b \<and> (h' b = None \<longleftrightarrow> jobs s b = None))"
proof -
  let ?n = "\<lparr>next_job = None, prev_job = None, jobid = i, req = r\<rparr>"
  let ?s = "s\<lparr>jobs := (jobs s)(job_brk s \<mapsto> ?n), job_brk := Suc (job_brk s)\<rparr>"
  note q = assms [unfolded job_list_def]
  have fresh: "job_brk s \<notin> set as"
    using q dseg_allocated by (metis (mono_tags, lifting) less_irrefl)
  have seg: "dseg (jobs ?s) None (jobhead ?s) as (jobtail ?s) None"
    using q fresh by (auto intro!: dseg_frame [where h = "jobs s"])
  obtain h' hd' where run: "link_tail (job_brk s) ?s =
      Inr ((), ?s\<lparr>jobs := h', jobhead := hd', jobtail := Some (job_brk s)\<rparr>)"
    and d: "dseg h' None hd' (as @ [job_brk s]) (Some (job_brk s)) None" "dom h' = dom (jobs ?s)"
    and it: "\<forall>a. item h' a = item (jobs ?s) a"
    using link_tail_run [OF seg _ _ fresh, of ?n] q by auto
  let ?s' = "s\<lparr>jobs := h', job_brk := Suc (job_brk s), jobhead := hd',
      jobtail := Some (job_brk s), printer_waits := False\<rparr>"
  have run': "add_job False r i s = Inr ((), ?s')"
    using run by (simp add: add_job_def new_job_def bnd_def thn_def cond_signal_def)
  have "job_list ?s' (as @ [job_brk s])"
    using d q fresh by (auto simp: job_list_def dom_def less_Suc_eq split: if_splits)
  moreover have "map (item h') (as @ [job_brk s]) = map (item (jobs s)) as @ [(i, r)]"
    using it fresh by (auto simp: item_def)
  moreover have "item h' b = item (jobs s) b \<and> (h' b = None \<longleftrightarrow> jobs s b = None)"
    if "b \<noteq> job_brk s" for b
    using it d(2) that by (auto simp: item_def domIff set_eq_iff)
  ultimately show ?thesis using run' by (intro exI [of _ h'] exI [of _ hd']) (simp add: Let_def)
qed

text \<open>\<open>replace_job\<close> puts a node in front.\<close>

lemma replace_job_run:
  assumes "job_list s as" and "jobs s jp = Some j" and "jp \<notin> set as"
  shows "\<exists>h' tl'. replace_job jp s = Inr ((), s\<lparr>jobs := h', jobhead := Some jp, jobtail := tl'\<rparr>) \<and>
    job_list (s\<lparr>jobs := h', jobhead := Some jp, jobtail := tl'\<rparr>) (jp # as) \<and>
    (\<forall>a. item h' a = item (jobs s) a)"
proof -
  have seg: "dseg (jobs s) None (jobhead s) as (jobtail s) None" and dis: "distinct as"
    and brk: "\<forall>a. jobs s a \<noteq> None \<longrightarrow> a < job_brk s"
    using assms(1) by (simp_all add: job_list_def)
  show ?thesis
  proof (cases as)
    case Nil
    then have h: "jobhead s = None" using seg by simp
    let ?h = "(jobs s)(jp \<mapsto> j\<lparr>prev_job := None, next_job := None\<rparr>)"
    have "replace_job jp s = Inr ((), s\<lparr>jobs := ?h, jobhead := Some jp, jobtail := Some jp\<rparr>)"
      using h assms(2) by (simp add: replace_job_def bnd_def thn_def upd_job_def)
    moreover have "job_list (s\<lparr>jobs := ?h, jobhead := Some jp, jobtail := Some jp\<rparr>) (jp # as)"
      using Nil brk assms(2) by (simp add: job_list_def)
    moreover have "\<forall>a. item ?h a = item (jobs s) a" using assms(2) by (simp add: item_def)
    ultimately show ?thesis by blast
  next
    case (Cons b bs)
    then have h: "jobhead s = Some b" using seg by simp
    obtain jb where jb: "jobs s b = Some jb" using seg Cons by auto
    have ne: "b \<noteq> jp" using Cons assms(3) by auto
    let ?h1 = "(jobs s)(jp \<mapsto> j\<lparr>prev_job := None, next_job := Some b\<rparr>)"
    let ?h = "?h1(b \<mapsto> jb\<lparr>prev_job := Some jp\<rparr>)"
    have "replace_job jp s = Inr ((), s\<lparr>jobs := ?h, jobhead := Some jp, jobtail := jobtail s\<rparr>)"
      using h assms(2) ne jb by (simp add: replace_job_def bnd_def thn_def upd_job_def)
    moreover have "job_list (s\<lparr>jobs := ?h, jobhead := Some jp, jobtail := jobtail s\<rparr>) (jp # as)"
    proof -
      have "dseg ?h1 None (Some b) (b # bs) (jobtail s) None"
        by (rule dseg_frame [where h = "jobs s"]) (use seg Cons assms(3) h in auto)
      then have "dseg ?h (Some jp) (Some b) (b # bs) (jobtail s) None"
        using dis Cons ne jb by (intro dseg_set_first) auto
      then show ?thesis using dis brk Cons ne assms(2,3) jb by (simp add: job_list_def)
    qed
    moreover have "\<forall>a. item ?h a = item (jobs s) a" using assms(2) jb ne by (simp add: item_def)
    ultimately show ?thesis by blast
  qed
qed

text \<open>\<open>remove_job\<close> takes any node out; the node itself stays allocated.\<close>

definition relink_prev :: "(nat \<Rightarrow> job option) \<Rightarrow> ptr \<Rightarrow> ptr \<Rightarrow> nat \<Rightarrow> job option" where
  "relink_prev h x m =
     (case x of None \<Rightarrow> h | Some b \<Rightarrow> h(b := map_option (\<lambda>j. j\<lparr>prev_job := m\<rparr>) (h b)))"

definition relink_next :: "(nat \<Rightarrow> job option) \<Rightarrow> ptr \<Rightarrow> ptr \<Rightarrow> nat \<Rightarrow> job option" where
  "relink_next h m y =
     (case m of None \<Rightarrow> h | Some b \<Rightarrow> h(b := map_option (\<lambda>j. j\<lparr>next_job := y\<rparr>) (h b)))"

lemma item_relink [simp]: "item (relink_prev h x m) a = item h a" "item (relink_next h m y) a = item h a"
  by (auto simp: item_def relink_prev_def relink_next_def split: option.splits, (cases "h a"; auto)+)

lemma dom_relink [simp]:
  "relink_prev h x m a = None \<longleftrightarrow> h a = None" "relink_next h m y a = None \<longleftrightarrow> h a = None"
  by (auto simp: relink_prev_def relink_next_def split: option.splits)

lemma set_prev_run:
  "(\<And>b. x = Some b \<Longrightarrow> jobs s b \<noteq> None) \<Longrightarrow>
   (case x of Some a \<Rightarrow> upd_job a (\<lambda>k. k\<lparr>prev_job := m\<rparr>) | None \<Rightarrow> modify (\<lambda>s. s\<lparr>jobtail := m\<rparr>)) s =
     Inr ((), s\<lparr>jobs := relink_prev (jobs s) x m, jobtail := if x = None then m else jobtail s\<rparr>)"
  by (cases x) (auto simp: upd_job_def relink_prev_def)

lemma set_next_run:
  "(\<And>b. m = Some b \<Longrightarrow> jobs s b \<noteq> None) \<Longrightarrow>
   (case m of Some a \<Rightarrow> upd_job a (\<lambda>k. k\<lparr>next_job := y\<rparr>) | None \<Rightarrow> modify (\<lambda>s. s\<lparr>jobhead := y\<rparr>)) s =
     Inr ((), s\<lparr>jobs := relink_next (jobs s) m y, jobhead := if m = None then y else jobhead s\<rparr>)"
  by (cases m) (auto simp: upd_job_def relink_next_def)

lemma dseg_relink_prev:
  assumes "dseg h p x ys q n" and "distinct ys" and "x \<noteq> n \<or> ys = []" and "n = None"
  shows "dseg (relink_prev h x m) m x ys (if ys = [] then m else q) n"
  using assms by (cases ys) (auto simp: relink_prev_def intro!: dseg_frame [where h = h])

lemma dseg_relink_next:
  assumes "dseg h None x xs m n" and "distinct xs"
  shows "dseg (relink_next h m y) None (if xs = [] then y else x) xs m y"
proof (cases xs rule: rev_cases)
  case Nil
  with assms show ?thesis by (simp add: relink_next_def)
next
  case (snoc bs b)
  then have m: "m = Some b" using dseg_last [OF assms(1)] by simp
  obtain j where j: "h b = Some j" using dseg_allocated [OF assms(1), of b] snoc by auto
  show ?thesis
    using dseg_set_last [of h None x bs b m n j y] assms snoc j m by (simp add: relink_next_def)
qed

lemma remove_job_run:
  assumes "job_list s (xs @ a # ys)"
  shows "\<exists>h' hd' tl'. let s' = s\<lparr>jobs := h', jobhead := hd', jobtail := tl'\<rparr>
    in remove_job a s = Inr ((), s') \<and> job_list s' (xs @ ys) \<and>
       (\<forall>b. item h' b = item (jobs s) b) \<and> (\<forall>b. h' b = None \<longleftrightarrow> jobs s b = None)"
proof -
  note q = assms [unfolded job_list_def]
  obtain m y where xs: "dseg (jobs s) None (jobhead s) xs m y"
    and ays: "dseg (jobs s) m y (a # ys) (jobtail s) None"
    using q by (auto simp: dseg_append)
  obtain j where j: "jobs s a = Some j" "prev_job j = m" "y = Some a"
    and ys: "dseg (jobs s) (Some a) (next_job j) ys (jobtail s) None"
    using ays by auto
  let ?h1 = "relink_prev (jobs s) (next_job j) m"
  let ?h2 = "relink_next ?h1 m (next_job j)"
  let ?hd = "if xs = [] then next_job j else jobhead s"
  let ?tl = "if ys = [] then m else jobtail s"
  let ?s' = "s\<lparr>jobs := ?h2, jobhead := ?hd, jobtail := ?tl\<rparr>"
  have e1: "next_job j = None \<longleftrightarrow> ys = []" using ys by (cases ys) auto
  have e2: "m = None \<longleftrightarrow> xs = []" using xs dseg_last [OF xs] by auto
  have nx: "b \<in> set ys" if "next_job j = Some b" for b using ys that by (cases ys) auto
  have px: "b \<in> set xs" if "m = Some b" for b using dseg_last [OF xs] e2 that by auto
  have dis: "distinct xs" "distinct ys" "set xs \<inter> set ys = {}" using q by auto
  have seg1: "dseg ?h1 m (next_job j) ys ?tl None"
    using dseg_relink_prev [OF ys dis(2)] e1 by auto
  have xs1: "dseg ?h1 None (jobhead s) xs m y"
    by (rule dseg_frame [OF xs]) (use nx dis in \<open>auto simp: relink_prev_def split: option.splits\<close>)
  have xs2: "dseg ?h2 None ?hd xs m (next_job j)" using dseg_relink_next [OF xs1 dis(1)] .
  have seg2: "dseg ?h2 m (next_job j) ys ?tl None"
    by (rule dseg_frame [OF seg1]) (use px dis in \<open>auto simp: relink_next_def split: option.splits\<close>)
  have jl: "job_list ?s' (xs @ ys)"
    using q xs2 seg2 by (auto simp: job_list_def dseg_append)
  have "remove_job a s = Inr ((), ?s')"
  proof -
    have "jobs s b \<noteq> None" if "next_job j = Some b" for b
      using nx [OF that] by (rule dseg_allocated [OF ys])
    moreover have "jobs s b \<noteq> None" if "m = Some b" for b
      using px [OF that] by (rule dseg_allocated [OF xs])
    ultimately show ?thesis
      using j(1,2) e1 e2 by (simp add: remove_job_def bnd_def thn_def get_job_def set_prev_run set_next_run)
  qed
  with jl show ?thesis
    by (intro exI [of _ ?h2] exI [of _ ?hd] exI [of _ ?tl]) (simp add: Let_def)
qed

lemma take_job_empty:
  "job_list s [] \<Longrightarrow> take_job s = Inr (None, s\<lparr>printer_waits := True\<rparr>)"
  by (simp add: take_job_def job_list_def bnd_def thn_def)

lemma take_job_run:
  assumes "job_list s (a # as)"
  shows "\<exists>h' hd' tl'. let s' = s\<lparr>jobs := h', jobhead := hd', jobtail := tl'\<rparr>
    in take_job s = Inr (Some a, s') \<and> job_list s' as \<and>
       (\<forall>b. item h' b = item (jobs s) b) \<and> (\<forall>b. h' b = None \<longleftrightarrow> jobs s b = None)"
proof -
  have hd: "jobhead s = Some a" using assms by (simp add: job_list_def)
  from remove_job_run [of s "[]" a as] assms obtain h' hd' tl' where
    rm: "remove_job a s = Inr ((), s\<lparr>jobs := h', jobhead := hd', jobtail := tl'\<rparr>)"
      "job_list (s\<lparr>jobs := h', jobhead := hd', jobtail := tl'\<rparr>) as"
      "\<forall>b. item h' b = item (jobs s) b" "\<forall>b. h' b = None \<longleftrightarrow> jobs s b = None"
    by (auto simp: Let_def)
  have "take_job s = Inr (Some a, s\<lparr>jobs := h', jobhead := hd', jobtail := tl'\<rparr>)"
    using hd rm(1) by (simp add: take_job_def bnd_def thn_def)
  with rm(2-4) show ?thesis unfolding Let_def by blast
qed

lemma free_job_run:
  assumes "job_list s as" and "a \<notin> set as"
  shows "free_job a s = Inr ((), s\<lparr>jobs := (jobs s)(a := None)\<rparr>)"
    and "job_list (s\<lparr>jobs := (jobs s)(a := None)\<rparr>) as"
proof -
  have "dseg ((jobs s)(a := None)) None (jobhead s) as (jobtail s) None"
    by (rule dseg_frame [where h = "jobs s"]) (use assms in \<open>auto simp: job_list_def\<close>)
  then show "job_list (s\<lparr>jobs := (jobs s)(a := None)\<rparr>) as"
    using assms(1) by (simp add: job_list_def)
qed (simp add: free_job_def)

section \<open>The contract of the job list\<close>

text \<open>
  What the threads of the server do with the list: a client thread enqueues; the printer
  thread takes the first job, and later is done with it or puts it back in front. In the
  abstract a state is the list of pending jobs and the job that is being printed.
\<close>

datatype 'i qop = Enq 'i | Deq | Fin | Back

fun abs_op :: "'i qop \<Rightarrow> 'i list \<times> 'i option \<Rightarrow> ('i list \<times> 'i option) option" where
  "abs_op (Enq x) (xs, c) = Some (xs @ [x], c)"
| "abs_op Deq (x # xs, None) = Some (xs, Some x)"
| "abs_op Deq ([], None) = Some ([], None)"
| "abs_op Fin (xs, Some x) = Some (xs, None)"
| "abs_op Back (xs, Some x) = Some (x # xs, None)"
| "abs_op _ _ = None"

fun run_ops :: "('o \<Rightarrow> 's \<Rightarrow> 's option) \<Rightarrow> 'o list \<Rightarrow> 's \<Rightarrow> 's option" where
  "run_ops f [] s = Some s"
| "run_ops f (x # xs) s = (case f x s of None \<Rightarrow> None | Some s' \<Rightarrow> run_ops f xs s')"

locale job_fifo =
  fixes rep :: "'s \<Rightarrow> 'i list \<Rightarrow> 'i option \<Rightarrow> bool" and op :: "'i qop \<Rightarrow> 's \<Rightarrow> 's option"
  assumes op_law: "rep s xs c \<Longrightarrow> abs_op x (xs, c) = Some (ys, d) \<Longrightarrow>
    \<exists>s'. op x s = Some s' \<and> rep s' ys d"
begin

lemma run_law:
  "rep s xs c \<Longrightarrow> run_ops abs_op ops (xs, c) = Some (ys, d) \<Longrightarrow>
     \<exists>s'. run_ops op ops s = Some s' \<and> rep s' ys d"
proof (induction ops arbitrary: s xs c)
  case (Cons x ops)
  then obtain zs e where z: "abs_op x (xs, c) = Some (zs, e)" "run_ops abs_op ops (zs, e) = Some (ys, d)"
    by (auto split: option.splits)
  from op_law [OF Cons.prems(1) z(1)] obtain s' where "op x s = Some s'" "rep s' zs e" by blast
  with Cons.IH [OF this(2) z(2)] show ?case by simp
qed simp

text \<open>Printing every job as it comes empties the list, in the order of submission.\<close>

lemma drain_law:
  "rep s xs None \<Longrightarrow> \<exists>s'. run_ops op (concat (replicate (length xs) [Deq, Fin])) s = Some s' \<and> rep s' [] None"
proof (rule run_law)
  show "run_ops abs_op (concat (replicate (length xs) [Deq, Fin])) (xs, None) = Some ([], None)"
    by (induction xs) simp_all
qed

end

text \<open>The server's functions under that contract; the job being printed is a local of the printer thread.\<close>

fun q_op :: "(32 word \<times> printreq) qop \<Rightarrow> lists \<times> ptr \<Rightarrow> (lists \<times> ptr) option" where
  "q_op (Enq (i, r)) (s, cur) =
     (case add_job False r i s of Inl _ \<Rightarrow> None | Inr (_, s') \<Rightarrow> Some (s', cur))"
| "q_op Deq (s, cur) =
     (case take_job s of Inl _ \<Rightarrow> None | Inr (jp, s') \<Rightarrow> Some (s', jp))"
| "q_op Fin (s, cur) =
     (case cur of None \<Rightarrow> None
      | Some jp \<Rightarrow> (case free_job jp s of Inl _ \<Rightarrow> None | Inr (_, s') \<Rightarrow> Some (s', None)))"
| "q_op Back (s, cur) =
     (case cur of None \<Rightarrow> None
      | Some jp \<Rightarrow> (case replace_job jp s of Inl _ \<Rightarrow> None | Inr (_, s') \<Rightarrow> Some (s', None)))"

definition q_rep :: "lists \<times> ptr \<Rightarrow> (32 word \<times> printreq) list \<Rightarrow> (32 word \<times> printreq) option \<Rightarrow> bool" where
  "q_rep sc xs c \<longleftrightarrow>
     (\<exists>as. job_list (fst sc) as \<and> xs = map (item (jobs (fst sc))) as \<and>
       c = map_option (item (jobs (fst sc))) (snd sc) \<and>
       (\<forall>a. snd sc = Some a \<longrightarrow> a \<notin> set as \<and> jobs (fst sc) a \<noteq> None))"

lemma item_cong: "\<forall>b. item h' b = item h b \<Longrightarrow> item h' = item h"
  by (rule ext) simp

lemma q_rep_I:
  "job_list s as \<Longrightarrow> xs = map (item (jobs s)) as \<Longrightarrow> c = map_option (item (jobs s)) cur \<Longrightarrow>
   (\<And>a. cur = Some a \<Longrightarrow> a \<notin> set as \<and> jobs s a \<noteq> None) \<Longrightarrow> q_rep (s, cur) xs c"
  by (auto simp: q_rep_def)

lemma q_op_law:
  assumes rep: "q_rep sc xs c" and abs: "abs_op x (xs, c) = Some (ys, d)"
  shows "\<exists>sc'. q_op x sc = Some sc' \<and> q_rep sc' ys d"
proof -
  obtain s cur where sc: "sc = (s, cur)" by (cases sc)
  obtain as where as: "job_list s as" "xs = map (item (jobs s)) as" "c = map_option (item (jobs s)) cur"
    and cur: "\<And>a. cur = Some a \<Longrightarrow> a \<notin> set as \<and> jobs s a \<noteq> None"
    using rep by (auto simp: q_rep_def sc)
  show ?thesis
  proof (cases x)
    case (Enq ir)
    obtain i r where ir: "ir = (i, r)" by (cases ir)
    let ?s = "\<lambda>h' hd'. s\<lparr>jobs := h', job_brk := Suc (job_brk s), jobhead := hd',
        jobtail := Some (job_brk s), printer_waits := False\<rparr>"
    obtain h' hd' where run: "add_job False r i s = Inr ((), ?s h' hd')"
      and jl: "job_list (?s h' hd') (as @ [job_brk s])"
      and it: "map (item h') (as @ [job_brk s]) = map (item (jobs s)) as @ [(i, r)]"
      and fr: "\<forall>b. b \<noteq> job_brk s \<longrightarrow> item h' b = item (jobs s) b \<and> (h' b = None \<longleftrightarrow> jobs s b = None)"
      using add_job_run [OF as(1), of r i] unfolding Let_def by blast
    have nb: "a \<noteq> job_brk s" if "cur = Some a" for a
      using cur [OF that] as(1) by (auto simp: job_list_def)
    have "q_rep (?s h' hd', cur) (xs @ [(i, r)]) c"
    proof (rule q_rep_I [OF jl])
      show "c = map_option (item (jobs (?s h' hd'))) cur" using nb fr as(3) by (cases cur) auto
    qed (use it as nb fr cur in auto)
    with run abs show ?thesis by (simp add: Enq ir sc)
  next
    case Deq
    with abs have c: "c = None" by (cases xs; cases c) simp_all
    with as(3) have cn: "cur = None" by simp
    show ?thesis
    proof (cases as)
      case Nil
      have "job_list (s\<lparr>printer_waits := True\<rparr>) []" using as(1) Nil by (simp add: job_list_def)
      then have "q_rep (s\<lparr>printer_waits := True\<rparr>, None) [] None" by (rule q_rep_I) simp_all
      then show ?thesis using abs Deq c cn as take_job_empty [of s] Nil by (simp add: sc)
    next
      case (Cons b bs)
      from take_job_run [OF as(1) [unfolded Cons]] obtain h' hd' tl' where
        t: "take_job s = Inr (Some b, s\<lparr>jobs := h', jobhead := hd', jobtail := tl'\<rparr>)"
          "job_list (s\<lparr>jobs := h', jobhead := hd', jobtail := tl'\<rparr>) bs"
          "\<forall>b. item h' b = item (jobs s) b" "\<forall>b. h' b = None \<longleftrightarrow> jobs s b = None"
        unfolding Let_def by blast
      have "b \<notin> set bs" "jobs s b \<noteq> None" using as(1) Cons by (auto simp: job_list_def)
      then have "q_rep (s\<lparr>jobs := h', jobhead := hd', jobtail := tl'\<rparr>, Some b)
          (map (item (jobs s)) bs) (Some (item (jobs s) b))"
        using t(3,4) by (intro q_rep_I [OF t(2)]) auto
      then show ?thesis using abs Deq c t(1) as(2) Cons by (simp add: sc)
    qed
  next
    case Fin
    with abs obtain y where "c = Some y" "ys = xs" "d = None" by (cases c) simp_all
    then obtain a where a: "cur = Some a" using as(3) by auto
    have na: "a \<notin> set as" using cur [OF a] by simp
    have "q_rep (s\<lparr>jobs := (jobs s)(a := None)\<rparr>, None) xs None"
      using as(2) na by (intro q_rep_I [OF free_job_run(2) [OF as(1) na]]) (auto simp: item_def)
    then show ?thesis
      using free_job_run(1) [OF as(1) na] \<open>ys = xs\<close> \<open>d = None\<close> by (simp add: Fin sc a)
  next
    case Back
    with abs obtain y where y: "c = Some y" "ys = y # xs" "d = None" by (cases c) simp_all
    then obtain a where a: "cur = Some a" using as(3) by auto
    obtain j where j: "jobs s a = Some j" "a \<notin> set as" using cur [OF a] by auto
    from replace_job_run [OF as(1) j] obtain h' tl' where
      t: "replace_job a s = Inr ((), s\<lparr>jobs := h', jobhead := Some a, jobtail := tl'\<rparr>)"
        "job_list (s\<lparr>jobs := h', jobhead := Some a, jobtail := tl'\<rparr>) (a # as)"
        "\<forall>b. item h' b = item (jobs s) b" by blast
    have "q_rep (s\<lparr>jobs := h', jobhead := Some a, jobtail := tl'\<rparr>, None) (y # xs) None"
      using as(2,3) a y(1) t(3) by (intro q_rep_I [OF t(2)]) auto
    then show ?thesis using t(1) y by (simp add: Back sc a)
  qed
qed

interpretation jobq: job_fifo q_rep q_op
  by unfold_locales (rule q_op_law)

section \<open>The list of workers\<close>

text \<open>
  While one client at a time is served the list is right: adding a worker and cleaning up
  gives the empty list back and closes the socket.
\<close>

definition idle_workers :: "'x lists_scheme \<Rightarrow> bool" where
  "idle_workers s \<longleftrightarrow> workers s = None \<and> wthreads s = (\<lambda>_. None)"

definition one_worker :: "nat \<Rightarrow> int \<Rightarrow> 'x lists_scheme \<Rightarrow> bool" where
  "one_worker t fd s \<longleftrightarrow> (\<exists>n. workers s = Some n \<and> worker_brk s = Suc n \<and>
     wthreads s = [n \<mapsto> \<lparr>next_worker = None, prev_worker = None, tid = t, sockfd = fd\<rparr>])"

lemma add_worker_alone:
  assumes "idle_workers s"
  shows "\<exists>n w h. add_worker False t fd s = Inr (True, s\<lparr>worker_brk := n, wthreads := w, workers := h\<rparr>) \<and>
    one_worker t fd (s\<lparr>worker_brk := n, wthreads := w, workers := h\<rparr>)"
proof -
  let ?n = "worker_brk s"
  let ?s = "s\<lparr>worker_brk := Suc ?n, wthreads := [?n \<mapsto> \<lparr>next_worker = None, prev_worker = None, tid = t, sockfd = fd\<rparr>],
    workers := Some ?n\<rparr>"
  have "add_worker False t fd s = Inr (True, ?s)"
    using assms by (simp add: idle_workers_def add_worker_def bnd_def thn_def)
  moreover have "one_worker t fd ?s" by (simp add: one_worker_def)
  ultimately show ?thesis by blast
qed

lemma client_cleanup_alone:
  assumes "one_worker t fd s"
  shows "client_cleanup t s = Inr ((), s\<lparr>workers := None, wthreads := (\<lambda>_. None),
    open_socks := filter (\<lambda>x. x \<noteq> fd) (open_socks s)\<rparr>)"
  using assms
  by (auto simp: one_worker_def client_cleanup_def unlink_worker_def get_worker_def bnd_def thn_def)

text \<open>
  A second worker is not put on the list: the node points to the head and the head back to
  it, but the global stays. \<open>two\<close> is the state after two \<open>add_worker\<close>s.
\<close>

definition two_workers :: "nat \<Rightarrow> int \<Rightarrow> nat \<Rightarrow> int \<Rightarrow> lists \<Rightarrow> lists" where
  "two_workers t fd u fe s =
     s\<lparr>worker_brk := Suc (Suc (worker_brk s)), workers := Some (worker_brk s),
       wthreads :=
         [worker_brk s \<mapsto> \<lparr>next_worker = None, prev_worker = Some (Suc (worker_brk s)), tid = t, sockfd = fd\<rparr>,
          Suc (worker_brk s) \<mapsto>
            \<lparr>next_worker = Some (worker_brk s), prev_worker = None, tid = u, sockfd = fe\<rparr>]\<rparr>"

lemma second_worker:
  assumes "idle_workers s"
  shows "thn (add_worker False t fd) (add_worker False u fe) s = Inr (True, two_workers t fd u fe s)"
  using assms
  by (simp add: idle_workers_def add_worker_def upd_worker_def bnd_def thn_def two_workers_def fun_upd_twist)

lemma second_worker_not_killed:
  "kill_workers (two_workers t fd u fe s) =
     Inr ((), (two_workers t fd u fe s)\<lparr>cancelled := cancelled s @ [t]\<rparr>)"
  by (simp add: kill_workers_def two_workers_def get_worker_def bnd_def thn_def)

lemma second_worker_not_cleaned:
  "u \<noteq> t \<Longrightarrow> client_cleanup u (two_workers t fd u fe s) = Inr ((), two_workers t fd u fe s)"
  by (simp add: client_cleanup_def two_workers_def get_worker_def bnd_def thn_def)

lemma first_worker_leaves_dangling:
  "\<exists>s'. client_cleanup t (two_workers t fd u fe s) = Inr ((), s') \<and>
     workers s' = Some (worker_brk s) \<and> wthreads s' (worker_brk s) = None \<and>
     kill_workers s' = Inl BadPtr \<and> client_cleanup v s' = Inl BadPtr"
  by (simp add: client_cleanup_def unlink_worker_def kill_workers_def two_workers_def get_worker_def
      upd_worker_def bnd_def thn_def)

end
