(* ===== verification/Printd.thy ===== *)
theory Printd
  imports Job_Queue "HOL-Library.AList"
begin

text \<open>
  The spooling side of \<^verbatim>\<open>apue.3e/printer/printd.c\<close>: the job number file
  (\<open>init_request\<close>, \<open>update_jobno\<close>, \<open>get_newjobno\<close>), the spool directory, the
  thread that accepts a job from a client (\<open>client_thread\<close>), the restart
  (\<open>build_qonstart\<close>) and the signal thread. The spool directory is an association list
  from path names to contents; what the file system calls answer is a script (\<open>calls\<close>).
  Messages to the log are not part of the state.
\<close>

unbundle bit_operations_syntax

section \<open>Definitions\<close>

subsection \<open>Server state\<close>

datatype outcome = Works | Fails int | Short nat

record printd = lists +
  nextjob :: "32 word"
  jobfile :: "char list"
  spool :: "(string \<times> char list) list"
  calls :: "outcome list"
  reread :: bool
  printer_name :: string

type_synonym 'a srv = "(printd, pd_err, 'a) cm"

definition SPOOLDIR :: string where "SPOOLDIR = ''/var/spool/printer''"
definition JOBFILE :: string where "JOBFILE = ''jobno''"
definition DATADIR :: string where "DATADIR = ''data''"
definition REQDIR :: string where "REQDIR = ''reqs''"

definition in_dir :: "string \<Rightarrow> string \<Rightarrow> string" where
  "in_dir d n = SPOOLDIR @ ''/'' @ d @ ''/'' @ n"

definition data_name :: "32 word \<Rightarrow> string" where
  "data_name i = in_dir DATADIR (sdec (sint i))"

definition req_name :: "32 word \<Rightarrow> string" where
  "req_name i = in_dir REQDIR (sdec (sint i))"

subsection \<open>System calls on the spool directory\<close>

definition next_call :: "outcome srv" where
  "next_call =
     (\<lambda>s. case calls s of [] \<Rightarrow> Inr (Works, s) | c # cs \<Rightarrow> Inr (c, s\<lparr>calls := cs\<rparr>))"

definition put_file :: "string \<Rightarrow> char list \<Rightarrow> unit srv" where
  "put_file n bs = modify (\<lambda>s. s\<lparr>spool := AList.update n bs (spool s)\<rparr>)"

text \<open>\<^verbatim>\<open>creat\<close> truncates; \<open>Inl e\<close> is a failure with that error.\<close>

definition sys_creat :: "string \<Rightarrow> (int + unit) srv" where
  "sys_creat n =
     bnd next_call (\<lambda>c. case c of
       Fails e \<Rightarrow> ret (Inl e)
     | _ \<Rightarrow> thn (put_file n []) (ret (Inr ())))"

text \<open>
  \<^verbatim>\<open>write\<close> at the end of a file created before; the number of bytes written. A file
  whose name was removed in between is not seen any more.
\<close>

definition extend_file :: "string \<Rightarrow> char list \<Rightarrow> unit srv" where
  "extend_file n bs =
     modify (\<lambda>s. case map_of (spool s) n of
       None \<Rightarrow> s
     | Some old \<Rightarrow> s\<lparr>spool := AList.update n (old @ bs) (spool s)\<rparr>)"

definition append_file :: "string \<Rightarrow> char list \<Rightarrow> (int + nat) srv" where
  "append_file n bs =
     bnd next_call (\<lambda>c. case c of
       Fails e \<Rightarrow> ret (Inl e)
     | Short k \<Rightarrow> thn (extend_file n (take k bs)) (ret (Inr (min k (length bs))))
     | Works \<Rightarrow> thn (extend_file n bs) (ret (Inr (length bs))))"

definition unlink :: "string \<Rightarrow> unit srv" where
  "unlink n = modify (\<lambda>s. s\<lparr>spool := AList.delete n (spool s)\<rparr>)"

subsection \<open>Job numbers\<close>

text \<open>
  \<open>locked\<close>: another daemon has the lock; \<open>stk\<close> is what the buffer \<^verbatim>\<open>name\<close> holds behind
  the path. The buffer is used again for the contents of the file, which are not
  terminated: \<^verbatim>\<open>atol\<close> also sees what follows them.
\<close>

definition init_request :: "bool \<Rightarrow> char list \<Rightarrow> unit srv" where
  "init_request locked stk =
     (let nm = SPOOLDIR @ ''/'' @ JOBFILE @ [NUL] @ stk
      in thn (require (\<not> locked) (LogQuit ''daemon already running'')) (
         bnd next_call (\<lambda>c.
         bnd (gets (\<lambda>s. take 64 (jobfile s))) (\<lambda>bs.
         case c of
           Fails e \<Rightarrow> fail_with (LogSys ''can't read job file'')
         | _ \<Rightarrow> if bs = [] then modify (\<lambda>s. s\<lparr>nextjob := 1\<rparr>)
                else modify (\<lambda>s. s\<lparr>nextjob := word_of_int (atol (overwrite nm 0 bs))\<rparr>)))))"

definition update_jobno :: "unit srv" where
  "update_jobno =
     bnd next_call (\<lambda>c.
     case c of
       Fails e \<Rightarrow> fail_with (LogSys ''can't update job file'')
     | Short k \<Rightarrow> modify (\<lambda>s. s\<lparr>jobfile := overwrite (jobfile s) 0 (take k (sdec (sint (nextjob s))))\<rparr>)
     | Works \<Rightarrow> modify (\<lambda>s. s\<lparr>jobfile := overwrite (jobfile s) 0 (sdec (sint (nextjob s)))\<rparr>))"

definition get_newjobno :: "32 word srv" where
  "get_newjobno =
     bnd (gets nextjob) (\<lambda>i.
     thn (modify (\<lambda>s. s\<lparr>nextjob := (if sint (nextjob s + 1) \<le> 0 then 1 else nextjob s + 1)\<rparr>)) (
     ret i))"

subsection \<open>Accepting a job\<close>

text \<open>
  The answer to a client whose job is refused. The error number is put in network order
  first, and \<^verbatim>\<open>strerror\<close> (an argument: it is the C library's) gets that number.
  \<open>res0\<close> is the uninitialized structure.
\<close>

definition refusal :: "(int \<Rightarrow> string) \<Rightarrow> printresp \<Rightarrow> int \<Rightarrow> printresp" where
  "refusal strerror res0 err =
     (let rc = htonl (word_of_int err)
      in res0\<lparr>res_jobid := 0, retcode := rc, msg := strncpy (msg res0) (strerror (sint rc)) MSGLEN_MAX\<rparr>)"

definition acceptance :: "printresp \<Rightarrow> 32 word \<Rightarrow> printresp" where
  "acceptance res0 i =
     res0\<lparr>retcode := 0, res_jobid := htonl i, msg := strcpy (msg res0) (''request ID '' @ sdec (sint i))\<rparr>"

definition send_response :: "printresp \<Rightarrow> sink \<Rightarrow> sink" where
  "send_response res out = snd (writen (res_bytes res) out)"

text \<open>
  The loop that stores the file. A pause of 20 seconds, an error and the end of the stream
  all end it. The first piece decides whether the file is text; \<open>stk\<close> is what the buffer
  held before. \<open>Inl e\<close>: the file could not be written.
\<close>

function store_data ::
  "char list \<Rightarrow> string \<Rightarrow> bool \<Rightarrow> 32 word \<Rightarrow> source \<Rightarrow> ((int + 32 word) \<times> source) srv"
where
  "store_data stk n first fl inp =
     (case tread IOBUFSZ inp of
        (Inl e, inp') \<Rightarrow> ret (Inr fl, inp')
      | (Inr d, inp') \<Rightarrow>
          if d = [] then ret (Inr fl, inp')
          else let fl' = (if first \<and> take 4 (overwrite stk 0 d) \<noteq> ''%!PS'' then fl OR PR_TEXT else fl)
            in bnd (append_file n d) (\<lambda>w.
               case w of
                 Inl e \<Rightarrow> ret (Inl e, inp')
               | Inr k \<Rightarrow>
                   if k \<noteq> length d then ret (Inl EIO, inp')
                   else store_data stk n False fl' inp'))"
  by pat_completeness auto
termination
  by (relation "measure (\<lambda>(stk, n, first, fl, inp). weight inp)")
    (auto dest: tread_weight [rotated, OF sym])

text \<open>
  From the creation of the data file to the answer: the error that the client is told, or the
  request as it was stored.
\<close>

definition spool_job ::
  "char list \<Rightarrow> 32 word \<Rightarrow> printreq \<Rightarrow> source \<Rightarrow> (int + printreq) srv"
where
  "spool_job stk i rq inp =
     bnd (sys_creat (data_name i)) (\<lambda>c. case c of
       Inl e \<Rightarrow> ret (Inl e)
     | Inr _ \<Rightarrow>
     bnd (store_data stk (data_name i) True (flags rq) inp) (\<lambda>d. case fst d of
       Inl e \<Rightarrow> thn (unlink (data_name i)) (ret (Inl e))
     | Inr fl \<Rightarrow>
     let rq' = rq\<lparr>flags := fl\<rparr> in
     bnd (sys_creat (req_name i)) (\<lambda>c. case c of
       Inl e \<Rightarrow> thn (unlink (data_name i)) (ret (Inl e))
     | Inr _ \<Rightarrow>
     bnd (append_file (req_name i) (req_bytes rq')) (\<lambda>w.
       if w \<noteq> Inr sizeof_req
       then thn (unlink (req_name i)) (thn (unlink (data_name i)) (
              ret (Inl (case w of Inl e \<Rightarrow> e | Inr _ \<Rightarrow> EIO))))
       else ret (Inr rq')))))"

definition host_order :: "printreq \<Rightarrow> printreq" where
  "host_order r = r\<lparr>req_size := ntohl (req_size r), flags := ntohl (flags r)\<rparr>"

text \<open>
  The thread: its exit status and what it sent. \<open>oom\<close> and \<open>oom'\<close>: \<^verbatim>\<open>malloc\<close>
  fails for the worker and for the job. Every exit runs \<open>client_cleanup\<close>.
\<close>

definition client_thread ::
  "(int \<Rightarrow> string) \<Rightarrow> char list \<Rightarrow> printresp \<Rightarrow> bool \<Rightarrow> bool \<Rightarrow> nat \<Rightarrow> int \<Rightarrow> source \<Rightarrow> sink \<Rightarrow>
     (int \<times> sink) srv"
where
  "client_thread strerror stk res0 oom oom' t fd inp out =
     bnd (add_worker oom t fd) (\<lambda>ok.
     if \<not> ok then thn (client_cleanup t) (ret (1, out)) else
     case treadn sizeof_req inp of (n, bs, inp') \<Rightarrow>
     if n \<noteq> Inr sizeof_req
     then let err = (case n of Inl e \<Rightarrow> e | Inr _ \<Rightarrow> EIO)
          in thn (client_cleanup t) (ret (1, send_response (refusal strerror res0 err) out))
     else
     bnd get_newjobno (\<lambda>i.
     bnd (spool_job stk i (host_order (bytes_req bs)) inp') (\<lambda>r. case r of
       Inl err \<Rightarrow> thn (client_cleanup t) (ret (1, send_response (refusal strerror res0 err) out))
     | Inr rq' \<Rightarrow>
         let out' = send_response (acceptance res0 i) out
         in thn (add_job oom' rq' i) (thn (client_cleanup t) (ret (0, out'))))))"

subsection \<open>Restart\<close>

text \<open>
  One entry of the request directory: a request that cannot be read whole is deleted with
  its data.
\<close>

definition requeue_entry :: "string \<Rightarrow> unit srv" where
  "requeue_entry d_name =
     (if d_name = ''.'' \<or> d_name = ''..'' then ret ()
      else let fname = in_dir REQDIR d_name
        in thn (require (length fname < 64) (Overrun ''fname'')) (
           bnd next_call (\<lambda>c1.
           bnd (gets (\<lambda>s. map_of (spool s) fname)) (\<lambda>f.
           if f = None \<or> (case c1 of Fails _ \<Rightarrow> True | _ \<Rightarrow> False) then ret ()
           else
           bnd next_call (\<lambda>c2.
           let nr = (case c2 of
                 Fails e \<Rightarrow> Inl e
               | Short k \<Rightarrow> Inr (take k (take sizeof_req (the f)))
               | Works \<Rightarrow> Inr (take sizeof_req (the f)))
           in case nr of
               Inl e \<Rightarrow> thn (unlink fname) (unlink (in_dir DATADIR d_name))
             | Inr bs \<Rightarrow>
                 if length bs \<noteq> sizeof_req
                 then thn (unlink fname) (unlink (in_dir DATADIR d_name))
                 else add_job False (bytes_req bs) (word_of_int (atol d_name)))))))"

fun requeue :: "string list \<Rightarrow> unit srv" where
  "requeue [] = ret ()"
| "requeue (d # ds) = thn (requeue_entry d) (requeue ds)"

text \<open>\<open>names\<close>: what \<^verbatim>\<open>readdir\<close> returns; \<open>None\<close> when \<^verbatim>\<open>opendir\<close> fails.\<close>

definition build_qonstart :: "string list option \<Rightarrow> unit srv" where
  "build_qonstart names = (case names of None \<Rightarrow> ret () | Some ds \<Rightarrow> requeue ds)"

subsection \<open>The printer's address\<close>

text \<open>
  \<open>addr\<close> is the result of \<^verbatim>\<open>get_printaddr\<close>: no address, an address without a canonical
  name, or the name.
\<close>

definition init_printer :: "string option option \<Rightarrow> unit srv" where
  "init_printer addr =
     (case addr of
        None \<Rightarrow> fail_with (Exit 1)
      | Some nm \<Rightarrow> modify (\<lambda>s. s\<lparr>printer_name := (case nm of None \<Rightarrow> ''printer'' | Some n \<Rightarrow> n)\<rparr>))"

subsection \<open>Signals\<close>

abbreviation (input) SIGHUP :: int where "SIGHUP \<equiv> 1"
abbreviation (input) SIGTERM :: int where "SIGTERM \<equiv> 15"

text \<open>One turn of \<open>signal_thread\<close>; \<open>Inl err\<close>: \<^verbatim>\<open>sigwait\<close> failed.\<close>

definition signal_turn :: "int + int \<Rightarrow> unit srv" where
  "signal_turn w =
     (case w of
        Inl err \<Rightarrow> fail_with (LogQuit ''sigwait failed'')
      | Inr signo \<Rightarrow>
          if signo = SIGHUP then modify (\<lambda>s. s\<lparr>reread := True\<rparr>)
          else if signo = SIGTERM then thn kill_workers (fail_with (Exit 0))
          else thn kill_workers (fail_with (LogQuit ''unexpected signal'')))"

section \<open>Storing a job\<close>

declare store_data.simps [simp del]

lemma spool_update [simp]: "map_of (AList.update n bs sp) = (map_of sp)(n \<mapsto> bs)"
  by (rule update_conv')

lemma spool_delete [simp]: "map_of (AList.delete n sp) = (map_of sp)(n := None)"
  by (rule delete_conv')

lemma data_req_distinct [simp]: "data_name i \<noteq> req_name j" "req_name j \<noteq> data_name i"
  by (simp_all add: data_name_def req_name_def in_dir_def SPOOLDIR_def DATADIR_def REQDIR_def)

text \<open>All a timed reader gets before a pause, an error or the end.\<close>

definition delivered :: "source \<Rightarrow> char list" where
  "delivered inp = lead (length (ttoks inp)) (ttoks inp)"

definition first_piece :: "source \<Rightarrow> char list" where
  "first_piece inp = (case fst (tread IOBUFSZ inp) of Inl e \<Rightarrow> [] | Inr d \<Rightarrow> d)"

definition text_flag :: "char list \<Rightarrow> source \<Rightarrow> 32 word \<Rightarrow> 32 word" where
  "text_flag stk inp fl =
     (if first_piece inp \<noteq> [] \<and> take 4 (overwrite stk 0 (first_piece inp)) \<noteq> ''%!PS''
      then fl OR PR_TEXT else fl)"

lemma delivered_step:
  "tread IOBUFSZ inp = (Inl e, inp') \<Longrightarrow> delivered inp = []"
  "tread IOBUFSZ inp = (Inr [], inp') \<Longrightarrow> delivered inp = []"
  "tread IOBUFSZ inp = (Inr d, inp') \<Longrightarrow> d \<noteq> [] \<Longrightarrow> delivered inp = d @ delivered inp'"
proof -
  show "delivered inp = []" if "tread IOBUFSZ inp = (Inl e, inp')"
    using timed.rd_error [OF _ that] by (simp add: delivered_def)
  show "delivered inp = []" if "tread IOBUFSZ inp = (Inr [], inp')"
    using timed.rd_end [OF _ that] by (auto simp: delivered_def)
  show "delivered inp = d @ delivered inp'" if "tread IOBUFSZ inp = (Inr d, inp')" "d \<noteq> []"
    using timed.rd_data [OF _ that] by (simp add: delivered_def lead_append)
qed

text \<open>
  The effects of the spool directory's calls, as functions of the contents: what was called
  is in \<open>sp\<close> (the spool directory as a map) and \<open>cs\<close> (the calls that are left).
\<close>

lemma extend_file_run:
  "map_of (spool s) n = Some old \<Longrightarrow>
     extend_file n bs s = Inr ((), s\<lparr>spool := AList.update n (old @ bs) (spool s)\<rparr>)"
  by (simp add: extend_file_def)

lemma next_call_run: "\<exists>c cs. next_call s = Inr (c, s\<lparr>calls := cs\<rparr>) \<and> (calls s = [] \<longrightarrow> c = Works \<and> cs = [])"
  by (cases "calls s"; simp add: next_call_def) (metis printd.surjective printd.update_convs(4))

lemma sys_creat_run:
  "\<exists>c sp cs. sys_creat n s = Inr (c, s\<lparr>spool := sp, calls := cs\<rparr>) \<and>
     (case c of Inl e \<Rightarrow> map_of sp = map_of (spool s) | Inr _ \<Rightarrow> map_of sp = (map_of (spool s))(n \<mapsto> [])) \<and>
     (calls s = [] \<longrightarrow> c = Inr () \<and> cs = [])"
proof -
  obtain c cs where c: "next_call s = Inr (c, s\<lparr>calls := cs\<rparr>)" "calls s = [] \<longrightarrow> c = Works \<and> cs = []"
    using next_call_run [of s] by blast
  show ?thesis
  proof (cases "\<exists>e. c = Fails e")
    case True
    then obtain e where "c = Fails e" by blast
    with c show ?thesis
      by (intro exI [of _ "Inl e"] exI [of _ "spool s"] exI [of _ cs]) (simp add: sys_creat_def bnd_def)
  next
    case False
    with c show ?thesis
      by (intro exI [of _ "Inr ()"] exI [of _ "AList.update n [] (spool s)"] exI [of _ cs])
        (auto simp: sys_creat_def put_file_def bnd_def thn_def split: outcome.splits)
  qed
qed

lemma append_file_run:
  assumes "map_of (spool s) n = Some old"
  shows "\<exists>w sp cs x. append_file n bs s = Inr (w, s\<lparr>spool := sp, calls := cs\<rparr>) \<and>
     map_of sp = (map_of (spool s))(n \<mapsto> old @ x) \<and> (w = Inr (length bs) \<longrightarrow> x = bs) \<and>
     (calls s = [] \<longrightarrow> w = Inr (length bs) \<and> cs = [])"
proof -
  obtain c cs where c: "next_call s = Inr (c, s\<lparr>calls := cs\<rparr>)" "calls s = [] \<longrightarrow> c = Works \<and> cs = []"
    using next_call_run [of s] by blast
  show ?thesis
  proof (cases c)
    case Works
    with c assms show ?thesis
      by (intro exI [of _ "Inr (length bs)"] exI [of _ "AList.update n (old @ bs) (spool s)"] exI [of _ cs]
          exI [of _ bs]) (simp add: append_file_def extend_file_def bnd_def thn_def)
  next
    case (Fails e)
    with c assms show ?thesis
      by (intro exI [of _ "Inl e"] exI [of _ "spool s"] exI [of _ cs] exI [of _ "[]"])
        (auto simp: append_file_def bnd_def)
  next
    case (Short k)
    with c assms show ?thesis
      by (intro exI [of _ "Inr (min k (length bs))"] exI [of _ "AList.update n (old @ take k bs) (spool s)"]
          exI [of _ cs] exI [of _ "take k bs"])
        (auto simp: append_file_def extend_file_def bnd_def thn_def min_def split: if_splits)
  qed
qed

lemma store_data_run:
  assumes "map_of (spool s) n = Some old"
  shows "\<exists>r inp' sp cs x. store_data stk n first fl inp s = Inr ((r, inp'), s\<lparr>spool := sp, calls := cs\<rparr>) \<and>
     map_of sp = (map_of (spool s))(n \<mapsto> old @ x) \<and>
     (\<forall>fl'. r = Inr fl' \<longrightarrow> x = delivered inp \<and> fl' = (if first then text_flag stk inp fl else fl)) \<and>
     (calls s = [] \<longrightarrow> (\<exists>fl'. r = Inr fl') \<and> cs = [])"
  using assms
proof (induction stk n first fl inp arbitrary: s old rule: store_data.induct)
  case (1 stk n first fl inp)
  obtain y inp1 where rd: "tread IOBUFSZ inp = (y, inp1)" by (cases "tread IOBUFSZ inp")
  show ?case
  proof (cases "\<exists>d. y = Inr d \<and> d \<noteq> []")
    case False
    then have "store_data stk n first fl inp s = Inr ((Inr fl, inp1), s\<lparr>spool := spool s, calls := calls s\<rparr>)"
      using rd by (cases y) (auto simp: store_data.simps [of stk])
    moreover have "delivered inp = []" using False rd delivered_step(1,2) by (cases y) auto
    moreover have "text_flag stk inp fl = fl"
      using False rd by (cases y) (auto simp: text_flag_def first_piece_def)
    moreover have "map_of (spool s) = (map_of (spool s))(n \<mapsto> old @ [])" using "1.prems" by auto
    ultimately show ?thesis by (intro exI conjI) (assumption, assumption, simp_all)
  next
    case True
    then obtain d where y: "y = Inr d" and d: "d \<noteq> []" by blast
    let ?fl = "if first \<and> take 4 (overwrite stk 0 d) \<noteq> ''%!PS'' then fl OR PR_TEXT else fl"
    have tf: "(if first then text_flag stk inp fl else fl) = ?fl"
      using rd y d by (simp add: text_flag_def first_piece_def)
    obtain w sp cs x where a: "append_file n d s = Inr (w, s\<lparr>spool := sp, calls := cs\<rparr>)"
      "map_of sp = (map_of (spool s))(n \<mapsto> old @ x)" "w = Inr (length d) \<longrightarrow> x = d"
      "calls s = [] \<longrightarrow> w = Inr (length d) \<and> cs = []"
      using append_file_run [OF "1.prems", of d] by blast
    show ?thesis
    proof (cases "w = Inr (length d)")
      case False
      obtain e where "store_data stk n first fl inp s = Inr ((Inl e, inp1), s\<lparr>spool := sp, calls := cs\<rparr>)"
        using False a(1) rd y d by (cases w) (auto simp: store_data.simps [of stk] bnd_def)
      with a False show ?thesis by (intro exI conjI) (assumption, assumption, auto)
    next
      case True
      let ?s = "s\<lparr>spool := sp, calls := cs\<rparr>"
      have m: "map_of (spool ?s) n = Some (old @ d)" using a(2,3) True by simp
      have same: "\<not> length d \<noteq> length d" by simp
      obtain r inp' sp' cs' x' where
        i: "store_data stk n False ?fl inp1 ?s = Inr ((r, inp'), ?s\<lparr>spool := sp', calls := cs'\<rparr>)"
          "map_of sp' = (map_of (spool ?s))(n \<mapsto> (old @ d) @ x')"
          "\<forall>fl'. r = Inr fl' \<longrightarrow> x' = delivered inp1 \<and> fl' = ?fl"
          "calls ?s = [] \<longrightarrow> (\<exists>fl'. r = Inr fl') \<and> cs' = []"
        using "1.IH" [OF rd [symmetric] y d refl same m] unfolding if_False by blast
      have "store_data stk n first fl inp s = Inr ((r, inp'), s\<lparr>spool := sp', calls := cs'\<rparr>)"
        using rd y d a(1) True i(1) by (simp add: store_data.simps [of stk] bnd_def)
      moreover have "map_of sp' = (map_of (spool s))(n \<mapsto> old @ d @ x')" using i(2) a(2) by simp
      moreover have "\<forall>fl'. r = Inr fl' \<longrightarrow> d @ x' = delivered inp \<and> fl' = (if first then text_flag stk inp fl else fl)"
        unfolding tf using i(3) delivered_step(3) [OF rd [unfolded y] d] by simp
      ultimately show ?thesis using i(4) a(4)
        by (intro exI conjI) (assumption, assumption, assumption, simp)
    qed
  qed
qed

text \<open>A job is stored with both its files, or leaves none.\<close>

lemma spool_job_run:
  assumes "wf_req rq" and "map_of (spool s) (data_name i) = None" and "map_of (spool s) (req_name i) = None"
  shows "\<exists>r sp cs. spool_job stk i rq inp s = Inr (r, s\<lparr>spool := sp, calls := cs\<rparr>) \<and>
     (case r of
        Inl e \<Rightarrow> map_of sp = map_of (spool s)
      | Inr rq' \<Rightarrow> rq' = rq\<lparr>flags := text_flag stk inp (flags rq)\<rparr> \<and>
          map_of sp = (map_of (spool s))(data_name i \<mapsto> delivered inp, req_name i \<mapsto> req_bytes rq')) \<and>
     (calls s = [] \<longrightarrow> (\<exists>rq'. r = Inr rq') \<and> cs = [])"
proof -
  let ?d = "data_name i" and ?q = "req_name i"
  let ?rq = "rq\<lparr>flags := text_flag stk inp (flags rq)\<rparr>"
  obtain c1 sp1 cs1 where 1: "sys_creat ?d s = Inr (c1, s\<lparr>spool := sp1, calls := cs1\<rparr>)"
    "case c1 of Inl e \<Rightarrow> map_of sp1 = map_of (spool s) | Inr _ \<Rightarrow> map_of sp1 = (map_of (spool s))(?d \<mapsto> [])"
    "calls s = [] \<longrightarrow> c1 = Inr () \<and> cs1 = []"
    using sys_creat_run [of ?d s] by blast
  show ?thesis
  proof (cases c1)
    case (Inl e)
    have "spool_job stk i rq inp s = Inr (Inl e, s\<lparr>spool := sp1, calls := cs1\<rparr>)"
      using 1(1) Inl by (simp add: spool_job_def bnd_def)
    with 1 Inl show ?thesis by (intro exI conjI) (assumption, simp_all)
  next
    case c1: (Inr u)
    let ?s1 = "s\<lparr>spool := sp1, calls := cs1\<rparr>"
    have "map_of (spool ?s1) ?d = Some []" using 1(2) c1 by simp
    from store_data_run [OF this, of stk True "flags rq" inp] obtain r inp' sp2 cs2 x where
      2: "store_data stk ?d True (flags rq) inp ?s1 = Inr ((r, inp'), ?s1\<lparr>spool := sp2, calls := cs2\<rparr>)"
        "map_of sp2 = (map_of (spool ?s1))(?d \<mapsto> x)"
        "\<forall>fl'. r = Inr fl' \<longrightarrow> x = delivered inp \<and> fl' = text_flag stk inp (flags rq)"
        "calls ?s1 = [] \<longrightarrow> (\<exists>fl'. r = Inr fl') \<and> cs2 = []"
      unfolding append_Nil if_True by blast
    let ?s2 = "s\<lparr>spool := sp2, calls := cs2\<rparr>"
    have m2: "map_of sp2 = (map_of (spool s))(?d \<mapsto> x)" using 2(2) 1(2) c1 by simp
    show ?thesis
    proof (cases r)
      case (Inl e)
      have "spool_job stk i rq inp s = Inr (Inl e, s\<lparr>spool := AList.delete ?d sp2, calls := cs2\<rparr>)"
        using 1(1) c1 2(1) Inl by (simp add: spool_job_def bnd_def thn_def unlink_def)
      with m2 assms(2) 1(3) 2(4) Inl show ?thesis
        by (intro exI conjI) (assumption, auto)
    next
      case (Inr fl)
      then have fl: "fl = text_flag stk inp (flags rq)" and x: "x = delivered inp" using 2(3) by auto
      obtain c3 sp3 cs3 where 3: "sys_creat ?q ?s2 = Inr (c3, ?s2\<lparr>spool := sp3, calls := cs3\<rparr>)"
        "case c3 of Inl e \<Rightarrow> map_of sp3 = map_of (spool ?s2) | Inr _ \<Rightarrow> map_of sp3 = (map_of (spool ?s2))(?q \<mapsto> [])"
        "calls ?s2 = [] \<longrightarrow> c3 = Inr () \<and> cs3 = []"
        using sys_creat_run [of ?q ?s2] by blast
      show ?thesis
      proof (cases c3)
        case c3: (Inl e)
        have "spool_job stk i rq inp s = Inr (Inl e, s\<lparr>spool := AList.delete ?d sp3, calls := cs3\<rparr>)"
          using 1(1) c1 2(1) Inr 3(1) c3 fl by (simp add: spool_job_def bnd_def thn_def unlink_def Let_def)
        with m2 assms(2) 1(3) 2(4) 3(2,3) c3 Inr show ?thesis
          by (intro exI conjI) (assumption, auto)
      next
        case c3: (Inr v)
        let ?s3 = "s\<lparr>spool := sp3, calls := cs3\<rparr>"
        have m3: "map_of sp3 = (map_of (spool s))(?d \<mapsto> x, ?q \<mapsto> [])" using 3(2) c3 m2 by simp
        then have "map_of (spool ?s3) ?q = Some []" by simp
        from append_file_run [OF this, of "req_bytes ?rq"] obtain w sp4 cs4 z where
          4: "append_file ?q (req_bytes ?rq) ?s3 = Inr (w, ?s3\<lparr>spool := sp4, calls := cs4\<rparr>)"
            "map_of sp4 = (map_of (spool ?s3))(?q \<mapsto> z)" "w = Inr (length (req_bytes ?rq)) \<longrightarrow> z = req_bytes ?rq"
            "calls ?s3 = [] \<longrightarrow> w = Inr (length (req_bytes ?rq)) \<and> cs4 = []"
          unfolding append_Nil by blast
        have len: "length (req_bytes ?rq) = sizeof_req"
          using assms(1) by (intro length_req_bytes) (simp add: wf_req_def)
        show ?thesis
        proof (cases "w = Inr sizeof_req")
          case True
          have "spool_job stk i rq inp s = Inr (Inr ?rq, s\<lparr>spool := sp4, calls := cs4\<rparr>)"
            using 1(1) c1 2(1) Inr 3(1) c3 fl 4(1) True by (simp add: spool_job_def bnd_def thn_def Let_def)
          with m3 4 x True len 1(3) 2(4) 3(3) show ?thesis by (intro exI conjI) (assumption, auto)
        next
          case False
          let ?e = "case w of Inl e \<Rightarrow> e | Inr _ \<Rightarrow> EIO"
          have "spool_job stk i rq inp s =
              Inr (Inl ?e, s\<lparr>spool := AList.delete ?d (AList.delete ?q sp4), calls := cs4\<rparr>)"
            using 1(1) c1 2(1) Inr 3(1) c3 fl 4(1) False
            by (simp add: spool_job_def bnd_def thn_def unlink_def Let_def)
          with m3 4 False len assms(2,3) 1(3) 2(4) 3(3) show ?thesis
            by (intro exI conjI) (assumption, auto)
        qed
      qed
    qed
  qed
qed

end
