(* ===== verification/Printd_Spool.thy ===== *)
theory Printd_Spool
  imports Printd
begin

text \<open>
  What the spooling side of \<^verbatim>\<open>printd\<close> guarantees: job numbers, jobs that are taken
  whole or not at all, and what a restart finds.
\<close>

section \<open>Job numbers\<close>

definition succ_job :: "32 word \<Rightarrow> 32 word" where
  "succ_job w = (if sint (w + 1) \<le> 0 then 1 else w + 1)"

lemma get_newjobno_run: "get_newjobno s = Inr (nextjob s, s\<lparr>nextjob := succ_job (nextjob s)\<rparr>)"
  by (simp add: get_newjobno_def succ_job_def bnd_def thn_def)

text \<open>A positive job number as a natural number.\<close>

lemma pos_job:
  assumes "0 < sint (i :: 32 word)"
  obtains n where "i = of_nat n" "unat i = n" "sint i = int n" "0 < n" "n < 2147483648"
    "sdec (sint i) = dec n" "int n \<le> LONG_MAX" "length (dec n) \<le> 10"
proof -
  define n where "n = unat i"
  have n: "0 < n" "n < 2147483648" using assms by (simp_all add: sint_pos_iff n_def)
  have "int n = uint i" by (simp add: n_def)
  then have s: "sint i = int n" using n(2) by (simp add: sint32)
  moreover have "sdec (sint i) = dec n" unfolding s by (simp add: sdec_def)
  moreover have "int n \<le> LONG_MAX" using n by (simp add: LONG_MAX_def)
  moreover have "length (dec n) \<le> 10" using length_dec_le [of n 9] n by simp
  ultimately show ?thesis using n by (intro that [of n]) (simp_all add: n_def)
qed

lemma succ_job_unat:
  assumes "0 < unat w" and "unat w < 2147483648"
  shows "unat (succ_job w) = unat w mod 2147483647 + 1"
proof -
  have u: "unat (w + 1) = unat w + 1"
    using assms(2) by (subst unat_add_lem [THEN iffD1]) simp_all
  show ?thesis
  proof (cases "unat w = 2147483647")
    case True
    then have "\<not> 0 < sint (w + 1)" using u by (simp add: sint_pos_iff)
    with True show ?thesis by (simp add: succ_job_def)
  next
    case False
    then have "0 < sint (w + 1)" using u assms by (simp add: sint_pos_iff)
    with u False assms show ?thesis by (simp add: succ_job_def)
  qed
qed

lemma succ_job_pos: "0 < sint w \<Longrightarrow> 0 < sint (succ_job w)"
  using succ_job_unat [of w] by (simp add: sint_pos_iff)

lemma succ_job_iterate:
  assumes "0 < unat w" and "unat w < 2147483648"
  shows "unat ((succ_job ^^ k) w) = (unat w - 1 + k) mod 2147483647 + 1"
proof (induction k)
  case 0
  then show ?case using assms by simp
next
  case (Suc k)
  let ?v = "(succ_job ^^ k) w"
  have v: "0 < unat ?v" "unat ?v < 2147483648"
    using Suc mod_less_divisor [of 2147483647 "unat w - 1 + k"] by simp_all
  have "unat ((succ_job ^^ Suc k) w) = unat ?v mod 2147483647 + 1"
    using succ_job_unat [OF v] by simp
  also have "\<dots> = (unat w - 1 + Suc k) mod 2147483647 + 1"
    by (simp only: Suc mod_Suc_eq mod_add_left_eq) simp
  finally show ?case .
qed

text \<open>The numbers that successive calls hand out.\<close>

fun newjobnos :: "nat \<Rightarrow> 32 word list srv" where
  "newjobnos 0 = ret []"
| "newjobnos (Suc k) = bnd get_newjobno (\<lambda>i. bnd (newjobnos k) (\<lambda>is. ret (i # is)))"

lemma newjobnos_run:
  "newjobnos k s =
     Inr (map (\<lambda>j. (succ_job ^^ j) (nextjob s)) [0..<k], s\<lparr>nextjob := (succ_job ^^ k) (nextjob s)\<rparr>)"
proof (induction k arbitrary: s)
  case (Suc k)
  have "map (\<lambda>j. (succ_job ^^ j) x) [0..<Suc k] = x # map (\<lambda>j. (succ_job ^^ j) (succ_job x)) [0..<k]" for x
    by (rule nth_equalityI) (auto simp: nth_Cons funpow_swap1 less_Suc_eq_0_disj simp del: upt_Suc)
  then show ?case
    by (simp add: bnd_def get_newjobno_run Suc funpow_swap1 del: upt_Suc)
qed simp

lemma mod_add_inj:
  assumes "(a + i) mod m = (a + j) mod (m::nat)" and "i < m" and "j < m"
  shows "i = j"
proof -
  have le: "x = y" if "x \<le> y" "(a + x) mod m = (a + y) mod m" "y < m" for x y
  proof -
    have "m dvd (a + y) - (a + x)" using mod_eq_dvd_iff_nat [of "a + x" "a + y" m] that by simp
    then have "m dvd y - x" by simp
    moreover have "y - x < m" using that by simp
    ultimately have "y - x = 0" using nat_dvd_not_less by blast
    with that show ?thesis by simp
  qed
  show ?thesis using le [of i j] le [of j i] assms by (cases "i \<le> j") auto
qed

lemma distinct_newjobnos:
  assumes "0 < unat w" and "unat w < 2147483648" and "k \<le> 2147483647"
  shows "distinct (map (\<lambda>j. (succ_job ^^ j) w) [0..<k])"
proof -
  have "inj_on (\<lambda>j. (succ_job ^^ j) w) {0..<k}"
  proof (rule inj_onI)
    fix i j assume ij: "i \<in> {0..<k}" "j \<in> {0..<k}" and eq: "(succ_job ^^ i) w = (succ_job ^^ j) w"
    then have "(unat w - 1 + i) mod 2147483647 = (unat w - 1 + j) mod 2147483647"
      using succ_job_iterate [OF assms(1,2)] by (metis add_right_cancel)
    moreover have "i < 2147483647" "j < 2147483647" using ij assms(3) by simp_all
    ultimately show "i = j" by (rule mod_add_inj)
  qed
  then show ?thesis by (simp add: distinct_map)
qed

section \<open>A client's job\<close>

lemma treadn_whole:
  assumes "treadn n inp = (Inr n, bs, inp')"
  shows "length bs = n"
proof -
  have "readn_spec n (ttoks inp) = (Inr n, bs, ttoks inp')"
    using timed.readn_tokens [OF assms [unfolded treadn_def]] .
  then show ?thesis by (auto simp: readn_spec_def split: option.splits if_splits)
qed

lemma wf_host_order: "wf_req r \<Longrightarrow> wf_req (host_order r)"
  by (simp add: wf_req_def host_order_def)

text \<open>The request as it is stored and queued.\<close>

definition stored_req :: "char list \<Rightarrow> char list \<Rightarrow> source \<Rightarrow> printreq" where
  "stored_req stk bs inp =
     (let rq = host_order (bytes_req bs) in rq\<lparr>flags := text_flag stk inp (flags rq)\<rparr>)"

definition accepts :: "printresp \<Rightarrow> sink \<Rightarrow> int \<Rightarrow> printreq \<Rightarrow> char list \<Rightarrow> printd \<Rightarrow> nat list \<Rightarrow> int \<times> sink \<Rightarrow> printd \<Rightarrow> bool" where
  "accepts res0 out fd rq bs s as r s' \<longleftrightarrow>
     r = (0, send_response (acceptance res0 (nextjob s)) out) \<and>
     job_list s' (as @ [job_brk s]) \<and>
     map (item (jobs s')) (as @ [job_brk s]) = map (item (jobs s)) as @ [(nextjob s, rq)] \<and>
     map_of (spool s') =
       (map_of (spool s))(data_name (nextjob s) \<mapsto> bs, req_name (nextjob s) \<mapsto> req_bytes rq) \<and>
     \<not> printer_waits s'"

definition refuses_job :: "(int \<Rightarrow> string) \<Rightarrow> printresp \<Rightarrow> sink \<Rightarrow> printd \<Rightarrow> nat list \<Rightarrow> int \<times> sink \<Rightarrow> printd \<Rightarrow> bool" where
  "refuses_job strerror res0 out s as r s' \<longleftrightarrow>
     (\<exists>err. r = (1, send_response (refusal strerror res0 err) out)) \<and>
     job_list s' as \<and> map (item (jobs s')) as = map (item (jobs s)) as \<and>
     map_of (spool s') = map_of (spool s)"

lemma client_thread_run:
  assumes q: "job_list s as" and w: "idle_workers s"
    and fresh: "map_of (spool s) (data_name (nextjob s)) = None" "map_of (spool s) (req_name (nextjob s)) = None"
    and hdr: "treadn sizeof_req inp = (Inr sizeof_req, bs, inp')"
  shows "\<exists>r s'. client_thread strerror stk res0 False False t fd inp out s = Inr (r, s') \<and>
    (accepts res0 out fd (stored_req stk bs inp') (delivered inp') s as r s' \<or>
     refuses_job strerror res0 out s as r s' \<and> calls s \<noteq> []) \<and>
    idle_workers s' \<and> nextjob s' = succ_job (nextjob s) \<and> jobfile s' = jobfile s \<and>
    open_socks s' = filter (\<lambda>x. x \<noteq> fd) (open_socks s)"
proof -
  let ?i = "nextjob s" and ?rq = "host_order (bytes_req bs)"
  obtain n ws h where aw: "add_worker False t fd s = Inr (True, s\<lparr>worker_brk := n, wthreads := ws, workers := h\<rparr>)"
    and ow: "one_worker t fd (s\<lparr>worker_brk := n, wthreads := ws, workers := h\<rparr>)"
    using add_worker_alone [OF w, of t fd] by blast
  let ?s1 = "s\<lparr>worker_brk := n, wthreads := ws, workers := h, nextjob := succ_job ?i\<rparr>"
  have wf: "wf_req ?rq"
    using treadn_whole [OF hdr] by (intro wf_host_order wf_bytes_req)
  have f1: "map_of (spool ?s1) (data_name ?i) = None" "map_of (spool ?s1) (req_name ?i) = None"
    using fresh by simp_all
  obtain rr sp cs where sj: "spool_job stk ?i ?rq inp' ?s1 = Inr (rr, ?s1\<lparr>spool := sp, calls := cs\<rparr>)"
    and res: "case rr of Inl e \<Rightarrow> map_of sp = map_of (spool ?s1)
      | Inr rq' \<Rightarrow> rq' = ?rq\<lparr>flags := text_flag stk inp' (flags ?rq)\<rparr> \<and>
          map_of sp = (map_of (spool ?s1))(data_name ?i \<mapsto> delivered inp', req_name ?i \<mapsto> req_bytes rq')"
    and cl: "calls ?s1 = [] \<longrightarrow> (\<exists>rq'. rr = Inr rq') \<and> cs = []"
    using spool_job_run [OF wf f1, of stk inp'] by blast
  show ?thesis
  proof (cases rr)
    case (Inl e)
    let ?s2 = "?s1\<lparr>spool := sp, calls := cs\<rparr>"
    have ow2: "one_worker t fd ?s2" using ow by (simp add: one_worker_def)
    let ?s3 = "?s2\<lparr>workers := None, wthreads := (\<lambda>_. None), open_socks := filter (\<lambda>x. x \<noteq> fd) (open_socks ?s2)\<rparr>"
    have "client_thread strerror stk res0 False False t fd inp out s =
        Inr ((1, send_response (refusal strerror res0 e) out), ?s3)"
      using aw hdr sj Inl client_cleanup_alone [OF ow2]
      by (simp add: client_thread_def bnd_def thn_def get_newjobno_run)
    moreover have "refuses_job strerror res0 out s as (1, send_response (refusal strerror res0 e) out) ?s3"
      using q res Inl by (auto simp: refuses_job_def job_list_def)
    moreover have "calls s \<noteq> []" using cl Inl by auto
    ultimately show ?thesis by (intro exI conjI) (assumption, auto simp: idle_workers_def)
  next
    case (Inr rq')
    let ?s2 = "?s1\<lparr>spool := sp, calls := cs\<rparr>"
    have rq': "rq' = stored_req stk bs inp'" using res Inr by (simp add: stored_req_def Let_def)
    have q2: "job_list ?s2 as" using q by (simp add: job_list_def)
    from add_job_run [OF q2, of rq' ?i] obtain hp hd where
      aj: "add_job False rq' ?i ?s2 = Inr ((), ?s2\<lparr>jobs := hp, job_brk := Suc (job_brk ?s2), jobhead := hd,
          jobtail := Some (job_brk ?s2), printer_waits := False\<rparr>)"
      and jl: "job_list (?s2\<lparr>jobs := hp, job_brk := Suc (job_brk ?s2), jobhead := hd,
          jobtail := Some (job_brk ?s2), printer_waits := False\<rparr>) (as @ [job_brk ?s2])"
      and it: "map (item hp) (as @ [job_brk ?s2]) = map (item (jobs ?s2)) as @ [(?i, rq')]"
      unfolding Let_def by blast
    let ?s3 = "?s2\<lparr>jobs := hp, job_brk := Suc (job_brk ?s2), jobhead := hd,
          jobtail := Some (job_brk ?s2), printer_waits := False\<rparr>"
    have ow3: "one_worker t fd ?s3" using ow by (simp add: one_worker_def)
    let ?s4 = "?s3\<lparr>workers := None, wthreads := (\<lambda>_. None), open_socks := filter (\<lambda>x. x \<noteq> fd) (open_socks ?s3)\<rparr>"
    have "client_thread strerror stk res0 False False t fd inp out s =
        Inr ((0, send_response (acceptance res0 ?i) out), ?s4)"
      using aw hdr sj Inr aj client_cleanup_alone [OF ow3]
      by (simp add: client_thread_def bnd_def thn_def get_newjobno_run Let_def)
    moreover have "accepts res0 out fd (stored_req stk bs inp') (delivered inp') s as
        (0, send_response (acceptance res0 ?i) out) ?s4"
      using jl it res Inr rq' by (simp add: accepts_def job_list_def)
    ultimately show ?thesis by (intro exI conjI) (assumption, auto simp: idle_workers_def)
  qed
qed

section \<open>Restart\<close>

text \<open>What a crash leaves: the files.\<close>

definition crash :: "printd \<Rightarrow> printd" where
  "crash s =
     \<lparr>jobs = (\<lambda>_. None), job_brk = 0, jobhead = None, jobtail = None, printer_waits = False,
      wthreads = (\<lambda>_. None), worker_brk = 0, workers = None, open_socks = [], cancelled = [],
      nextjob = 0, jobfile = jobfile s, spool = spool s, calls = calls s, reread = False, printer_name = []\<rparr>"

lemma atol_dec_append:
  assumes "int n \<le> LONG_MAX" and "rest = [] \<or> \<not> isdigit (hd rest)"
  shows "atol (dec n @ rest) = int n"
proof -
  have c: "cstr (dec n @ rest) = dec n @ cstr rest"
    using NUL_dec [of n] by (auto simp: cstr_def takeWhile_append)
  have "isdigit (hd (dec n))" by (rule isdigit_dec [of _ n]) simp
  then have h: "\<not> isspace (hd (dec n))" "hd (dec n) \<noteq> CHR ''-''" "hd (dec n) \<noteq> CHR ''+''"
    by (auto simp: isdigit_def isspace_def)
  have d: "dropWhile isspace (dec n @ cstr rest) = dec n @ cstr rest"
    using h(1) by (cases "dec n") simp_all
  have t: "takeWhile isdigit (dec n @ cstr rest) = dec n"
    using assms(2) isdigit_dec by (cases rest) (auto simp: takeWhile_append cstr_def split: if_splits)
  have hd: "hd (dec n @ cstr rest) = hd (dec n)" by (simp add: hd_append)
  show ?thesis
    using assms(1) by (simp add: atol_def c d t hd h Let_def clamp_long_def LONG_MIN_def LONG_MAX_def)
qed

lemma atol_job_name:
  assumes "0 < sint i"
  shows "word_of_int (atol (sdec (sint i))) = (i :: 32 word)"
proof -
  obtain n where n: "i = of_nat n" "sdec (sint i) = dec n" "int n \<le> LONG_MAX"
    using pos_job [OF assms] by metis
  show ?thesis unfolding n(2) atol_dec [OF n(3)] by (simp add: n(1))
qed

lemma requeue_entry_run:
  assumes q: "job_list s as" and i: "0 < sint i" and c: "calls s = []"
    and f: "map_of (spool s) (req_name i) = Some (req_bytes rq)" "wf_req rq"
  shows "\<exists>s'. requeue_entry (sdec (sint i)) s = Inr ((), s') \<and> job_list s' (as @ [job_brk s]) \<and>
    map (item (jobs s')) (as @ [job_brk s]) = map (item (jobs s)) as @ [(i, rq)] \<and>
    spool s' = spool s \<and> calls s' = [] \<and> nextjob s' = nextjob s"
proof -
  obtain n where n: "sdec (sint i) = dec n" "length (dec n) \<le> 10" using pos_job [OF i] by metis
  have nm: "sdec (sint i) \<noteq> ''.''" "sdec (sint i) \<noteq> ''..''"
    using isdigit_dec [of "CHR ''.''" n] n(1) by (auto simp: isdigit_def)
  have len: "length (in_dir REQDIR (sdec (sint i))) < 64"
    using n by (simp add: in_dir_def SPOOLDIR_def REQDIR_def)
  have wh: "take sizeof_req (req_bytes rq) = req_bytes rq" "length (req_bytes rq) = sizeof_req"
    using length_req_bytes [OF f(2)] by simp_all
  have "requeue_entry (sdec (sint i)) s = add_job False rq i s"
    using nm len c f wh i
    by (simp add: requeue_entry_def req_name_def bnd_def thn_def require_apply next_call_def Let_def
        bytes_req_req_bytes atol_job_name)
  moreover obtain h' hd' where
    "add_job False rq i s = Inr ((), s\<lparr>jobs := h', job_brk := Suc (job_brk s), jobhead := hd',
       jobtail := Some (job_brk s), printer_waits := False\<rparr>)"
    "job_list (s\<lparr>jobs := h', job_brk := Suc (job_brk s), jobhead := hd',
       jobtail := Some (job_brk s), printer_waits := False\<rparr>) (as @ [job_brk s])"
    "map (item h') (as @ [job_brk s]) = map (item (jobs s)) as @ [(i, rq)]"
    using add_job_run [OF q, of rq i] unfolding Let_def by blast
  ultimately show ?thesis using c by (intro exI conjI) (simp, assumption, simp_all)
qed

lemma requeue_run:
  assumes "job_list s as" and "calls s = []"
    and "\<forall>i \<in> set is. 0 < sint i \<and> wf_req (rq i) \<and> map_of (spool s) (req_name i) = Some (req_bytes (rq i))"
  shows "\<exists>s' bs. requeue (map (\<lambda>i. sdec (sint i)) is) s = Inr ((), s') \<and> job_list s' (as @ bs) \<and>
    map (item (jobs s')) (as @ bs) = map (item (jobs s)) as @ map (\<lambda>i. (i, rq i)) is \<and>
    spool s' = spool s \<and> nextjob s' = nextjob s"
  using assms
proof (induction "is" arbitrary: s as)
  case Nil
  then show ?case by (intro exI [of _ s] exI [of _ "[]"]) simp
next
  case (Cons i "is")
  have i: "0 < sint i" "map_of (spool s) (req_name i) = Some (req_bytes (rq i))" "wf_req (rq i)"
    using Cons.prems(3) by auto
  from requeue_entry_run [OF Cons.prems(1) i(1) Cons.prems(2) i(2,3)] obtain s1 where
    1: "requeue_entry (sdec (sint i)) s = Inr ((), s1)" "job_list s1 (as @ [job_brk s])"
      "map (item (jobs s1)) (as @ [job_brk s]) = map (item (jobs s)) as @ [(i, rq i)]"
      "spool s1 = spool s" "calls s1 = []" "nextjob s1 = nextjob s" by blast
  have "\<forall>i \<in> set is. 0 < sint i \<and> wf_req (rq i) \<and> map_of (spool s1) (req_name i) = Some (req_bytes (rq i))"
    using Cons.prems(3) 1(4) by simp
  from Cons.IH [OF 1(2,5) this] obtain s' bs where
    2: "requeue (map (\<lambda>i. sdec (sint i)) is) s1 = Inr ((), s')" "job_list s' ((as @ [job_brk s]) @ bs)"
      "map (item (jobs s')) ((as @ [job_brk s]) @ bs) =
        map (item (jobs s1)) (as @ [job_brk s]) @ map (\<lambda>i. (i, rq i)) is"
      "spool s' = spool s1" "nextjob s' = nextjob s1" by blast
  have "requeue (map (\<lambda>i. sdec (sint i)) (i # is)) s = Inr ((), s')"
    using 1(1) 2(1) by (simp add: thn_def bnd_def)
  moreover have "job_list s' (as @ job_brk s # bs)" using 2(2) by simp
  moreover have "map (item (jobs s')) (as @ job_brk s # bs) =
      map (item (jobs s)) as @ map (\<lambda>i. (i, rq i)) (i # is)" using 2(3) 1(3) by simp
  ultimately show ?case using 1(4,6) 2(4,5)
    by (intro exI [of _ s'] exI [of _ "job_brk s # bs"]) simp
qed

lemma restart_queue:
  assumes "calls s = []"
    and "\<forall>i \<in> set is. 0 < sint i \<and> wf_req (rq i) \<and> map_of (spool s) (req_name i) = Some (req_bytes (rq i))"
  shows "\<exists>s' as. build_qonstart (Some (''.'' # ''..'' # map (\<lambda>i. sdec (sint i)) is)) (crash s) = Inr ((), s') \<and>
    job_list s' as \<and> map (item (jobs s')) as = map (\<lambda>i. (i, rq i)) is \<and> spool s' = spool s"
proof -
  have "job_list (crash s) []" by (simp add: crash_def job_list_def)
  moreover have "calls (crash s) = []" "spool (crash s) = spool s" using assms(1) by (simp_all add: crash_def)
  ultimately obtain s' bs where "requeue (map (\<lambda>i. sdec (sint i)) is) (crash s) = Inr ((), s')"
    "job_list s' bs" "map (item (jobs s')) bs = map (\<lambda>i. (i, rq i)) is" "spool s' = spool s"
    using requeue_run [of "crash s" "[]" "is" rq] assms(2) by auto
  then show ?thesis
    by (intro exI [of _ s'] exI [of _ bs]) (simp add: build_qonstart_def requeue_entry_def thn_def bnd_def)
qed

section \<open>The job number file\<close>

lemma dec_length_mono: "m \<le> n \<Longrightarrow> length (dec m) \<le> length (dec n)"
proof (induction n arbitrary: m rule: dec.induct)
  case (1 n)
  show ?case
  proof (cases "m < 10")
    case True
    then have "length (dec m) = 1" by (subst dec.simps) simp
    then show ?thesis by (cases "dec n") simp_all
  next
    case False
    then have "length (dec (m div 10)) \<le> length (dec (n div 10))"
      using "1.IH" [of "m div 10"] "1.prems" by (simp add: div_le_mono)
    then show ?thesis using False "1.prems" by (subst (1 2) dec.simps) simp
  qed
qed

text \<open>The path in the buffer has no digits, so that the number in front of it is read right.\<close>

lemma init_request_reads:
  assumes "jobfile s = dec n" and "0 < n" and "n < 2147483648" and "calls s = []"
  shows "init_request False stk s = Inr ((), s\<lparr>nextjob := of_nat n\<rparr>)"
proof -
  have len: "length (dec n) \<le> 10" using length_dec_le [of n 9] assms(3) by simp
  let ?nm = "SPOOLDIR @ ''/'' @ JOBFILE @ [NUL] @ stk"
  let ?rest = "drop (length (dec n)) ?nm"
  have nd: "list_all (\<lambda>c. \<not> isdigit c) (take 11 ?nm)"
    by (simp add: SPOOLDIR_def JOBFILE_def isdigit_def)
  have "\<not> isdigit (hd ?rest)"
  proof -
    have "length (dec n) < length (take 11 ?nm)"
      using len by (simp add: SPOOLDIR_def JOBFILE_def)
    then have "\<not> isdigit (take 11 ?nm ! length (dec n))" using nd by (simp add: list_all_length)
    moreover have "length (dec n) < length ?nm" using len by (simp add: SPOOLDIR_def JOBFILE_def)
    then have "take 11 ?nm ! length (dec n) = hd ?rest"
      using len by (simp only: hd_drop_conv_nth) (rule nth_take, simp)
    ultimately show ?thesis by simp
  qed
  then have "atol (overwrite ?nm 0 (dec n)) = int n"
    using atol_dec_append [of n ?rest] assms(3) by (simp add: overwrite_def LONG_MAX_def)
  moreover have "take 64 (dec n) = dec n" using len by simp
  ultimately show ?thesis
    using assms by (simp add: init_request_def bnd_def thn_def require_apply next_call_def Let_def)
qed

lemma update_jobno_writes:
  assumes "calls s = []" and "0 < sint (nextjob s)"
    and "jobfile s = [] \<or> (\<exists>m. jobfile s = dec m \<and> m \<le> unat (nextjob s))"
  shows "update_jobno s = Inr ((), s\<lparr>jobfile := dec (unat (nextjob s))\<rparr>)"
proof -
  obtain n where n: "unat (nextjob s) = n" "sdec (sint (nextjob s)) = dec n"
    using pos_job [OF assms(2)] by metis
  have "length (jobfile s) \<le> length (dec n)"
    using assms(3) dec_length_mono n(1) by auto
  then have "overwrite (jobfile s) 0 (dec n) = dec n" by (simp add: overwrite_def)
  with n show ?thesis using assms(1) by (simp add: update_jobno_def bnd_def next_call_def)
qed

end
