(* ===== verification/Ipp.thy ===== *)
theory Ipp
  imports Print_Proto
begin

text \<open>
  The Internet Printing Protocol as \<^verbatim>\<open>apue.3e/printer/printd.c\<close> speaks it: the two
  headers the printer thread sends (\<open>add_option\<close> and the code around it), and the parser of
  the printer's answer (\<open>readmore\<close>, \<open>printer_status\<close>). Every buffer has its size, and
  every access is checked against it. The parser's buffer comes from \<^verbatim>\<open>malloc\<close>; its
  first contents are an argument.
\<close>

section \<open>Definitions\<close>

datatype ipp_err = Past string

abbreviation (input) IBUFSZ :: nat where "IBUFSZ \<equiv> 512"
abbreviation (input) HBUFSZ :: nat where "HBUFSZ \<equiv> 512"

subsection \<open>The headers\<close>

text \<open>\<^verbatim>\<open>htons\<close> of an \<^verbatim>\<open>int\<close> and the two bytes it has in memory.\<close>

definition be16 :: "nat \<Rightarrow> char list" where
  "be16 n = [char_of (n div 256), char_of n]"

text \<open>
  The bytes written so far are the list; the string copies also write a null byte behind
  them.
\<close>

definition put :: "string \<Rightarrow> nat \<Rightarrow> nat \<Rightarrow> char list \<Rightarrow> char list \<Rightarrow> ipp_err + char list" where
  "put nm sz extra bs buf =
     (if length buf + length bs + extra \<le> sz then Inr (buf @ bs) else Inl (Past nm))"

definition add_option :: "char \<Rightarrow> string \<Rightarrow> string \<Rightarrow> char list \<Rightarrow> ipp_err + char list" where
  "add_option tag optname optval cp =
     (case put ''ibuf'' IBUFSZ 1 ([tag] @ be16 (length optname) @ optname) cp of
        Inl e \<Rightarrow> Inl e
      | Inr cp' \<Rightarrow> put ''ibuf'' IBUFSZ 1 (be16 (length optval) @ optval) cp')"

definition TAG_OPERATION_ATTR :: char where "TAG_OPERATION_ATTR = CHR 0x01"
definition TAG_END_OF_ATTR :: char where "TAG_END_OF_ATTR = CHR 0x03"
definition TAG_CHARSET :: char where "TAG_CHARSET = CHR 0x47"
definition TAG_NATULANG :: char where "TAG_NATULANG = CHR 0x48"
definition TAG_URI :: char where "TAG_URI = CHR 0x45"
definition TAG_NAMEWOLANG :: char where "TAG_NAMEWOLANG = CHR 0x42"
definition TAG_MIMETYPE :: char where "TAG_MIMETYPE = CHR 0x49"
definition OP_PRINT_JOB :: nat where "OP_PRINT_JOB = 2"

text \<open>
  A string that starts in one array and is read on into the next when it is not terminated.
\<close>

definition c_string :: "string \<Rightarrow> char list \<Rightarrow> ipp_err + string" where
  "c_string nm bs = (if NUL \<in> set bs then Inr (cstr bs) else Inl (Past nm))"

definition obind :: "ipp_err + 'a \<Rightarrow> ('a \<Rightarrow> ipp_err + 'b) \<Rightarrow> ipp_err + 'b" where
  "obind x f = (case x of Inl e \<Rightarrow> Inl e | Inr v \<Rightarrow> f v)"

definition is_text :: "printreq \<Rightarrow> bool" where
  "is_text rq \<longleftrightarrow> and (flags rq) PR_TEXT \<noteq> 0"

definition ipp_header :: "string \<Rightarrow> 32 word \<Rightarrow> printreq \<Rightarrow> ipp_err + char list" where
  "ipp_header printer_name i rq =
     (let hdr = [CHR 0x01, CHR 0x01] @ be16 OP_PRINT_JOB @ rev (le32 i) @ [TAG_OPERATION_ATTR];
          str = ''http://'' @ printer_name @ ''/ipp''
      in obind (add_option TAG_CHARSET ''attributes-charset'' ''utf-8'' hdr) (\<lambda>icp.
         obind (add_option TAG_NATULANG ''attributes-natural-language'' ''en-us'' icp) (\<lambda>icp.
         if length str \<ge> 64 then Inl (Past ''str'') else
         obind (add_option TAG_URI ''printer-uri'' str icp) (\<lambda>icp.
         obind (c_string ''usernm'' (usernm rq @ jobnm rq)) (\<lambda>user.
         obind (add_option TAG_NAMEWOLANG ''requesting-user-name'' user icp) (\<lambda>icp.
         obind (c_string ''jobnm'' (jobnm rq)) (\<lambda>job.
         obind (add_option TAG_NAMEWOLANG ''job-name'' job icp) (\<lambda>icp.
         obind (add_option TAG_MIMETYPE ''document-format''
           (if is_text rq then ''text/plain'' else ''application/postscript'') icp) (\<lambda>icp.
         put ''ibuf'' IBUFSZ 0 [TAG_END_OF_ATTR] icp)))))))))"

definition CRLF :: string where "CRLF = [CHR 0x0D, CHR 0x0A]"

definition http_header :: "string \<Rightarrow> nat \<Rightarrow> ipp_err + char list" where
  "http_header printer_name len =
     obind (put ''hbuf'' HBUFSZ 1 (''POST /ipp HTTP/1.1'' @ CRLF) []) (\<lambda>h.
     obind (put ''hbuf'' HBUFSZ 1 (''Content-Length: '' @ dec len @ CRLF) h) (\<lambda>h.
     obind (put ''hbuf'' HBUFSZ 1 (''Content-Type: application/ipp'' @ CRLF) h) (\<lambda>h.
     obind (put ''hbuf'' HBUFSZ 1 (''Host: '' @ printer_name @ '':'' @ dec 631 @ CRLF) h) (\<lambda>h.
     put ''hbuf'' HBUFSZ 0 CRLF h))))"

subsection \<open>The printer's answer\<close>

record pbuf =
  bytes :: "nat \<Rightarrow> char"
  bufsz :: nat

definition peek :: "pbuf \<Rightarrow> nat \<Rightarrow> char option" where
  "peek b i = (if i < bufsz b then Some (bytes b i) else None)"

definition poke :: "pbuf \<Rightarrow> nat \<Rightarrow> char \<Rightarrow> pbuf option" where
  "poke b i c = (if i < bufsz b then Some (b\<lparr>bytes := (bytes b)(i := c)\<rparr>) else None)"

definition fill :: "pbuf \<Rightarrow> nat \<Rightarrow> char list \<Rightarrow> pbuf" where
  "fill b off d =
     b\<lparr>bytes := (\<lambda>k. if off \<le> k \<and> k < off + length d then d ! (k - off) else bytes b k)\<rparr>"

text \<open>
  How the parser can stop before the end: it reads or writes outside its buffer, or gives up
  because nothing more arrives.
\<close>

datatype ps_stop = Outside | NoMore source

text \<open>\<^verbatim>\<open>while (p (*cp)) cp++;\<close>\<close>

function skip :: "(char \<Rightarrow> bool) \<Rightarrow> pbuf \<Rightarrow> nat \<Rightarrow> nat option" where
  "skip p b i = (case peek b i of None \<Rightarrow> None | Some c \<Rightarrow> if p c then skip p b (i + 1) else Some i)"
  by pat_completeness auto
termination
  by (relation "measure (\<lambda>(p, b, i). bufsz b - i)") (auto simp: peek_def split: if_splits)

text \<open>
  \<open>readmore\<close>: reads at \<open>off\<close>, after making the buffer larger where \<open>off\<close> is at its end. The
  result is \<open>off\<close> plus the bytes read.
\<close>

definition readmore :: "source \<Rightarrow> pbuf \<Rightarrow> nat \<Rightarrow> ps_stop + (nat \<times> pbuf \<times> source)" where
  "readmore src b off =
     (let b' = (if off \<ge> bufsz b then b\<lparr>bufsz := bufsz b + IOBUFSZ\<rparr> else b)
      in if bufsz b' \<le> off then Inl Outside
         else case tread (bufsz b' - off) src of
             (Inl e, src') \<Rightarrow> Inl (NoMore src')
           | (Inr d, src') \<Rightarrow>
               if d = [] then Inl (NoMore src') else Inr (off + length d, fill b' off d, src'))"

text \<open>\<^verbatim>\<open>strncasecmp (cp, pat, strlen (pat)) == 0\<close>\<close>

definition lower :: "char \<Rightarrow> nat" where
  "lower c = (let n = of_char c in if 65 \<le> n \<and> n \<le> 90 then n + 32 else n)"

fun ci_match :: "string \<Rightarrow> pbuf \<Rightarrow> nat \<Rightarrow> bool option" where
  "ci_match [] b i = Some True"
| "ci_match (p # ps) b i =
     (case peek b i of
        None \<Rightarrow> None
      | Some c \<Rightarrow> if lower c = lower p then ci_match ps b (i + 1) else Some False)"

text \<open>The digits from \<open>i\<close> up to \<open>j\<close> as \<^verbatim>\<open>atoi\<close> reads them.\<close>

definition atoi_at :: "pbuf \<Rightarrow> nat \<Rightarrow> nat \<Rightarrow> int" where
  "atoi_at b i j = sint (word_of_int (atol (map (bytes b) [i..<j])) :: 32 word)"

text \<open>
  The status line: the code, the buffer with the two null bytes, the position of the second;
  \<open>None\<close> when there is no code (bad format).
\<close>

definition parse_status :: "pbuf \<Rightarrow> (int \<times> pbuf \<times> nat) option option" where
  "parse_status b =
     (case skip isspace b 8 of None \<Rightarrow> None
      | Some st \<Rightarrow>
      (case skip isdigit b st of None \<Rightarrow> None
      | Some e \<Rightarrow>
      if e = st then Some None
      else (case poke b e NUL of None \<Rightarrow> None
      | Some b1 \<Rightarrow>
      (case skip (\<lambda>c. c \<noteq> CHR 0x0D \<and> c \<noteq> CHR 0x0A) b1 (e + 1) of None \<Rightarrow> None
      | Some f \<Rightarrow>
      (case poke b1 f NUL of None \<Rightarrow> None
      | Some b2 \<Rightarrow> Some (Some (atoi_at b st e, b2, f)))))))"

text \<open>\<^verbatim>\<open>while (*cp != 'C' && *cp != 'c' && i < datsz)\<close>\<close>

function scan_c :: "pbuf \<Rightarrow> nat \<Rightarrow> nat \<Rightarrow> nat option" where
  "scan_c b i datsz =
     (case peek b i of
        None \<Rightarrow> None
      | Some c \<Rightarrow>
          if c \<noteq> CHR ''C'' \<and> c \<noteq> CHR ''c'' \<and> i < datsz then scan_c b (i + 1) datsz else Some i)"
  by pat_completeness auto
termination
  by (relation "measure (\<lambda>(b, i, datsz). bufsz b - i)") (auto simp: peek_def split: if_splits)

declare skip.simps [simp del] scan_c.simps [simp del]

lemma scan_c_bound: "scan_c b i datsz = Some j \<Longrightarrow> i \<le> j \<and> j < bufsz b"
  by (induction b i datsz rule: scan_c.induct)
    (subst (asm) (2) scan_c.simps, force simp: peek_def split: if_splits)

lemma readmore_weight: "readmore src b off = Inr (nr, b', src') \<Longrightarrow> weight src' < weight src"
  by (auto simp: readmore_def Let_def split: if_splits prod.splits sum.splits dest!: tread_weight [rotated])

text \<open>
  \<^verbatim>\<open>if (...) readmore\<close>: the data size grows by the result of \<open>readmore\<close>, which counts
  the bytes before the position too.
\<close>

definition more_if ::
  "bool \<Rightarrow> source \<Rightarrow> pbuf \<Rightarrow> nat \<Rightarrow> nat \<Rightarrow> ps_stop + (nat \<times> pbuf \<times> source)"
where
  "more_if c src b i datsz =
     (if c then (case readmore src b i of
                   Inl e \<Rightarrow> Inl e
                 | Inr (nr, b', src') \<Rightarrow> Inr (datsz + nr, b', src'))
      else Inr (datsz, b, src))"

lemma more_if_weight:
  "more_if c src b i datsz = Inr (datsz', b', src') \<Longrightarrow>
     weight src' < weight src \<or> datsz' = datsz \<and> b' = b \<and> src' = src"
  by (auto simp: more_if_def split: if_splits sum.splits dest!: readmore_weight)

text \<open>
  The search for the length: the position behind it, the length, the data size the code
  believes in, buffer and stream.
\<close>

function find_length ::
  "pbuf \<Rightarrow> nat \<Rightarrow> nat \<Rightarrow> source \<Rightarrow> ps_stop + (nat \<times> int \<times> nat \<times> pbuf \<times> source)"
where
  "find_length b i datsz src =
     (case scan_c b i datsz of
        None \<Rightarrow> Inl Outside
      | Some j \<Rightarrow>
          (case more_if (j \<ge> datsz) src b j datsz of
             Inl e \<Rightarrow> Inl e
           | Inr (datsz', b', src') \<Rightarrow>
               (case ci_match ''Content-Length:'' b' j of
                  None \<Rightarrow> Inl Outside
                | Some False \<Rightarrow> find_length b' (j + 1) datsz' src'
                | Some True \<Rightarrow>
                    (case skip isspace b' (j + 15) of None \<Rightarrow> Inl Outside
                     | Some st \<Rightarrow>
                     (case skip isdigit b' st of None \<Rightarrow> Inl Outside
                     | Some e \<Rightarrow>
                     (case poke b' e NUL of None \<Rightarrow> Inl Outside
                     | Some b'' \<Rightarrow> Inr (e + 1, atoi_at b' st e, datsz', b'', src')))))))"
  by pat_completeness auto
termination
  by (relation "measures [\<lambda>(b, i, datsz, src). weight src, \<lambda>(b, i, datsz, src). bufsz b - i]")
    (auto dest!: more_if_weight scan_c_bound)

text \<open>\<^verbatim>\<open>while (i < datsz - 2)\<close>: the empty line that ends the HTTP header.\<close>

function scan_end :: "pbuf \<Rightarrow> nat \<Rightarrow> nat \<Rightarrow> (bool \<times> nat) option" where
  "scan_end b i datsz =
     (if i + 2 < datsz then
        (case peek b i of None \<Rightarrow> None
         | Some c0 \<Rightarrow>
           if c0 \<noteq> CHR 0x0A then scan_end b (i + 1) datsz
           else (case peek b (i + 1) of None \<Rightarrow> None
           | Some c1 \<Rightarrow>
             if c1 \<noteq> CHR 0x0D then scan_end b (i + 1) datsz
             else (case peek b (i + 2) of None \<Rightarrow> None
             | Some c2 \<Rightarrow> if c2 = CHR 0x0A then Some (True, i + 3) else scan_end b (i + 1) datsz)))
      else Some (False, i))"
  by pat_completeness auto
termination by (relation "measure (\<lambda>(b, i, datsz). datsz - i)") auto

text \<open>
  \<^verbatim>\<open>while (!found)\<close>: \<open>None\<close> when the loop never ends.
\<close>

partial_function (option) find_end ::
  "bool \<Rightarrow> pbuf \<Rightarrow> nat \<Rightarrow> nat \<Rightarrow> source \<Rightarrow> (ps_stop + (nat \<times> nat \<times> pbuf \<times> source)) option"
where
  "find_end found b i datsz src =
     (if found then Some (Inr (i, datsz, b, src))
      else (case scan_end b i datsz of
          None \<Rightarrow> Some (Inl Outside)
        | Some (found', j) \<Rightarrow>
            (case more_if (j \<ge> datsz) src b j datsz of
               Inl e \<Rightarrow> Some (Inl e)
             | Inr (datsz', b', src') \<Rightarrow> find_end found' b' j datsz' src')))"

definition peek_list :: "pbuf \<Rightarrow> nat \<Rightarrow> nat \<Rightarrow> char list option" where
  "peek_list b i n = (if i + n \<le> bufsz b then Some (map (bytes b) [i..<i + n]) else None)"

text \<open>The answer to a stop: outside the buffer, or no success.\<close>

definition stop_result :: "ps_stop \<Rightarrow> ipp_err + (bool \<times> source)" where
  "stop_result e = (case e of Outside \<Rightarrow> Inl (Past ''bp'') | NoMore src \<Rightarrow> Inr (False, src))"

text \<open>The IPP header at the end: request number and status class.\<close>

definition check_reply :: "32 word \<Rightarrow> pbuf \<Rightarrow> nat \<Rightarrow> source \<Rightarrow> ipp_err + (bool \<times> source)" where
  "check_reply i b k src =
     (case peek_list b k 8 of
        None \<Rightarrow> Inl (Past ''bp'')
      | Some h \<Rightarrow> Inr (of_le32 (rev (drop 4 h)) = i \<and> h ! 2 = NUL, src))"

text \<open>From a good HTTP status on; \<open>f\<close> is the position of the null byte behind the reason.\<close>

definition parse_body ::
  "32 word \<Rightarrow> pbuf \<Rightarrow> nat \<Rightarrow> nat \<Rightarrow> source \<Rightarrow> (ipp_err + (bool \<times> source)) option"
where
  "parse_body i b f datsz src =
     (case find_length b f datsz src of
        Inl e \<Rightarrow> Some (stop_result e)
      | Inr (j, len, datsz1, b1, src1) \<Rightarrow>
     (case more_if (j \<ge> datsz1) src1 b1 j datsz1 of
        Inl e \<Rightarrow> Some (stop_result e)
      | Inr (datsz2, b2, src2) \<Rightarrow>
     (case find_end False b2 j datsz2 src2 of
        None \<Rightarrow> None
      | Some (Inl e) \<Rightarrow> Some (stop_result e)
      | Some (Inr (k, datsz3, b3, src3)) \<Rightarrow>
     (case more_if (int datsz3 - int k < len) src3 b3 k datsz3 of
        Inl e \<Rightarrow> Some (stop_result e)
      | Inr (datsz4, b4, src4) \<Rightarrow> Some (check_reply i b4 k src4)))))"

text \<open>
  \<open>printer_status\<close>: success and what is left of the stream; \<open>None\<close> when it never returns.
\<close>

function printer_status :: "32 word \<Rightarrow> pbuf \<Rightarrow> source \<Rightarrow> (ipp_err + (bool \<times> source)) option" where
  "printer_status i b src =
     (case tread (bufsz b) src of
        (Inl e, src') \<Rightarrow> Some (Inr (False, src'))
      | (Inr d, src') \<Rightarrow>
          if d = [] then Some (Inr (False, src'))
          else
            (case parse_status (fill b 0 d) of
               None \<Rightarrow> Some (Inl (Past ''bp''))
             | Some None \<Rightarrow> printer_status i (fill b 0 d) src'
             | Some (Some (code, b1, f)) \<Rightarrow>
                 if 100 \<le> code \<and> code \<le> 199 then printer_status i b1 src'
                 else if 200 \<le> code \<and> code \<le> 299 then parse_body i b1 f (length d) src'
                 else if length d < bufsz b1 then Some (Inr (False, src')) else Some (Inl (Past ''bp''))))"
  by pat_completeness auto
termination
proof (relation "measure (\<lambda>(i, b, src). weight src)", goal_cases)
  case (2 i b src x src' d)
  then show ?case using tread_weight [of "bufsz b" src x src'] tread_length [of "bufsz b" src d src']
    by (cases "bufsz b") auto
next
  case (3 i b src x src' d)
  then show ?case using tread_weight [of "bufsz b" src x src'] tread_length [of "bufsz b" src d src']
    by (cases "bufsz b") auto
qed simp

section \<open>Texts in the buffer\<close>

definition has :: "pbuf \<Rightarrow> nat \<Rightarrow> char list \<Rightarrow> bool" where
  "has b i xs \<longleftrightarrow> i + length xs \<le> bufsz b \<and> (\<forall>k < length xs. bytes b (i + k) = xs ! k)"

lemma has_Nil: "i \<le> bufsz b \<Longrightarrow> has b i []"
  by (simp add: has_def)

lemma has_Cons: "has b i (x # xs) \<longleftrightarrow> i < bufsz b \<and> bytes b i = x \<and> has b (Suc i) xs"
  by (auto simp: has_def nth_Cons less_Suc_eq_0_disj split: nat.splits)

lemma has_append: "has b i (xs @ ys) \<longleftrightarrow> has b i xs \<and> has b (i + length xs) ys"
proof (induction xs arbitrary: i)
  case Nil
  show ?case by (auto simp: has_def)
next
  case (Cons x xs)
  then show ?case by (simp add: has_Cons)
qed

lemma has_list: "has b i xs \<Longrightarrow> map (bytes b) [i..<i + length xs] = xs"
  by (rule nth_equalityI) (auto simp: has_def)

lemma has_fill: "length d \<le> bufsz b \<Longrightarrow> has (fill b 0 d) 0 d"
  by (simp add: has_def fill_def)

lemma has_poke:
  "has b i xs \<Longrightarrow> i + length xs \<le> j \<or> j < i \<Longrightarrow> poke b j c = Some b' \<Longrightarrow> has b' i xs"
  by (auto simp: has_def poke_def split: if_splits)

lemma bufsz_poke: "poke b j c = Some b' \<Longrightarrow> bufsz b' = bufsz b"
  by (auto simp: poke_def split: if_splits)

lemma poke_ok: "i < bufsz b \<Longrightarrow> poke b i c = Some (b\<lparr>bytes := (bytes b)(i := c)\<rparr>)"
  by (simp add: poke_def)

lemma poke_same: "poke b i c = Some b' \<Longrightarrow> bytes b' i = c \<and> i < bufsz b'"
  by (auto simp: poke_def split: if_splits)

lemma skip_has:
  "has b i (xs @ c # ys) \<Longrightarrow> list_all p xs \<Longrightarrow> \<not> p c \<Longrightarrow> skip p b i = Some (i + length xs)"
proof (induction xs arbitrary: i)
  case Nil
  then show ?case by (simp add: skip.simps [of p] has_Cons peek_def)
next
  case (Cons x xs)
  then show ?case by (simp add: skip.simps [of p b i] has_Cons peek_def)
qed

fun ci_prefix :: "string \<Rightarrow> string \<Rightarrow> bool" where
  "ci_prefix [] cs = True"
| "ci_prefix (p # ps) [] = False"
| "ci_prefix (p # ps) (c # cs) \<longleftrightarrow> lower c = lower p \<and> ci_prefix ps cs"

lemma ci_match_has:
  "has b i cs \<Longrightarrow> length ps \<le> length cs \<Longrightarrow> ci_match ps b i = Some (ci_prefix ps cs)"
  by (induction ps cs arbitrary: i rule: ci_prefix.induct) (auto simp: has_Cons peek_def)

text \<open>The status line.\<close>

lemma parse_status_has:
  assumes "has b 0 (h @ sp @ ds @ x # rs @ cr # ys)" and "length h = 8" and "list_all isspace sp"
    and "ds \<noteq> []" and "list_all isdigit ds" and "\<not> isdigit x"
    and "list_all (\<lambda>c. c \<noteq> CHR 0x0D \<and> c \<noteq> CHR 0x0A) rs" and "cr = CHR 0x0D \<or> cr = CHR 0x0A"
  shows "\<exists>b'. parse_status b = Some (Some (sint (word_of_int (atol ds) :: 32 word), b',
      9 + length sp + length ds + length rs)) \<and>
    has b' (9 + length sp + length ds + length rs) (NUL # ys) \<and> bufsz b' = bufsz b"
proof -
  let ?st = "8 + length sp" let ?e = "?st + length ds" let ?f = "?e + 1 + length rs"
  have h: "has b 8 (sp @ ds @ x # rs @ cr # ys)" "has b ?st (ds @ x # rs @ cr # ys)"
    "has b ?e (x # rs @ cr # ys)" "has b (?e + 1) (rs @ cr # ys)" "has b ?f (cr # ys)" "has b ?st ds"
    using assms(1,2) by (simp_all add: has_append has_Cons add.assoc)
  obtain d ds' where d: "ds = d # ds'" using assms(4) by (cases ds) auto
  have ns: "\<not> isspace d" using assms(5) d by (auto simp: isspace_def isdigit_def)
  have 1: "skip isspace b 8 = Some ?st"
    using skip_has [of b 8 sp d "ds' @ x # rs @ cr # ys" isspace] h(1) d ns assms(3) by simp
  have 2: "skip isdigit b ?st = Some ?e"
    using skip_has [of b ?st ds x "rs @ cr # ys" isdigit] h(2) assms(5,6) by simp
  have "?e < bufsz b" using h(3) by (simp add: has_Cons)
  then obtain b1 where b1: "poke b ?e NUL = Some b1" using poke_ok by blast
  have h1: "has b1 (?e + 1) (rs @ cr # ys)" using has_poke [OF h(4) _ b1] by simp
  have 3: "skip (\<lambda>c. c \<noteq> CHR 0x0D \<and> c \<noteq> CHR 0x0A) b1 (?e + 1) = Some ?f"
    using skip_has [OF h1, of "\<lambda>c. c \<noteq> CHR 0x0D \<and> c \<noteq> CHR 0x0A"] assms(7,8) by auto
  have f: "has b1 ?f (cr # ys)" using h1 by (simp add: has_append)
  then have "?f < bufsz b1" by (simp add: has_Cons)
  then obtain b2 where b2: "poke b1 ?f NUL = Some b2" using poke_ok by blast
  have "has b2 (?f + 1) ys" using has_poke [of b1 "?f + 1" ys ?f NUL b2] f b2 by (simp add: has_Cons)
  moreover have "bytes b2 ?f = NUL" "?f < bufsz b2" using poke_same [OF b2] by simp_all
  ultimately have "has b2 ?f (NUL # ys)" by (simp add: has_Cons)
  moreover have "parse_status b = Some (Some (sint (word_of_int (atol ds) :: 32 word), b2, ?f))"
    using 1 2 3 b1 b2 d has_list [OF h(6)] by (simp add: parse_status_def atoi_at_def)
  ultimately show ?thesis using bufsz_poke [OF b1] bufsz_poke [OF b2]
    by (intro exI [of _ b2]) (simp add: add_ac)
qed

text \<open>The search for the length: nothing that matches is passed over.\<close>

declare find_length.simps [simp del] scan_end.simps [simp del] printer_status.simps [simp del]

lemma find_length_next:
  assumes "has b i (x # xs)" and "i < datsz" and "14 \<le> length xs"
    and "\<not> ci_prefix ''Content-Length:'' (x # xs)"
  shows "find_length b i datsz src = find_length b (Suc i) datsz src"
proof (cases "x = CHR ''C'' \<or> x = CHR ''c''")
  case True
  have "ci_match ''Content-Length:'' b i = Some False"
    using ci_match_has [OF assms(1), of "''Content-Length:''"] assms(3,4) by simp
  moreover have "scan_c b i datsz = Some i"
    using True assms(1) by (auto simp: scan_c.simps [of b i] has_Cons peek_def)
  ultimately show ?thesis
    using assms(2) by (simp add: find_length.simps [of b i] more_if_def)
next
  case False
  then have "scan_c b i datsz = scan_c b (Suc i) datsz"
    using assms(1,2) by (simp add: scan_c.simps [of b i] has_Cons peek_def)
  then show ?thesis by (simp add: find_length.simps [of b i] find_length.simps [of b "Suc i"])
qed

lemma lower_c: "lower c = lower (CHR ''C'') \<Longrightarrow> c = CHR ''C'' \<or> c = CHR ''c''"
proof -
  assume "lower c = lower (CHR ''C'')"
  then have "(of_char c :: nat) = of_char (CHR ''C'') \<or> (of_char c :: nat) = of_char (CHR ''c'')"
    by (auto simp: lower_def Let_def split: if_splits)
  then show ?thesis by (metis char_of_char)
qed

lemma find_length_has:
  assumes "has b i (pre @ cl @ sp @ ds @ y # ys)" and "length cl = 15"
    and "ci_prefix ''Content-Length:'' cl" and "list_all isspace sp" and "ds \<noteq> []" and "list_all isdigit ds"
    and "\<not> isdigit y" and "i + length pre < datsz"
    and "\<And>k. k < length pre \<Longrightarrow> \<not> ci_prefix ''Content-Length:'' (drop k (pre @ cl @ sp @ ds @ y # ys))"
  shows "\<exists>b'. find_length b i datsz src =
      Inr (i + length pre + 16 + length sp + length ds, sint (word_of_int (atol ds) :: 32 word), datsz, b', src) \<and>
    has b' (i + length pre + 16 + length sp + length ds) ys \<and> bufsz b' = bufsz b"
  using assms(1,8,9)
proof (induction pre arbitrary: i)
  case Nil
  let ?st = "i + 15 + length sp" let ?e = "?st + length ds"
  have h: "has b i (cl @ sp @ ds @ y # ys)" using Nil.prems(1) by simp
  have h2: "has b (i + 15) (sp @ ds @ y # ys)" "has b ?st (ds @ y # ys)" "has b ?st ds" "has b ?e (y # ys)"
    "has b (?e + 1) ys"
    using h assms(2) by (simp_all add: has_append has_Cons)
  obtain c cs where c: "cl = c # cs" using assms(2) by (cases cl) auto
  have cc: "c = CHR ''C'' \<or> c = CHR ''c''" using assms(3) c by (intro lower_c) simp
  obtain d ds' where d: "ds = d # ds'" using assms(5) by (cases ds) auto
  have ns: "\<not> isspace d" using assms(6) d by (auto simp: isspace_def isdigit_def)
  have 0: "scan_c b i datsz = Some i"
    using cc h c by (auto simp: scan_c.simps [of b i] has_Cons peek_def)
  have 1: "ci_match ''Content-Length:'' b i = Some True"
    using ci_match_has [of b i cl "''Content-Length:''"] h assms(2,3) by (simp add: has_append)
  have 2: "skip isspace b (i + 15) = Some ?st"
    using skip_has [of b "i + 15" sp d "ds' @ y # ys" isspace] h2(1) d ns assms(4) by simp
  have 3: "skip isdigit b ?st = Some ?e"
    using skip_has [OF h2(2), of isdigit] assms(6,7) by simp
  have "?e < bufsz b" using h2(4) by (simp add: has_Cons)
  from poke_ok [OF this] obtain b' where b': "poke b ?e NUL = Some b'" by blast
  have "find_length b i datsz src =
      Inr (?e + 1, sint (word_of_int (atol ds) :: 32 word), datsz, b', src)"
    using 0 1 2 3 b' Nil.prems(2) has_list [OF h2(3)]
    by (simp add: find_length.simps [of b i] more_if_def atoi_at_def)
  moreover have "has b' (?e + 1) ys" using has_poke [OF h2(5) _ b'] by simp
  ultimately show ?case using bufsz_poke [OF b'] by (intro exI [of _ b']) (simp add: add_ac)
next
  case (Cons x pre)
  have nm: "\<not> ci_prefix ''Content-Length:'' (x # pre @ cl @ sp @ ds @ y # ys)"
    using Cons.prems(3) [of 0] by simp
  have h: "has b i (x # (pre @ cl @ sp @ ds @ y # ys))" using Cons.prems(1) by simp
  have "find_length b i datsz src = find_length b (Suc i) datsz src"
    by (rule find_length_next [OF h _ _ nm]) (use Cons.prems(2) assms(2) in simp_all)
  moreover have "\<not> ci_prefix ''Content-Length:'' (drop k (pre @ cl @ sp @ ds @ y # ys))" if "k < length pre" for k
    using Cons.prems(3) [of "Suc k"] that by simp
  ultimately show ?case
    using Cons.IH [of "Suc i"] Cons.prems(1,2) by (simp add: has_Cons)
qed

text \<open>The empty line.\<close>

lemma scan_end_next:
  assumes "i + 2 < datsz" and "i + 2 < bufsz b"
    and "\<not> (bytes b i = CHR 0x0A \<and> bytes b (i + 1) = CHR 0x0D \<and> bytes b (i + 2) = CHR 0x0A)"
  shows "scan_end b i datsz = scan_end b (Suc i) datsz"
  using assms by (auto simp: scan_end.simps [of b i] peek_def)

definition blank_line :: string where
  "blank_line = [CHR 0x0A, CHR 0x0D, CHR 0x0A]"

fun ends_header :: "string \<Rightarrow> bool" where
  "ends_header (a # b # c # cs) \<longleftrightarrow> a = CHR 0x0A \<and> b = CHR 0x0D \<and> c = CHR 0x0A"
| "ends_header _ = False"

lemma has_three: "has b i (x # y # z # xs) \<Longrightarrow> bytes b i = x \<and> bytes b (i + 1) = y \<and> bytes b (i + 2) = z \<and> i + 2 < bufsz b"
  by (simp add: has_Cons)

lemma scan_end_has:
  assumes "has b i (pre @ blank_line @ ys)" and "i + length pre + 2 < datsz"
    and "\<And>k. k < length pre \<Longrightarrow> \<not> ends_header (drop k (pre @ blank_line))"
  shows "scan_end b i datsz = Some (True, i + length pre + 3)"
  using assms
proof (induction pre arbitrary: i)
  case Nil
  then show ?case
    using has_three [of b i "CHR 0x0A" "CHR 0x0D" "CHR 0x0A" ys]
    by (simp add: scan_end.simps [of b i] blank_line_def peek_def)
next
  case (Cons x pre)
  obtain y z zs where yz: "pre @ blank_line = y # z # zs"
    by (cases pre; cases "tl pre") (auto simp: blank_line_def)
  have h: "has b i (x # y # z # (zs @ ys))" using Cons.prems(1) yz by (simp flip: append_assoc)
  have "\<not> ends_header (x # y # z # zs)" using Cons.prems(3) [of 0] yz by simp
  then have "scan_end b i datsz = scan_end b (Suc i) datsz"
    using has_three [OF h] Cons.prems(2) by (intro scan_end_next) auto
  moreover have "\<not> ends_header (drop k (pre @ blank_line))" if "k < length pre" for k
    using Cons.prems(3) [of "Suc k"] that by simp
  ultimately show ?case
    using Cons.IH [of "Suc i"] Cons.prems(1,2) by (simp add: has_Cons)
qed

lemma scan_end_not_yet:
  assumes "has b i xs" and "i + length xs = datsz"
    and "\<And>k. k < length xs \<Longrightarrow> \<not> ends_header (drop k xs)"
  shows "\<exists>j. scan_end b i datsz = Some (False, j) \<and> (xs \<noteq> [] \<longrightarrow> j < datsz)"
  using assms
proof (induction xs arbitrary: i)
  case Nil
  then show ?case unfolding scan_end.simps [of b i datsz] by simp
next
  case (Cons x xs)
  show ?case
  proof (cases "\<exists>y z zs. xs = y # z # zs")
    case False
    then have "length xs \<le> 1" by (cases xs; cases "tl xs") auto
    with Cons.prems(2) show ?thesis by (simp add: scan_end.simps [of b i])
  next
    case True
    then obtain y z zs where xs: "xs = y # z # zs" by blast
    have "\<not> ends_header (x # y # z # zs)" using Cons.prems(3) [of 0] xs by simp
    then have "scan_end b i datsz = scan_end b (Suc i) datsz"
      using has_three [of b i x y z zs] Cons.prems(1,2) xs by (intro scan_end_next) auto
    moreover have "\<not> ends_header (drop k xs)" if "k < length xs" for k
      using Cons.prems(3) [of "Suc k"] that by simp
    ultimately show ?thesis
      using Cons.IH [of "Suc i"] Cons.prems(1,2) xs by (simp add: has_Cons)
  qed
qed

text \<open>
  When the data that was read ends inside the header, behind the length, the loop that looks
  for the end of the header changes nothing and never ends.
\<close>

lemma find_end_stuck:
  assumes "scan_end b i datsz = Some (False, j)" and "scan_end b j datsz = Some (False, j)" and "j < datsz"
  shows "find_end False b i datsz src = None"
proof -
  have stuck: "\<not> (f = False \<and> c = b \<and> k = j \<and> d = datsz \<and> sr = src)"
    if "find_end f c k d sr = Some y" for f c k d sr y
    using that
  proof (rule find_end.raw_induct [rotated, of f c k d sr y
        "\<lambda>f c k d sr y. \<not> (f = False \<and> c = b \<and> k = j \<and> d = datsz \<and> sr = src)"])
  qed (use assms in \<open>fastforce simp: more_if_def\<close>)
  have "find_end False b i datsz src = find_end False b j datsz src"
    using assms(1,3) by (subst find_end.simps) (simp add: more_if_def)
  also have "\<dots> = None"
    by (cases "find_end False b j datsz src") (simp, drule stuck, simp)
  finally show ?thesis .
qed

section \<open>The printer's answer, whole and in pieces\<close>

text \<open>
  An answer: a status line, header lines, the length, more header lines, an empty line, and
  the IPP reply. \<open>hd1\<close> and \<open>hd2\<close> are the header lines before and behind the length.
\<close>

definition reply_head :: "string \<Rightarrow> string \<Rightarrow> string \<Rightarrow> string \<Rightarrow> string \<Rightarrow> nat \<Rightarrow> char list" where
  "reply_head ver code reason hd1 cl len =
     ver @ '' '' @ code @ '' '' @ reason @ CRLF @ hd1 @ cl @ '' '' @ dec len @ [CHR 0x0D]"

definition good_head :: "string \<Rightarrow> string \<Rightarrow> string \<Rightarrow> string \<Rightarrow> string \<Rightarrow> nat \<Rightarrow> bool" where
  "good_head ver code reason hd1 cl len \<longleftrightarrow>
     length ver = 8 \<and> length code = 3 \<and> list_all isdigit code \<and>
     200 \<le> digits_val 0 code \<and> digits_val 0 code \<le> 299 \<and>
     list_all (\<lambda>c. c \<noteq> CHR 0x0D \<and> c \<noteq> CHR 0x0A) reason \<and>
     length cl = 15 \<and> ci_prefix ''Content-Length:'' cl \<and> len < 2147483648 \<and>
     (\<forall>k < length hd1. \<not> ci_prefix ''Content-Length:'' (drop k (hd1 @ cl)))"

lemma ci_prefix_append: "length ps \<le> length xs \<Longrightarrow> ci_prefix ps (xs @ ys) = ci_prefix ps xs"
  by (induction ps xs rule: ci_prefix.induct) auto

lemma atol_digits:
  assumes "ds \<noteq> []" and "list_all isdigit ds" and "int (digits_val 0 ds) \<le> LONG_MAX"
  shows "atol ds = int (digits_val 0 ds)"
proof -
  obtain c cs where c: "ds = c # cs" using assms(1) by (cases ds) auto
  have ch: "\<not> isspace c" "c \<noteq> CHR ''-''" "c \<noteq> CHR ''+''"
    using assms(2) c by (auto simp: isdigit_def isspace_def)
  have "NUL \<notin> set ds" using assms(2) by (auto simp: list_all_iff isdigit_def)
  moreover have "takeWhile isdigit ds = ds" using assms(2) by (simp add: list_all_iff takeWhile_eq_all_conv)
  ultimately show ?thesis
    using ch c assms(3) by (simp add: atol_def Let_def clamp_long_def LONG_MIN_def LONG_MAX_def)
qed

text \<open>Up to the length, an answer that starts well is parsed from one read.\<close>

lemma head_parsed:
  assumes g: "good_head ver code reason hd1 cl len"
    and d: "d = reply_head ver code reason hd1 cl len @ rest" and sz: "length d \<le> bufsz b"
  shows "\<exists>b1 f b2 j. printer_status i b (Data d # src) = parse_body i b1 f (length d) src \<and>
    find_length b1 f (length d) src = Inr (j, int len, length d, b2, src) \<and>
    has b2 j rest \<and> j + length rest = length d"
proof -
  let ?ys = "CHR 0x0A # hd1 @ cl @ '' '' @ dec len @ CHR 0x0D # rest"
  let ?f = "10 + length code + length reason"
  note g' = g [unfolded good_head_def]
  have dne: "d \<noteq> []" by (auto simp: d reply_head_def)
  have h: "has (fill b 0 d) 0 (ver @ '' '' @ code @ CHR '' '' # reason @ CHR 0x0D # ?ys)"
    using has_fill [OF sz] by (simp add: d reply_head_def CRLF_def)
  have code_ne: "code \<noteq> []" using g' by auto
  have bl: "list_all isspace '' ''" "\<not> isdigit (CHR '' '')" "\<not> isdigit (CHR 0x0D)"
    by (simp_all add: isspace_def isdigit_def)
  obtain b1 where b1: "parse_status (fill b 0 d) = Some (Some (sint (word_of_int (atol code) :: 32 word), b1, ?f))"
      "has b1 ?f (NUL # ?ys)" "bufsz b1 = bufsz (fill b 0 d)"
    using parse_status_has [OF h _ bl(1) code_ne _ bl(2)] g' by (auto simp: add_ac)
  have "digits_val 0 code \<le> 299" using g' by simp
  then have val: "sint (word_of_int (atol code) :: 32 word) = int (digits_val 0 code)"
    using g' code_ne atol_digits [of code] sint_small [of "digits_val 0 code"] by (simp add: LONG_MAX_def)
  have rd: "tread (bufsz b) (Data d # src) = (Inr d, src)" using sz by (simp add: tread_def)
  have ps: "printer_status i b (Data d # src) = parse_body i b1 ?f (length d) src"
    using rd dne b1(1) val g' by (simp add: printer_status.simps [of i b])
  have h1: "has b1 ?f ((NUL # CHR 0x0A # hd1) @ cl @ '' '' @ dec len @ CHR 0x0D # rest)"
    using b1(2) by simp
  have nm: "\<not> ci_prefix ''Content-Length:'' (drop k ((NUL # CHR 0x0A # hd1) @ cl @ '' '' @ dec len @ CHR 0x0D # rest))"
    if k: "k < length (NUL # CHR 0x0A # hd1)" for k
  proof (cases "k < 2")
    case True
    then have "k = 0 \<or> k = 1" by auto
    then show ?thesis by (auto simp: lower_def Let_def)
  next
    case False
    then obtain m where m: "k = Suc (Suc m)" by (metis add_2_eq_Suc le_Suc_ex not_less)
    with k have "m < length hd1" by simp
    then have "\<not> ci_prefix ''Content-Length:'' (drop m (hd1 @ cl))" using g' by blast
    moreover have "15 \<le> length (drop m (hd1 @ cl))" using g' \<open>m < length hd1\<close> by simp
    ultimately show ?thesis
      using ci_prefix_append [of "''Content-Length:''" "drop m (hd1 @ cl)" "'' '' @ dec len @ CHR 0x0D # rest"]
        \<open>m < length hd1\<close> by (simp add: m)
  qed
  have lt: "?f + length (NUL # CHR 0x0A # hd1) < length d" using g' by (simp add: d reply_head_def CRLF_def)
  have lv: "sint (word_of_int (atol (dec len)) :: 32 word) = int len"
    using g' atol_dec [of len] sint_small [of len] by (simp add: LONG_MAX_def)
  obtain b2 where "find_length b1 ?f (length d) src = Inr (?f + length (NUL # CHR 0x0A # hd1) + 16 + 1 + length (dec len),
      int len, length d, b2, src)" "has b2 (?f + length (NUL # CHR 0x0A # hd1) + 16 + 1 + length (dec len)) rest"
    using find_length_has [OF h1 _ _ bl(1) dec_ne _ bl(3) lt nm, of src] g' lv isdigit_dec
    by (auto simp: list_all_iff)
  moreover have "?f + length (NUL # CHR 0x0A # hd1) + 16 + 1 + length (dec len) + length rest = length d"
    using g' by (simp add: d reply_head_def CRLF_def)
  ultimately show ?thesis using ps by blast
qed

text \<open>An answer that arrives in one read is judged by its request number and status class.\<close>

lemma whole_reply:
  assumes g: "good_head ver code reason hd1 cl len"
    and d: "d = reply_head ver code reason hd1 cl len @ pre @ blank_line @ body" and sz: "length d \<le> bufsz b"
    and pre: "\<And>k. k < length pre \<Longrightarrow> \<not> ends_header (drop k (pre @ blank_line))"
    and body: "8 \<le> length body" "len \<le> length body"
  shows "printer_status i b (Data d # src) =
    Some (Inr (of_le32 (rev (take 4 (drop 4 body))) = i \<and> body ! 2 = NUL, src))"
proof -
  obtain b1 f b2 j where h: "printer_status i b (Data d # src) = parse_body i b1 f (length d) src"
    "find_length b1 f (length d) src = Inr (j, int len, length d, b2, src)"
    "has b2 j (pre @ blank_line @ body)" "j + length (pre @ blank_line @ body) = length d"
    using head_parsed [OF g d sz] by blast
  let ?k = "j + length pre + 3"
  have se: "scan_end b2 j (length d) = Some (True, ?k)"
    using scan_end_has [OF h(3) _ pre] h(4) body(1) by (simp add: blank_line_def)
  have hb: "has b2 ?k body" using h(3) by (simp add: has_append has_Cons blank_line_def numeral_3_eq_3)
  have k: "?k + length body = length d" using h(4) by (simp add: blank_line_def)
  have "find_end False b2 j (length d) src = Some (Inr (?k, length d, b2, src))"
    using se k body(1) by (subst find_end.simps) (simp add: more_if_def find_end.simps [of True])
  moreover have "peek_list b2 ?k 8 = Some (take 8 body)"
    using hb body(1) has_list [of b2 ?k "take 8 body"] has_append [of b2 ?k "take 8 body" "drop 8 body"]
    by (simp add: peek_list_def has_def)
  moreover have "\<not> int (length d) - int ?k < int len" using k body(2) by simp
  moreover have "take 8 body ! 2 = body ! 2" "drop 4 (take 8 body) = take 4 (drop 4 body)"
    by (simp_all add: drop_take)
  ultimately show ?thesis
    using h(1,2,4) body(1) by (simp add: parse_body_def more_if_def check_reply_def blank_line_def)
qed

lemma scan_end_stops: "scan_end b i datsz = Some (False, j) \<Longrightarrow> \<not> j + 2 < datsz"
proof (induction b i datsz rule: scan_end.induct)
  case (1 b i datsz)
  from "1.prems" show ?case
    unfolding scan_end.simps [of b i datsz] using "1.IH" by (auto split: if_splits option.splits)
qed

text \<open>
  An answer whose first read ends behind the length but before the empty line is never
  judged: the parser does not return, whatever arrives next.
\<close>

lemma split_reply:
  assumes g: "good_head ver code reason hd1 cl len"
    and d: "d = reply_head ver code reason hd1 cl len @ rest" and sz: "length d \<le> bufsz b"
    and rest: "rest \<noteq> []" "\<And>k. k < length rest \<Longrightarrow> \<not> ends_header (drop k rest)"
  shows "printer_status i b (Data d # src) = None"
proof -
  obtain b1 f b2 j where h: "printer_status i b (Data d # src) = parse_body i b1 f (length d) src"
    "find_length b1 f (length d) src = Inr (j, int len, length d, b2, src)"
    "has b2 j rest" "j + length rest = length d"
    using head_parsed [OF g d sz] by blast
  obtain k where k: "scan_end b2 j (length d) = Some (False, k)" "k < length d"
    using scan_end_not_yet [OF h(3,4) rest(2)] rest(1) by blast
  have "scan_end b2 k (length d) = Some (False, k)"
    using scan_end_stops [OF k(1)] by (simp add: scan_end.simps [of b2 k])
  then have "find_end False b2 j (length d) src = None" using k by (intro find_end_stuck)
  moreover have "\<not> length d \<le> j" using h(4) rest(1) by (cases rest) auto
  ultimately show ?thesis using h(1,2) by (simp add: parse_body_def more_if_def)
qed

section \<open>The headers\<close>

text \<open>The option as the printer reads it: a tag, two counted strings.\<close>

definition option_bytes :: "char \<Rightarrow> string \<Rightarrow> string \<Rightarrow> char list" where
  "option_bytes tag optname optval =
     [tag] @ be16 (length optname) @ optname @ be16 (length optval) @ optval"

fun take_option :: "char list \<Rightarrow> (char \<times> string \<times> string \<times> char list) option" where
  "take_option (tag # a # b # cs) =
     (let n = of_char a * 256 + of_char b
      in case drop n cs of
           c # d # ds \<Rightarrow> (let m = of_char c * 256 + of_char d in Some (tag, take n cs, take m ds, drop m ds))
         | _ \<Rightarrow> None)"
| "take_option _ = None"

lemma be16_val: "n < 65536 \<Longrightarrow> of_char (char_of (n div 256)) * 256 + of_char (char_of n) = (n::nat)"
  by (simp add: less_mult_imp_div_less)

lemma take_option_bytes:
  assumes "length optname < 65536" and "length optval < 65536"
  shows "take_option (option_bytes tag optname optval @ rest) = Some (tag, optname, optval, rest)"
  using be16_val [OF assms(1)] be16_val [OF assms(2)]
  by (simp add: option_bytes_def be16_def Let_def del: of_char_of)

lemma add_option_fits:
  "add_option tag optname optval cp =
     (if length cp + length (option_bytes tag optname optval) + 1 \<le> IBUFSZ
      then Inr (cp @ option_bytes tag optname optval) else Inl (Past ''ibuf''))"
  by (simp add: add_option_def put_def option_bytes_def be16_def)

lemma cstr_first: "NUL \<in> set xs \<Longrightarrow> cstr (xs @ ys) = cstr xs"
  by (induction xs) (auto simp: cstr_def)

text \<open>The header the printer thread means to send, and when it fits its 512-byte buffer.\<close>

definition doc_format :: "printreq \<Rightarrow> string" where
  "doc_format rq = (if is_text rq then ''text/plain'' else ''application/postscript'')"

definition ipp_bytes :: "string \<Rightarrow> 32 word \<Rightarrow> printreq \<Rightarrow> char list" where
  "ipp_bytes printer_name i rq =
     [CHR 0x01, CHR 0x01, CHR 0x00, CHR 0x02] @ rev (le32 i) @ [TAG_OPERATION_ATTR] @
     option_bytes TAG_CHARSET ''attributes-charset'' ''utf-8'' @
     option_bytes TAG_NATULANG ''attributes-natural-language'' ''en-us'' @
     option_bytes TAG_URI ''printer-uri'' (''http://'' @ printer_name @ ''/ipp'') @
     option_bytes TAG_NAMEWOLANG ''requesting-user-name'' (cstr (usernm rq)) @
     option_bytes TAG_NAMEWOLANG ''job-name'' (cstr (jobnm rq)) @
     option_bytes TAG_MIMETYPE ''document-format'' (doc_format rq) @ [TAG_END_OF_ATTR]"

lemma length_option_bytes [simp]: "length (option_bytes tag a b) = 5 + length a + length b"
  by (simp add: option_bytes_def be16_def)

lemma length_ipp_bytes:
  "length (ipp_bytes pn i rq) =
     160 + length pn + length (cstr (usernm rq)) + length (cstr (jobnm rq)) + length (doc_format rq)"
  by (simp add: ipp_bytes_def)

lemma be16_print_job: "be16 OP_PRINT_JOB = [CHR 0x00, CHR 0x02]"
  by code_simp

lemma ipp_header_exact:
  assumes "NUL \<in> set (usernm rq)" and "NUL \<in> set (jobnm rq)" and "length pn < 53"
  shows "ipp_header pn i rq =
    (if length (ipp_bytes pn i rq) \<le> IBUFSZ then Inr (ipp_bytes pn i rq) else Inl (Past ''ibuf''))"
  using assms
  by (auto simp: ipp_header_def add_option_fits obind_def c_string_def put_def cstr_first Let_def length_ipp_bytes
      doc_format_def ipp_bytes_def be16_print_job)

lemma ipp_header_long_name: "53 \<le> length pn \<Longrightarrow> ipp_header pn i rq = Inl (Past ''str'')"
  by (simp add: ipp_header_def add_option_fits obind_def Let_def be16_def)

text \<open>The HTTP header always fits where the address string did.\<close>

lemma http_header_fits:
  assumes "length pn < 53" and "len < 10 ^ 20"
  shows "http_header pn len =
    Inr (''POST /ipp HTTP/1.1'' @ CRLF @ ''Content-Length: '' @ dec len @ CRLF @
      ''Content-Type: application/ipp'' @ CRLF @ ''Host: '' @ pn @ '':'' @ dec 631 @ CRLF @ CRLF)"
proof -
  have "length (dec len) \<le> 20" using length_dec_le [of len 19] assms(2) by simp
  moreover have "length (dec 631) \<le> 3" using length_dec_le [of 631 2] by simp
  ultimately show ?thesis using assms(1)
    by (simp add: http_header_def obind_def put_def CRLF_def)
qed

end
