(* ===== verification/Printd_Printer.thy ===== *)
theory Printd_Printer
  imports Printd_Spool Ipp
begin

text \<open>
  The printer thread of \<^verbatim>\<open>apue.3e/printer/printd.c\<close>: one turn of its loop, from the job
  list to the printer and back, and what many turns do. What the outside does in a turn is an
  argument: the answer of \<^verbatim>\<open>get_printaddr\<close>, the connection, a disk error, the contents of
  fresh memory.
\<close>

section \<open>Definitions\<close>

subsection \<open>Connecting with exponential backoff\<close>

text \<open>
  \<^verbatim>\<open>connect_retry\<close> of \<^verbatim>\<open>apue.3e/sockets/clconn2.c\<close>: \<open>sock\<close> and \<open>conn\<close> say whether
  the calls succeed at a given number of seconds. The result: success, and the pauses made.
\<close>

abbreviation (input) MAXSLEEP :: nat where "MAXSLEEP \<equiv> 128"

function connect_retry :: "(nat \<Rightarrow> bool) \<Rightarrow> (nat \<Rightarrow> bool) \<Rightarrow> nat \<Rightarrow> nat list \<Rightarrow> bool \<times> nat list" where
  "connect_retry sock conn numsec slept =
     (if 0 < numsec \<and> numsec \<le> MAXSLEEP then
        if \<not> sock numsec then (False, slept)
        else if conn numsec then (True, slept)
        else connect_retry sock conn (2 * numsec)
               (if numsec \<le> MAXSLEEP div 2 then slept @ [numsec] else slept)
      else (False, slept))"
  by pat_completeness auto
termination by (relation "measure (\<lambda>(sock, conn, numsec, slept). 129 - numsec)") auto

subsection \<open>One job to the printer\<close>

record env =
  printaddr :: "string option option"
  printer_link :: "(source \<times> sink) option"
  disk_error :: "(nat \<times> int) option"
  fresh_mem :: "nat \<Rightarrow> char"

text \<open>The data file as the loop reads it.\<close>

definition disk :: "env \<Rightarrow> char list \<Rightarrow> source" where
  "disk E content =
     (case disk_error E of None \<Rightarrow> [Data content] | Some (k, e) \<Rightarrow> [Data (take k content), Rfail e])"

text \<open>The copying loop: whether all was sent.\<close>

function copy_file :: "source \<Rightarrow> sink \<Rightarrow> bool \<times> sink" where
  "copy_file fd w =
     (case read_src IOBUFSZ fd of
        (Inl e, _) \<Rightarrow> (False, w)
      | (Inr buf, fd') \<Rightarrow>
          if buf = [] then (True, w)
          else case writen buf w of
              (nw, w') \<Rightarrow> if nw \<noteq> int (length buf) then (False, w') else copy_file fd' w')"
  by pat_completeness auto
termination
  by (relation "measure (\<lambda>(fd, w). weight fd)") (auto dest: read_src_weight [rotated, OF sym])

text \<open>
  What becomes of a job: printed, put back, a header past its buffer, or no end. The stream
  to the printer is kept for what was sent.
\<close>

datatype job_end = Done | Defer | Crash ipp_err | Hangs

definition send_job :: "env \<Rightarrow> string \<Rightarrow> job \<Rightarrow> char list \<Rightarrow> job_end \<times> sink option" where
  "send_job E pn j content =
     (case printer_link E of
        None \<Rightarrow> (Defer, None)
      | Some (src, w) \<Rightarrow>
     (case ipp_header pn (jobid j) (req j) of
        Inl e \<Rightarrow> (Crash e, Some w)
      | Inr ibuf \<Rightarrow>
     (case http_header pn (length content + length ibuf + (if is_text (req j) then 1 else 0)) of
        Inl e \<Rightarrow> (Crash e, Some w)
      | Inr hbuf \<Rightarrow>
     (case write_snk (hbuf @ ibuf) w of
        (r, w1) \<Rightarrow>
          if r \<noteq> Inr (length hbuf + length ibuf) then (Defer, Some w1)
          else
     (case (if is_text (req j) then write_snk [CHR 0x08] w1 else (Inr 1, w1)) of
        (r, w2) \<Rightarrow>
          if r \<noteq> Inr 1 then (Defer, Some w2)
          else
     (case copy_file (disk E content) w2 of
        (ok, w3) \<Rightarrow>
          if \<not> ok then (Defer, Some w3)
          else
     (case printer_status (jobid j) \<lparr>bytes = fresh_mem E, bufsz = IOBUFSZ\<rparr> src of
        None \<Rightarrow> (Hangs, Some w3)
      | Some (Inl e) \<Rightarrow> (Crash e, Some w3)
      | Some (Inr (success, _)) \<Rightarrow> (if success then Done else Defer, Some w3))))))))"

subsection \<open>The loop\<close>

datatype turn_end = Waits | Cancelled "32 word" | Deferred "32 word" | Printed "32 word"

definition check_config :: "env \<Rightarrow> unit srv" where
  "check_config E =
     bnd (gets reread) (\<lambda>rr.
     if rr then thn (modify (\<lambda>s. s\<lparr>reread := False\<rparr>)) (init_printer (printaddr E)) else ret ())"

definition sys_open :: "string \<Rightarrow> char list option srv" where
  "sys_open n =
     bnd next_call (\<lambda>c. case c of
       Fails e \<Rightarrow> ret None
     | _ \<Rightarrow> gets (\<lambda>s. map_of (spool s) n))"

definition finish_job :: "nat \<Rightarrow> job \<Rightarrow> job_end \<Rightarrow> turn_end srv" where
  "finish_job jp j r =
     (case r of
        Done \<Rightarrow> thn (unlink (data_name (jobid j))) (thn (unlink (req_name (jobid j))) (
                  thn (free_job jp) (ret (Printed (jobid j)))))
      | Defer \<Rightarrow> thn (replace_job jp) (ret (Deferred (jobid j)))
      | Crash (Past b) \<Rightarrow> fail_with (Overrun b)
      | Hangs \<Rightarrow> fail_with Diverges)"

definition printer_turn :: "env \<Rightarrow> turn_end srv" where
  "printer_turn E =
     bnd take_job (\<lambda>t. case t of
       None \<Rightarrow> ret Waits
     | Some jp \<Rightarrow>
     thn update_jobno (
     thn (check_config E) (
     bnd (get_job jp) (\<lambda>j.
     bnd (sys_open (data_name (jobid j))) (\<lambda>f. case f of
       None \<Rightarrow> thn (free_job jp) (ret (Cancelled (jobid j)))
     | Some content \<Rightarrow>
     bnd next_call (\<lambda>c. case c of
       Fails e \<Rightarrow> thn (free_job jp) (ret (Cancelled (jobid j)))
     | _ \<Rightarrow>
     bnd (gets printer_name) (\<lambda>pn.
     finish_job jp j (fst (send_job E pn j content)))))))))"

section \<open>Connecting\<close>

declare connect_retry.simps [simp del] copy_file.simps [simp del]

text \<open>
  \<open>k\<close> attempts fail, at most eight; the pauses are the powers of two below them, and the last
  attempt is not followed by one.
\<close>

lemma connect_retry_from:
  assumes "m \<le> 8"
  shows "\<exists>k. m \<le> k \<and> k \<le> 8 \<and> (\<forall>j. m \<le> j \<and> j < k \<longrightarrow> sock (2 ^ j) \<and> \<not> cn (2 ^ j)) \<and>
    connect_retry sock cn (2 ^ m) sl =
      (k < 8 \<and> sock (2 ^ k) \<and> cn (2 ^ k), sl @ map ((^) 2) [m..<min k 7]) \<and>
    (k < 8 \<longrightarrow> \<not> sock (2 ^ k) \<or> cn (2 ^ k))"
  using assms
proof (induction "8 - m" arbitrary: m sl)
  case 0
  then have "m = 8" by simp
  then show ?case by (intro exI [of _ 8]) (auto simp: connect_retry.simps)
next
  case (Suc n)
  then have m: "m < 8" and n: "n = 8 - Suc m" by simp_all
  have le: "(2::nat) ^ m \<le> 128" using power_increasing [of m 7 "2::nat"] m by simp
  show ?case
  proof (cases "sock (2 ^ m) \<and> \<not> cn (2 ^ m)")
    case False
    with m le show ?thesis
      by (intro exI [of _ m]) (auto simp: connect_retry.simps [of sock cn "2 ^ m"])
  next
    case True
    let ?sl = "if (2::nat) ^ m \<le> 64 then sl @ [2 ^ m] else sl"
    have e: "connect_retry sock cn (2 ^ m) sl = connect_retry sock cn (2 ^ Suc m) ?sl"
      using True le by (simp add: connect_retry.simps [of sock cn "2 ^ m"])
    have s7: "(2::nat) ^ m \<le> 64 \<longleftrightarrow> m < 7"
      using power_increasing_iff [of "2::nat" m 6] by auto
    obtain k where k: "Suc m \<le> k" "k \<le> 8" "\<forall>j. Suc m \<le> j \<and> j < k \<longrightarrow> sock (2 ^ j) \<and> \<not> cn (2 ^ j)"
      "connect_retry sock cn (2 ^ Suc m) ?sl =
        (k < 8 \<and> sock (2 ^ k) \<and> cn (2 ^ k), ?sl @ map ((^) 2) [Suc m..<min k 7])"
      "k < 8 \<longrightarrow> \<not> sock (2 ^ k) \<or> cn (2 ^ k)"
      using Suc.hyps(1) [OF n] m by (metis Suc_leI)
    have "?sl @ map ((^) 2) [Suc m..<min k 7] = sl @ map ((^) 2) [m..<min k 7]"
      using k(1) m s7 by (auto simp: upt_conv_Cons)
    moreover have "\<forall>j. m \<le> j \<and> j < k \<longrightarrow> sock (2 ^ j) \<and> \<not> cn (2 ^ j)"
      using k(3) True by (metis le_neq_implies_less Suc_leI)
    ultimately show ?thesis using e k by (intro exI [of _ k]) simp
  qed
qed

section \<open>A job is sent\<close>

lemma copy_file_send_file:
  "copy_file fd w = (fst (send_file fd w) = Inr (), snd (send_file fd w))"
proof (induction fd w rule: copy_file.induct)
  case (1 fd w)
  obtain x fd' where rd: "read_src IOBUFSZ fd = (x, fd')" by (cases "read_src IOBUFSZ fd")
  show ?case
  proof (cases "\<exists>d. x = Inr d \<and> d \<noteq> []")
    case False
    with rd show ?thesis
      by (cases x) (auto simp: copy_file.simps [of fd w] send_file.simps [of fd w])
  next
    case True
    then obtain d where d: "x = Inr d" "d \<noteq> []" by blast
    obtain nw w' where wr: "writen d w = (nw, w')" by (cases "writen d w")
    show ?thesis
      using 1 [OF rd [symmetric] d(1,2) wr [symmetric]] rd d wr
      by (simp add: copy_file.simps [of fd w] send_file.simps [of fd w])
  qed
qed

lemma copy_file_steady:
  "steady w \<Longrightarrow> disk_error E = None \<Longrightarrow>
     copy_file (disk E content) w = (True, w\<lparr>sent := sent w @ content\<rparr>)"
  using send_file_steady [of w "[Data content]" content]
  by (cases content) (simp_all add: copy_file_send_file disk_def)

section \<open>A turn of the loop\<close>

text \<open>What a step may change without touching the lists, the spool directory and the job number.\<close>

definition core :: "printd \<Rightarrow> printd" where
  "core s = s\<lparr>jobfile := [], calls := [], reread := False, printer_name := []\<rparr>"

definition quiet :: "printd \<Rightarrow> printd \<Rightarrow> bool" where
  "quiet s s' \<longleftrightarrow> core s' = core s"

lemma quiet_refl: "quiet s s"
  by (simp add: quiet_def)

lemma quiet_trans: "quiet s t \<Longrightarrow> quiet t u \<Longrightarrow> quiet s u"
  by (simp add: quiet_def)

lemma quiet_fields:
  assumes "quiet s s'"
  shows "jobs s' = jobs s" "job_brk s' = job_brk s" "jobhead s' = jobhead s" "jobtail s' = jobtail s"
    "spool s' = spool s" "nextjob s' = nextjob s" "workers s' = workers s" "wthreads s' = wthreads s"
  using arg_cong [OF assms [unfolded quiet_def], of jobs] arg_cong [OF assms [unfolded quiet_def], of job_brk]
    arg_cong [OF assms [unfolded quiet_def], of jobhead] arg_cong [OF assms [unfolded quiet_def], of jobtail]
    arg_cong [OF assms [unfolded quiet_def], of spool] arg_cong [OF assms [unfolded quiet_def], of nextjob]
    arg_cong [OF assms [unfolded quiet_def], of workers] arg_cong [OF assms [unfolded quiet_def], of wthreads]
  by (simp_all add: core_def)

lemma quiet_upd:
  "quiet s (s\<lparr>jobfile := jf\<rparr>)" "quiet s (s\<lparr>calls := cs\<rparr>)" "quiet s (s\<lparr>printer_name := pn\<rparr>)"
  "quiet s (s\<lparr>reread := rr, printer_name := pn\<rparr>)"
  by (simp_all add: quiet_def core_def)

lemma quiet_next_call: "next_call s = Inr (c, s') \<Longrightarrow> quiet s s'"
  by (cases "calls s") (auto simp: next_call_def quiet_refl quiet_upd)

lemma job_list_quiet: "quiet s s' \<Longrightarrow> job_list s' as = job_list s as"
  by (simp add: job_list_def quiet_fields)

lemma quiet_update_jobno:
  assumes "update_jobno s = Inr (u, s')"
  shows "quiet s s'"
proof -
  obtain c s1 where c: "next_call s = Inr (c, s1)" using next_call_run [of s] by blast
  from assms show ?thesis
    using quiet_trans [OF quiet_next_call [OF c]] quiet_upd(1)
    by (cases c) (auto simp: update_jobno_def bnd_def c)
qed

lemma quiet_check_config: "check_config E s = Inr (u, s') \<Longrightarrow> quiet s s'"
  by (auto simp: check_config_def init_printer_def bnd_def thn_def quiet_refl quiet_upd
      split: if_splits option.splits)

lemma quiet_sys_open:
  assumes "sys_open n s = Inr (f, s')"
  shows "quiet s s' \<and> (f = None \<or> f = map_of (spool s) n)"
proof -
  obtain c s1 where c: "next_call s = Inr (c, s1)" using next_call_run [of s] by blast
  have "spool s1 = spool s" by (rule quiet_fields(5) [OF quiet_next_call [OF c]])
  with assms quiet_next_call [OF c] show ?thesis
    by (cases c) (auto simp: sys_open_def bnd_def c)
qed

text \<open>
  A turn that returns leaves the first job printed and its files gone, put back in front, or
  dropped with its files in place; the other jobs keep their order.
\<close>

definition turn_effect :: "printd \<Rightarrow> nat \<Rightarrow> nat list \<Rightarrow> turn_end \<Rightarrow> printd \<Rightarrow> bool" where
  "turn_effect s a as r s' \<longleftrightarrow>
     (\<forall>b \<in> set as. item (jobs s') b = item (jobs s) b) \<and> nextjob s' = nextjob s \<and>
     workers s' = workers s \<and> wthreads s' = wthreads s \<and>
     (let i = fst (item (jobs s) a) in
      r = Printed i \<and> job_list s' as \<and>
        map_of (spool s') = (map_of (spool s))(data_name i := None, req_name i := None) \<or>
      r = Deferred i \<and> job_list s' (a # as) \<and> item (jobs s') a = item (jobs s) a \<and> spool s' = spool s \<or>
      r = Cancelled i \<and> job_list s' as \<and> spool s' = spool s)"

lemma finish_job_effect:
  assumes q: "job_list s as" and a: "jobs s a = Some j" "a \<notin> set as"
    and run: "finish_job a j r s = Inr (t, s')"
  shows "turn_effect s a as t s'"
proof (cases r)
  case Done
  let ?s1 = "s\<lparr>spool := AList.delete (req_name (jobid j)) (AList.delete (data_name (jobid j)) (spool s))\<rparr>"
  have q1: "job_list ?s1 as" using q by (simp add: job_list_def)
  have "t = Printed (jobid j)" "s' = ?s1\<lparr>jobs := (jobs s)(a := None)\<rparr>"
    using run free_job_run(1) [OF q1 a(2)] by (simp_all add: Done finish_job_def unlink_def thn_def bnd_def)
  then show ?thesis
    using free_job_run(2) [OF q1 a(2)] a by (auto simp: turn_effect_def item_def Let_def)
next
  case Defer
  from replace_job_run [OF q a] obtain h' tl' where
    h: "replace_job a s = Inr ((), s\<lparr>jobs := h', jobhead := Some a, jobtail := tl'\<rparr>)"
      "job_list (s\<lparr>jobs := h', jobhead := Some a, jobtail := tl'\<rparr>) (a # as)"
      "\<forall>b. item h' b = item (jobs s) b" by blast
  have "t = Deferred (jobid j)" "s' = s\<lparr>jobs := h', jobhead := Some a, jobtail := tl'\<rparr>"
    using run h(1) by (simp_all add: Defer finish_job_def thn_def bnd_def)
  then show ?thesis using h(2,3) a(1) by (simp add: turn_effect_def item_def)
next
  case (Crash e)
  then show ?thesis using run by (cases e) (simp add: finish_job_def)
next
  case Hangs
  then show ?thesis using run by (simp add: finish_job_def)
qed

lemma turn_effect_quiet:
  assumes qt: "quiet s1 s2" and it: "\<forall>b. item (jobs s1) b = item (jobs s) b"
    and eq: "spool s1 = spool s" "nextjob s1 = nextjob s" "workers s1 = workers s" "wthreads s1 = wthreads s"
    and ef: "turn_effect s2 a as r s'"
  shows "turn_effect s a as r s'"
  using ef unfolding turn_effect_def quiet_fields [OF qt] eq it [rule_format] .

lemma printer_turn_effect:
  assumes q: "job_list s (a # as)" and run: "printer_turn E s = Inr (r, s')"
  shows "turn_effect s a as r s'"
proof -
  from take_job_run [OF q] obtain h' hd' tl' where
    tj: "take_job s = Inr (Some a, s\<lparr>jobs := h', jobhead := hd', jobtail := tl'\<rparr>)"
    and q1: "job_list (s\<lparr>jobs := h', jobhead := hd', jobtail := tl'\<rparr>) as"
    and it: "\<forall>b. item h' b = item (jobs s) b" and dm: "\<forall>b. h' b = None \<longleftrightarrow> jobs s b = None"
    unfolding Let_def by blast
  let ?s1 = "s\<lparr>jobs := h', jobhead := hd', jobtail := tl'\<rparr>"
  have na: "a \<notin> set as" "jobs s a \<noteq> None" using q by (auto simp: job_list_def)
  then obtain j where j: "h' a = Some j" using dm by (metis option.exhaust)
  from run obtain s2 s3 where 2: "update_jobno ?s1 = Inr ((), s2)" and 3: "check_config E s2 = Inr ((), s3)"
    and rest: "bnd (get_job a) (\<lambda>j. bnd (sys_open (data_name (jobid j))) (\<lambda>f. case f of
       None \<Rightarrow> thn (free_job a) (ret (Cancelled (jobid j)))
     | Some content \<Rightarrow> bnd next_call (\<lambda>c. case c of
       Fails e \<Rightarrow> thn (free_job a) (ret (Cancelled (jobid j)))
     | _ \<Rightarrow> bnd (gets printer_name) (\<lambda>pn. finish_job a j (fst (send_job E pn j content)))))) s3 = Inr (r, s')"
    by (auto simp: printer_turn_def bnd_eq_Inr thn_eq_Inr tj)
  have qt3: "quiet ?s1 s3" using quiet_update_jobno [OF 2] quiet_check_config [OF 3] by (rule quiet_trans)
  have j3: "jobs s3 a = Some j" using quiet_fields(1) [OF qt3] j by simp
  obtain f s4 where 4: "sys_open (data_name (jobid j)) s3 = Inr (f, s4)"
    using rest by (auto simp: bnd_eq_Inr get_job_run [OF j3])
  have qt4: "quiet ?s1 s4" using qt3 quiet_sys_open [OF 4] quiet_trans by blast
  have cancel: "turn_effect t a as (Cancelled (jobid j)) s'"
    if "quiet ?s1 t" "thn (free_job a) (ret (Cancelled (jobid j))) t = Inr (r, s')" for t
  proof -
    have qt: "job_list t as" using q1 job_list_quiet [OF that(1)] by simp
    have jt: "jobs t a = Some j" using quiet_fields(1) [OF that(1)] j by simp
    show ?thesis
      using that(2) free_job_run [OF qt na(1)] jt na(1)
      by (auto simp: turn_effect_def thn_def bnd_def item_def Let_def)
  qed
  have canc: "r = Cancelled (jobid j)"
    if "thn (free_job a) (ret (Cancelled (jobid j))) t = Inr (r, s')" for t
    using that by (auto simp: thn_eq_Inr)
  have "\<exists>t. quiet ?s1 t \<and> turn_effect t a as r s'"
  proof (cases f)
    case None
    then have "thn (free_job a) (ret (Cancelled (jobid j))) s4 = Inr (r, s')"
      using rest 4 by (simp add: bnd_def get_job_run [OF j3])
    with cancel [OF qt4] canc qt4 show ?thesis by blast
  next
    case (Some content)
    obtain c s5 where 5: "next_call s4 = Inr (c, s5)" using next_call_run [of s4] by blast
    have qt5: "quiet ?s1 s5" using qt4 quiet_next_call [OF 5] by (rule quiet_trans)
    have q5: "job_list s5 as" using q1 job_list_quiet [OF qt5] by simp
    have j5: "jobs s5 a = Some j" using quiet_fields(1) [OF qt5] j by simp
    show ?thesis
    proof (cases "\<exists>e. c = Fails e")
      case True
      then have "thn (free_job a) (ret (Cancelled (jobid j))) s5 = Inr (r, s')"
        using rest 4 5 Some by (auto simp: bnd_def get_job_run [OF j3])
      with cancel [OF qt5] canc qt5 show ?thesis by blast
    next
      case False
      then have "finish_job a j (fst (send_job E (printer_name s5) j content)) s5 = Inr (r, s')"
        using rest 4 5 Some by (cases c) (auto simp: bnd_def get_job_run [OF j3])
      with finish_job_effect [OF q5 j5 na(1)] qt5 show ?thesis by blast
    qed
  qed
  then obtain t where t: "quiet ?s1 t" "turn_effect t a as r s'" by blast
  show ?thesis by (rule turn_effect_quiet [OF t(1) _ _ _ _ _ t(2)]) (use it in simp_all)
qed

end
