(* ===== verification/Printd_System.thy ===== *)
theory Printd_System
  imports Printd_Printer
begin

text \<open>
  The print server as a whole: client threads, the printer thread and the signal thread
  take steps in any order, with any answers of the system calls. Each thread's turn is one
  step; what the threads share outside the locked sections are files whose names only they
  use. Shown: no step loses a job or mixes two of them up, and a printer that works prints
  everything in order.
\<close>

section \<open>Steps\<close>

inductive srv_step :: "printd \<Rightarrow> printd \<Rightarrow> bool" where
  client: "sint (nextjob s) < 2147483647 \<Longrightarrow>
    client_thread strerror stk res0 False False t fd inp out s = Inr (r, s') \<Longrightarrow> srv_step s s'"
| printer: "printer_turn E s = Inr (e, s') \<Longrightarrow> srv_step s s'"
| hangup: "signal_turn (Inr SIGHUP) s = Inr (u, s') \<Longrightarrow> srv_step s s'"
| environment: "srv_step s (s\<lparr>calls := cs\<rparr>)"

inductive reachable :: "printd \<Rightarrow> printd \<Rightarrow> bool" where
  start: "reachable s s"
| more: "reachable s t \<Longrightarrow> srv_step t u \<Longrightarrow> reachable s u"

section \<open>The invariant\<close>

definition spooled :: "printd \<Rightarrow> 32 word \<Rightarrow> printreq \<Rightarrow> bool" where
  "spooled s i r \<longleftrightarrow>
     0 < sint i \<and> sint i < sint (nextjob s) \<and> wf_req r \<and>
     map_of (spool s) (req_name i) = Some (req_bytes r) \<and> map_of (spool s) (data_name i) \<noteq> None"

definition spool_inv :: "printd \<Rightarrow> nat list \<Rightarrow> bool" where
  "spool_inv s as \<longleftrightarrow>
     job_list s as \<and> idle_workers s \<and> 0 < sint (nextjob s) \<and>
     (\<forall>a \<in> set as. case item (jobs s) a of (i, r) \<Rightarrow> spooled s i r) \<and>
     distinct (map (\<lambda>a. fst (item (jobs s) a)) as) \<and>
     (\<forall>i. sint (nextjob s) \<le> sint i \<longrightarrow>
        map_of (spool s) (data_name i) = None \<and> map_of (spool s) (req_name i) = None)"

lemma dec_inj: "dec m = dec n \<Longrightarrow> m = n"
  by (metis digits_val_dec)

lemma job_names_inj:
  assumes "0 < sint i" and "0 < sint j"
  shows "data_name i = data_name j \<longleftrightarrow> i = j" "req_name i = req_name j \<longleftrightarrow> i = j"
proof -
  obtain m n where m: "i = of_nat m" "sdec (sint i) = dec m" and n: "j = of_nat n" "sdec (sint j) = dec n"
    using pos_job [OF assms(1)] pos_job [OF assms(2)] by metis
  have "dec m = dec n \<longleftrightarrow> i = j"
    using dec_inj m n by metis
  then show "data_name i = data_name j \<longleftrightarrow> i = j" "req_name i = req_name j \<longleftrightarrow> i = j"
    by (simp_all add: data_name_def req_name_def in_dir_def m(2) n(2))
qed

lemma sint_succ_job:
  assumes "0 < sint i" and "sint i < 2147483647"
  shows "sint (succ_job i) = sint i + 1"
proof -
  obtain n where n: "unat i = n" "sint i = int n" "0 < n" "n < 2147483648" using pos_job [OF assms(1)] by metis
  have "unat (succ_job i) = n mod 2147483647 + 1" using succ_job_unat [of i] n by simp
  then have u: "unat (succ_job i) = n + 1" using n(2) assms(2) by simp
  obtain m where "unat (succ_job i) = m" "sint (succ_job i) = int m" using pos_job [OF succ_job_pos [OF assms(1)]] by metis
  with u n show ?thesis by simp
qed

lemma client_thread_short:
  assumes "idle_workers s" and "fst (treadn sizeof_req inp) \<noteq> Inr sizeof_req"
  shows "\<exists>e n. client_thread strerror stk res0 False False t fd inp out s =
    Inr ((1, send_response (refusal strerror res0 e) out),
      s\<lparr>worker_brk := n, open_socks := filter (\<lambda>x. x \<noteq> fd) (open_socks s)\<rparr>)"
proof -
  obtain n ws h where aw: "add_worker False t fd s = Inr (True, s\<lparr>worker_brk := n, wthreads := ws, workers := h\<rparr>)"
    and ow: "one_worker t fd (s\<lparr>worker_brk := n, wthreads := ws, workers := h\<rparr>)"
    using add_worker_alone [OF assms(1), of t fd] by blast
  obtain k bs inp' where tr: "treadn sizeof_req inp = (k, bs, inp')" by (cases "treadn sizeof_req inp")
  have "s\<lparr>worker_brk := n, wthreads := ws, workers := h\<rparr>\<lparr>workers := None, wthreads := (\<lambda>_. None),
      open_socks := filter (\<lambda>x. x \<noteq> fd) (open_socks s)\<rparr> =
    s\<lparr>worker_brk := n, open_socks := filter (\<lambda>x. x \<noteq> fd) (open_socks s)\<rparr>"
    using assms(1) by (simp add: idle_workers_def)
  then show ?thesis
    using aw tr assms(2) client_cleanup_alone [OF ow]
    by (intro exI [of _ "case k of Inl e \<Rightarrow> e | Inr _ \<Rightarrow> EIO"] exI [of _ n])
      (simp add: client_thread_def bnd_def thn_def Let_def)
qed

section \<open>Every step keeps the invariant\<close>

lemma spool_inv_same:
  assumes "spool_inv s as" and "jobs s' = jobs s" "job_brk s' = job_brk s" "jobhead s' = jobhead s"
    "jobtail s' = jobtail s" "map_of (spool s') = map_of (spool s)" "nextjob s' = nextjob s" "idle_workers s'"
  shows "spool_inv s' as"
  using assms unfolding spool_inv_def spooled_def job_list_def by simp

lemma accepts_inv:
  assumes inv: "spool_inv s as" and acc: "accepts res0 out fd rq bs s as r s'" and wf: "wf_req rq"
    and nj: "nextjob s' = succ_job (nextjob s)" "idle_workers s'" and lt: "sint (nextjob s) < 2147483647"
  shows "spool_inv s' (as @ [job_brk s])"
proof -
  let ?i = "nextjob s"
  have pos: "0 < sint ?i" using inv by (simp add: spool_inv_def)
  have nx: "sint (nextjob s') = sint ?i + 1" using sint_succ_job [OF pos lt] nj(1) by simp
  have jl: "job_list s' (as @ [job_brk s])"
    and sp: "map_of (spool s') = (map_of (spool s))(data_name ?i \<mapsto> bs, req_name ?i \<mapsto> req_bytes rq)"
    and it: "\<forall>a \<in> set as. item (jobs s') a = item (jobs s) a" "item (jobs s') (job_brk s) = (?i, rq)"
    using acc by (auto simp: accepts_def)
  have old: "spooled s' i q" if "spooled s i q" for i q
  proof -
    have i: "0 < sint i" "sint i < sint ?i" using that by (auto simp: spooled_def)
    then have "i \<noteq> ?i" by auto
    then have "data_name i \<noteq> data_name ?i" "req_name i \<noteq> req_name ?i"
      using job_names_inj [OF i(1) pos] by auto
    then show ?thesis using that nx by (auto simp: spooled_def sp)
  qed
  have "\<forall>a \<in> set as. case item (jobs s) a of (i, q) \<Rightarrow> spooled s i q" using inv by (simp add: spool_inv_def)
  then have spl: "\<forall>a \<in> set (as @ [job_brk s]). case item (jobs s') a of (i, q) \<Rightarrow> spooled s' i q"
    using old it pos nx wf by (auto simp: spooled_def sp)
  have "\<forall>a \<in> set as. fst (item (jobs s) a) \<noteq> ?i"
    using inv by (force simp: spool_inv_def spooled_def)
  then have dis: "distinct (map (\<lambda>a. fst (item (jobs s') a)) (as @ [job_brk s]))"
    using inv it by (auto simp: spool_inv_def cong: map_cong)
  have free: "map_of (spool s') (data_name i) = None \<and> map_of (spool s') (req_name i) = None"
    if "sint (nextjob s') \<le> sint i" for i
  proof -
    have i: "sint ?i < sint i" "0 < sint i" using that nx pos by simp_all
    then have "i \<noteq> ?i" by auto
    then have "data_name i \<noteq> data_name ?i" "req_name i \<noteq> req_name ?i"
      using job_names_inj [OF i(2) pos] by auto
    then show ?thesis using inv i(1) by (simp add: spool_inv_def sp)
  qed
  show ?thesis using jl nj(2) nx pos spl dis free by (simp add: spool_inv_def)
qed

lemma client_inv:
  assumes inv: "spool_inv s as" and lt: "sint (nextjob s) < 2147483647"
    and run: "client_thread strerror stk res0 False False t fd inp out s = Inr (r, s')"
  shows "\<exists>as'. spool_inv s' as'"
proof (cases "fst (treadn sizeof_req inp) = Inr sizeof_req")
  case False
  obtain e n where "s' = s\<lparr>worker_brk := n, open_socks := filter (\<lambda>x. x \<noteq> fd) (open_socks s)\<rparr>"
    using client_thread_short [OF _ False, of s strerror stk res0 t fd out] inv run
    by (auto simp: spool_inv_def)
  then have "spool_inv s' as"
    using inv by (intro spool_inv_same [OF inv]) (auto simp: spool_inv_def idle_workers_def)
  then show ?thesis by blast
next
  case True
  then obtain bs inp' where hdr: "treadn sizeof_req inp = (Inr sizeof_req, bs, inp')"
    by (cases "treadn sizeof_req inp") auto
  have pre: "job_list s as" "idle_workers s" "map_of (spool s) (data_name (nextjob s)) = None"
    "map_of (spool s) (req_name (nextjob s)) = None" using inv by (auto simp: spool_inv_def)
  have eff: "accepts res0 out fd (stored_req stk bs inp') (delivered inp') s as r s' \<or>
      refuses_job strerror res0 out s as r s'" "idle_workers s'" "nextjob s' = succ_job (nextjob s)"
    using client_thread_run [OF pre hdr, of strerror stk res0 t fd out] run by auto
  have pos: "0 < sint (nextjob s)" using inv by (simp add: spool_inv_def)
  show ?thesis
  proof (cases "accepts res0 out fd (stored_req stk bs inp') (delivered inp') s as r s'")
    case True
    have "wf_req (stored_req stk bs inp')"
      using treadn_whole [OF hdr] wf_host_order [OF wf_bytes_req, of bs]
      by (simp add: stored_req_def wf_req_def Let_def)
    from accepts_inv [OF inv True this eff(3,2) lt] show ?thesis by blast
  next
    case False
    then have ref: "refuses_job strerror res0 out s as r s'" using eff(1) by blast
    have nx: "sint (nextjob s') = sint (nextjob s) + 1" using sint_succ_job [OF pos lt] eff(3) by simp
    have it: "\<forall>a \<in> set as. item (jobs s') a = item (jobs s) a" and sp: "map_of (spool s') = map_of (spool s)"
      and jl: "job_list s' as" using ref by (auto simp: refuses_job_def)
    have "distinct (map (\<lambda>a. fst (item (jobs s') a)) as)"
      using inv it by (simp add: spool_inv_def cong: map_cong)
    then have "spool_inv s' as"
      using inv it sp jl nx eff(2) unfolding spool_inv_def spooled_def by auto
    then show ?thesis by blast
  qed
qed

lemma turn_inv:
  assumes inv: "spool_inv s (a # as)" and ef: "turn_effect s a as r s'"
  shows "spool_inv s' (case r of Deferred _ \<Rightarrow> a # as | _ \<Rightarrow> as)"
proof -
  obtain i q where iq: "item (jobs s) a = (i, q)" by (cases "item (jobs s) a")
  have sp: "spooled s i q" using inv iq by (simp add: spool_inv_def)
  have it: "\<forall>b \<in> set as. item (jobs s') b = item (jobs s) b" and nx: "nextjob s' = nextjob s"
    and id: "idle_workers s'" using inv ef by (auto simp: turn_effect_def spool_inv_def idle_workers_def)
  have dis: "distinct (map (\<lambda>b. fst (item (jobs s') b)) as)" "\<forall>b \<in> set as. fst (item (jobs s) b) \<noteq> i"
    using inv it iq by (auto simp: spool_inv_def cong: map_cong)
  from ef iq consider
      (p) "r = Printed i" "job_list s' as" "map_of (spool s') = (map_of (spool s))(data_name i := None, req_name i := None)"
    | (d) "r = Deferred i" "job_list s' (a # as)" "item (jobs s') a = (i, q)" "spool s' = spool s"
    | (c) "r = Cancelled i" "job_list s' as" "spool s' = spool s"
    by (auto simp: turn_effect_def Let_def)
  then show ?thesis
  proof cases
    case p
    have "spooled s' k rq" if "spooled s k rq" "k \<noteq> i" for k rq
      using that sp nx job_names_inj [of k i] by (simp add: spooled_def p(3))
    then have "\<forall>b \<in> set as. case item (jobs s') b of (k, rq) \<Rightarrow> spooled s' k rq"
      using inv it dis(2) by (force simp: spool_inv_def)
    then have "spool_inv s' as" using inv dis(1) nx id p by (simp add: spool_inv_def)
    then show ?thesis using p(1) by simp
  next
    case d
    have "spool_inv s' (a # as)"
      using inv dis it nx id d iq unfolding spool_inv_def spooled_def by auto
    then show ?thesis using d(1) by simp
  next
    case c
    have "spool_inv s' as"
      using inv dis(1) it nx id c unfolding spool_inv_def spooled_def by auto
    then show ?thesis using c(1) by simp
  qed
qed

lemma step_inv:
  assumes "srv_step s s'" and "spool_inv s as"
  shows "\<exists>as'. spool_inv s' as'"
  using assms
proof (induction arbitrary: as rule: srv_step.induct)
  case (client s strerror stk res0 t fd inp out r s')
  then show ?case using client_inv by blast
next
  case (printer E s e s')
  show ?case
  proof (cases as)
    case Nil
    then have "s' = s\<lparr>printer_waits := True\<rparr>"
      using printer take_job_empty [of s] by (auto simp: printer_turn_def bnd_def spool_inv_def)
    then have "spool_inv s' as"
      using printer.prems by (intro spool_inv_same [OF printer.prems]) (auto simp: spool_inv_def idle_workers_def)
    then show ?thesis ..
  next
    case (Cons a bs)
    then have "job_list s (a # bs)" using printer.prems by (simp add: spool_inv_def)
    from turn_inv [OF _ printer_turn_effect [OF this printer.hyps]] show ?thesis
      using printer.prems Cons by blast
  qed
next
  case (hangup s u s')
  then have "s' = s\<lparr>reread := True\<rparr>" by (simp add: signal_turn_def)
  then have "spool_inv s' as"
    using hangup.prems by (intro spool_inv_same [OF hangup.prems]) (auto simp: spool_inv_def idle_workers_def)
  then show ?case ..
next
  case (environment s cs)
  then have "spool_inv (s\<lparr>calls := cs\<rparr>) as"
    by (intro spool_inv_same [OF environment]) (auto simp: spool_inv_def idle_workers_def)
  then show ?case ..
qed

lemma reachable_inv: "reachable s t \<Longrightarrow> spool_inv s as \<Longrightarrow> \<exists>bs. spool_inv t bs"
  by (induction arbitrary: as rule: reachable.induct) (blast intro: step_inv)+

section \<open>A working printer empties the queue\<close>

text \<open>
  What the printer receives for a job, and a printer that is reached, takes everything and
  answers with success.
\<close>

definition sent_bytes :: "string \<Rightarrow> 32 word \<Rightarrow> printreq \<Rightarrow> char list \<Rightarrow> char list" where
  "sent_bytes pn i rq content =
     (let ipp = ipp_bytes pn i rq; lead = if is_text rq then [CHR 0x08] else []
      in ''POST /ipp HTTP/1.1'' @ CRLF @ ''Content-Length: '' @
         dec (length ipp + length lead + length content) @ CRLF @
         ''Content-Type: application/ipp'' @ CRLF @ ''Host: '' @ pn @ '':'' @ dec 631 @ CRLF @ CRLF @
         ipp @ lead @ content)"

definition fits :: "string \<Rightarrow> printreq \<Rightarrow> char list \<Rightarrow> bool" where
  "fits pn rq content \<longleftrightarrow>
     NUL \<in> set (usernm rq) \<and> NUL \<in> set (jobnm rq) \<and> length pn < 53 \<and>
     length (ipp_bytes pn 0 rq) \<le> IBUFSZ \<and> length content < 2 ^ 63"

definition confirms :: "32 word \<Rightarrow> source \<Rightarrow> bool" where
  "confirms i src \<longleftrightarrow>
     (\<exists>ver code reason hd1 cl len pre body src'.
        src = Data (reply_head ver code reason hd1 cl len @ pre @ blank_line @ body) # src' \<and>
        good_head ver code reason hd1 cl len \<and>
        length (reply_head ver code reason hd1 cl len @ pre @ blank_line @ body) \<le> IOBUFSZ \<and>
        (\<forall>k < length pre. \<not> ends_header (drop k (pre @ blank_line))) \<and>
        8 \<le> length body \<and> len \<le> length body \<and>
        take 4 (drop 4 body) = rev (le32 i) \<and> body ! 2 = NUL)"

lemma confirms_status:
  assumes "confirms i src" and "bufsz b = IOBUFSZ"
  shows "\<exists>src'. printer_status i b src = Some (Inr (True, src'))"
proof -
  from assms(1) obtain ver code reason hd1 cl len pre body src' where
    src: "src = Data (reply_head ver code reason hd1 cl len @ pre @ blank_line @ body) # src'"
    and g: "good_head ver code reason hd1 cl len"
    and sz: "length (reply_head ver code reason hd1 cl len @ pre @ blank_line @ body) \<le> IOBUFSZ"
    and pre: "\<forall>k < length pre. \<not> ends_header (drop k (pre @ blank_line))"
    and body: "8 \<le> length body" "len \<le> length body" "take 4 (drop 4 body) = rev (le32 i)" "body ! 2 = NUL"
    unfolding confirms_def by blast
  show ?thesis
    using whole_reply [OF g refl, of pre body b i src'] sz assms(2) pre body src by simp
qed

lemma send_job_done:
  assumes "printer_link E = Some (src, w)" and "steady w" and "disk_error E = None"
    and "fits pn (req j) content" and "confirms (jobid j) src"
  shows "send_job E pn j content = (Done, Some (w\<lparr>sent := sent w @ sent_bytes pn (jobid j) (req j) content\<rparr>))"
proof -
  have f: "NUL \<in> set (usernm (req j))" "NUL \<in> set (jobnm (req j))" "length pn < 53"
    "length (ipp_bytes pn (jobid j) (req j)) \<le> IBUFSZ" "length content < 2 ^ 63"
    using assms(4) by (simp_all add: fits_def length_ipp_bytes)
  have h: "ipp_header pn (jobid j) (req j) = Inr (ipp_bytes pn (jobid j) (req j))"
    using ipp_header_exact [OF f(1-3)] f(4) by simp
  define n where "n = length (ipp_bytes pn (jobid j) (req j))"
  have "n \<le> 512" using f(4) by (simp add: n_def)
  then have l: "length content + n + (if is_text (req j) then 1 else 0) < 10 ^ 20" using f(5) by simp
  obtain src' where st: "printer_status (jobid j) \<lparr>bytes = fresh_mem E, bufsz = IOBUFSZ\<rparr> src = Some (Inr (True, src'))"
    using confirms_status [OF assms(5), of "\<lparr>bytes = fresh_mem E, bufsz = IOBUFSZ\<rparr>"] by auto
  have wr: "write_snk bs w' = (Inr (length bs), w'\<lparr>sent := sent w' @ bs\<rparr>)" if "steady w'" for bs w'
    using that by (simp add: write_snk_def steady_def)
  have st': "steady (w'\<lparr>sent := x\<rparr>) = steady w'" for w' x by (simp add: steady_def)
  show ?thesis
    using assms(1-3)
    by (simp add: send_job_def h http_header_fits [OF f(3) l] wr st' copy_file_steady st sent_bytes_def Let_def
        flip: n_def) (auto simp: n_def add_ac)
qed

text \<open>
  Turns one after the other, one environment each; all calls of the server itself succeed.
\<close>

fun printer_turns :: "env list \<Rightarrow> turn_end list srv" where
  "printer_turns [] = ret []"
| "printer_turns (E # Es) = bnd (printer_turn E) (\<lambda>r. bnd (printer_turns Es) (\<lambda>rs. ret (r # rs)))"

definition undisturbed :: "printd \<Rightarrow> bool" where
  "undisturbed s \<longleftrightarrow> calls s = [] \<and> \<not> reread s"

definition prints :: "env \<Rightarrow> printd \<Rightarrow> nat \<Rightarrow> bool" where
  "prints E s a \<longleftrightarrow>
     (case (item (jobs s) a, printer_link E) of
        ((i, rq), Some (src, w)) \<Rightarrow>
          steady w \<and> disk_error E = None \<and> confirms i src \<and>
          (\<forall>content. map_of (spool s) (data_name i) = Some content \<longrightarrow> fits (printer_name s) rq content)
      | _ \<Rightarrow> False)"

lemma printer_turn_done:
  assumes inv: "spool_inv s (a # as)" and un: "undisturbed s" and pr: "prints E s a"
  shows "\<exists>s'. printer_turn E s = Inr (Printed (fst (item (jobs s) a)), s') \<and> undisturbed s' \<and>
    printer_name s' = printer_name s"
proof -
  have q: "job_list s (a # as)" using inv by (simp add: spool_inv_def)
  from take_job_run [OF q] obtain h' hd' tl' where
    tj: "take_job s = Inr (Some a, s\<lparr>jobs := h', jobhead := hd', jobtail := tl'\<rparr>)"
    and q1: "job_list (s\<lparr>jobs := h', jobhead := hd', jobtail := tl'\<rparr>) as"
    and it: "\<forall>b. item h' b = item (jobs s) b" and dm: "\<forall>b. h' b = None \<longleftrightarrow> jobs s b = None"
    unfolding Let_def by blast
  have na: "a \<notin> set as" "jobs s a \<noteq> None" using q by (auto simp: job_list_def)
  then obtain j where j: "h' a = Some j" using dm by (metis option.exhaust)
  have ij: "item (jobs s) a = (jobid j, req j)" using it [rule_format, of a] j by (simp add: item_def)
  obtain content where c: "map_of (spool s) (data_name (jobid j)) = Some content"
    using inv ij by (auto simp: spool_inv_def spooled_def)
  obtain src w where E: "printer_link E = Some (src, w)" "steady w" "disk_error E = None" "confirms (jobid j) src"
    "fits (printer_name s) (req j) content"
    using pr ij c by (auto simp: prints_def split: option.splits)
  define t where "t = s\<lparr>jobs := h', jobhead := hd', jobtail := tl', jobfile := overwrite (jobfile s) 0 (sdec (sint (nextjob s)))\<rparr>"
  define u where "u = t\<lparr>spool := AList.delete (req_name (jobid j)) (AList.delete (data_name (jobid j)) (spool t))\<rparr>"
  have qu: "job_list u as" using q1 by (simp add: u_def t_def job_list_def)
  have nc: "next_call t = Inr (Works, t)" using un by (simp add: next_call_def undisturbed_def t_def)
  have uj: "update_jobno (s\<lparr>jobs := h', jobhead := hd', jobtail := tl'\<rparr>) = Inr ((), t)"
    using un by (simp add: update_jobno_def bnd_def next_call_def undisturbed_def t_def)
  have cc: "check_config E t = Inr ((), t)" using un by (simp add: check_config_def bnd_def undisturbed_def t_def)
  have gj: "get_job a t = Inr (j, t)" using j by (simp add: get_job_def t_def)
  have so: "sys_open (data_name (jobid j)) t = Inr (Some content, t)"
    using c by (simp add: sys_open_def bnd_def nc) (simp add: t_def)
  have sj: "fst (send_job E (printer_name t) j content) = Done"
    using send_job_done [OF E(1-3,5,4)] by (simp add: t_def)
  have fj: "finish_job a j Done t = Inr (Printed (jobid j), u\<lparr>jobs := (jobs u)(a := None)\<rparr>)"
    using free_job_run(1) [OF qu na(1)] by (simp add: finish_job_def unlink_def thn_def bnd_def u_def)
  have "printer_turn E s = Inr (Printed (jobid j), u\<lparr>jobs := (jobs u)(a := None)\<rparr>)"
    by (simp add: printer_turn_def bnd_def thn_def tj uj cc gj so nc sj fj)
  then show ?thesis using ij un by (simp add: undisturbed_def u_def t_def)
qed

lemma printed_inv:
  assumes inv: "spool_inv s (a # as)" and run: "printer_turn E s = Inr (Printed i, s')"
  shows "i = fst (item (jobs s) a) \<and> spool_inv s' as \<and> (\<forall>b \<in> set as. item (jobs s') b = item (jobs s) b) \<and>
    map_of (spool s') = (map_of (spool s))(data_name i := None, req_name i := None)"
proof -
  have q: "job_list s (a # as)" using inv by (simp add: spool_inv_def)
  have ef: "turn_effect s a as (Printed i) s'" by (rule printer_turn_effect [OF q run])
  have "spool_inv s' as" using turn_inv [OF inv ef] by simp
  with ef show ?thesis by (auto simp: turn_effect_def Let_def)
qed

lemma drain:
  assumes "spool_inv s as" and "undisturbed s" and "list_all2 (\<lambda>E a. prints E s a) Es as"
  shows "\<exists>s'. printer_turns Es s = Inr (map (\<lambda>a. Printed (fst (item (jobs s) a))) as, s') \<and>
    spool_inv s' [] \<and>
    map_of (spool s') \<subseteq>\<^sub>m map_of (spool s) \<and>
    (\<forall>a \<in> set as. map_of (spool s') (data_name (fst (item (jobs s) a))) = None \<and>
                  map_of (spool s') (req_name (fst (item (jobs s) a))) = None)"
  using assms
proof (induction as arbitrary: Es s)
  case Nil
  then show ?case by simp
next
  case (Cons a as)
  then obtain E Es' where Es: "Es = E # Es'" "prints E s a" "list_all2 (\<lambda>E a. prints E s a) Es' as"
    by (auto simp: list_all2_Cons2)
  let ?i = "fst (item (jobs s) a)"
  obtain t where t: "printer_turn E s = Inr (Printed ?i, t)" "undisturbed t" "printer_name t = printer_name s"
    using printer_turn_done [OF Cons.prems(1,2) Es(2)] by blast
  have p: "spool_inv t as" "\<forall>b \<in> set as. item (jobs t) b = item (jobs s) b"
    "map_of (spool t) = (map_of (spool s))(data_name ?i := None, req_name ?i := None)"
    using printed_inv [OF Cons.prems(1) t(1)] by blast+
  have pos: "0 < sint (fst (item (jobs s) b))" if "b \<in> set (a # as)" for b
    using Cons.prems(1) that by (force simp: spool_inv_def spooled_def)
  have "prints F t b" if "b \<in> set as" "prints F s b" for F b
    using that p(2,3) t(3) by (auto simp: prints_def split: prod.splits option.splits if_splits)
  then have "list_all2 (\<lambda>E a. prints E t a) Es' as"
    using Es(3) by (auto simp: list_all2_conv_all_nth)
  from Cons.IH [OF p(1) t(2) this] obtain s' where
    s': "printer_turns Es' t = Inr (map (\<lambda>a. Printed (fst (item (jobs t) a))) as, s')" "spool_inv s' []"
    "map_of (spool s') \<subseteq>\<^sub>m map_of (spool t)"
    "\<forall>a \<in> set as. map_of (spool s') (data_name (fst (item (jobs t) a))) = None \<and>
                  map_of (spool s') (req_name (fst (item (jobs t) a))) = None" by blast
  have le: "map_of (spool t) \<subseteq>\<^sub>m map_of (spool s)" using p(3) by (auto simp: map_le_def)
  have "map (\<lambda>a. Printed (fst (item (jobs t) a))) as = map (\<lambda>a. Printed (fst (item (jobs s) a))) as"
    using p(2) by simp
  then have run: "printer_turns Es s = Inr (map (\<lambda>a. Printed (fst (item (jobs s) a))) (a # as), s')"
    using t(1) s'(1) Es(1) by (simp add: bnd_def)
  have n: "map_of (spool s') (data_name ?i) = None" "map_of (spool s') (req_name ?i) = None"
    using s'(3) p(3) by (force simp: map_le_def dom_def)+
  show ?case
    using run s'(2,4) n p(2) map_le_trans [OF s'(3) le] by (intro exI [of _ s']) simp
qed

end
