(* ===== verification/Printd_Client.thy ===== *)
theory Printd_Client
  imports Printd_System
begin

text \<open>
  The command and the server together: what \<^verbatim>\<open>submit_file\<close> puts on the connection is
  what \<^verbatim>\<open>client_thread\<close> spools and queues, and the answer reaches the command.
\<close>

section \<open>The request on the connection\<close>

lemma submit_file_sends:
  assumes "steady sock" and "file_data fd = Some content"
    and "wf_req (submit_req req0 pwd fname nbytes text)"
  shows "submit_file req0 pwd fname nbytes text fd sock inp =
    (read_response inp,
     sock\<lparr>sent := sent sock @ req_bytes (submit_req req0 pwd fname nbytes text) @ content\<rparr>)"
  using send_file_steady [OF _ assms(2), of "sock\<lparr>sent := sent sock @ req_bytes (submit_req req0 pwd fname nbytes text)\<rparr>"]
    assms(1)
  by (simp add: submit_file_def writen_steady length_req_bytes [OF assms(3)] steady_def)

lemma lead_bytes: "lead n (map Byte d) = take n d"
  using lead_append [of n d "[]"] by simp

lemma treadn_bytes:
  assumes "ttoks net = map Byte (xs @ ys)" and "length xs = n" and "0 < n"
  shows "\<exists>net'. treadn n net = (Inr n, xs, net') \<and> ttoks net' = map Byte ys"
proof -
  obtain r out net' where run: "treadn n net = (r, out, net')" by (cases "treadn n net")
  have sp: "readn_spec n (ttoks net) = (r, out, ttoks net')"
    using timed.readn_tokens [OF run [unfolded treadn_def]] .
  have "blocked (map Byte (xs @ ys)) = None" by (cases "xs @ ys") auto
  moreover have "lead n (map Byte (xs @ ys)) = xs" using assms(2) by (simp add: lead_bytes del: map_append)
  moreover have "after n (map Byte (xs @ ys)) = map Byte ys"
    using assms(2) calculation(2) by (simp add: after_def Let_def)
  ultimately show ?thesis using run sp assms by (auto simp: readn_spec_def simp del: map_append)
qed

lemma readn_bytes:
  assumes "toks net = map Byte xs" and "length xs = n" and "0 < n"
  shows "\<exists>net'. readn n net = (Inr n, xs, net')"
proof -
  obtain r out net' where run: "readn n net = (r, out, net')" by (cases "readn n net")
  have sp: "readn_spec n (toks net) = (r, out, toks net')"
    using src.readn_tokens [OF run [unfolded readn_def]] .
  have "blocked (map Byte xs) = None" by (cases xs) auto
  then show ?thesis using run sp assms by (auto simp: readn_spec_def lead_bytes)
qed

lemma delivered_bytes: "ttoks net = map Byte ys \<Longrightarrow> delivered net = ys"
  by (simp add: delivered_def lead_bytes)

section \<open>The answer\<close>

lemma wf_acceptance:
  assumes "wf_res res0" and "0 < sint i"
  shows "wf_res (acceptance res0 i)"
proof -
  obtain n where n: "sdec (sint i) = dec n" "length (dec n) \<le> 10" using pos_job [OF assms(2)] by metis
  then show ?thesis using assms(1) by (simp add: wf_res_def acceptance_def strcpy_def overwrite_def)
qed

lemma acceptance_read:
  assumes "wf_res res0" and "0 < sint i" and "toks back = map Byte (res_bytes (acceptance res0 i))"
  shows "read_response back = JobId i"
proof -
  have wf: "wf_res (acceptance res0 i)" using assms by (intro wf_acceptance)
  obtain net' where "readn sizeof_res back = (Inr sizeof_res, res_bytes (acceptance res0 i), net')"
    using readn_bytes [OF assms(3), of sizeof_res] length_res_bytes [OF wf] by (auto simp: sizeof_res_def)
  then show ?thesis
    using bytes_res_res_bytes [OF wf] by (simp add: read_response_def acceptance_def)
qed

lemma htonl_0: "htonl 0 = 0"
  by (simp add: htonl_def le32_def of_le32_def)

text \<open>What the server keeps of a request.\<close>

lemma stored_submit_req:
  assumes "wf_req (submit_req req0 pwd fname nbytes text)"
  shows "stored_req stk (req_bytes (submit_req req0 pwd fname nbytes text)) net =
    (submit_req req0 pwd fname nbytes text)\<lparr>req_size := of_nat nbytes,
       flags := text_flag stk net (if text then PR_TEXT else 0)\<rparr>"
  using bytes_req_req_bytes [OF assms]
  by (simp add: stored_req_def host_order_def submit_req_def Let_def htonl_0)

end
