(* ===== verification/Printd_Properties.thy ===== *)
theory Printd_Properties
  imports Printd_Client
begin

text \<open>
  What the print spooler of \<^verbatim>\<open>apue.3e/printer\<close> promises, and where it breaks its
  promise.
\<close>

section \<open>States for the examples\<close>

definition no_jobs :: lists where
  "no_jobs =
     \<lparr>jobs = (\<lambda>_. None), job_brk = 0, jobhead = None, jobtail = None, printer_waits = False,
      wthreads = (\<lambda>_. None), worker_brk = 0, workers = None, open_socks = [], cancelled = []\<rparr>"

definition booted :: printd where
  "booted =
     \<lparr>jobs = (\<lambda>_. None), job_brk = 0, jobhead = None, jobtail = None, printer_waits = False,
      wthreads = (\<lambda>_. None), worker_brk = 0, workers = None, open_socks = [], cancelled = [],
      nextjob = 1, jobfile = [], spool = [], calls = [], reread = False, printer_name = ''lp''\<rparr>"

definition ps_req :: printreq where
  "ps_req = \<lparr>req_size = 4, flags = 0, usernm = ''ann'' @ replicate 61 NUL, jobnm = ''a.ps'' @ replicate 252 NUL\<rparr>"

definition text_req :: printreq where
  "text_req = \<lparr>req_size = 2, flags = 1, usernm = ''bob'' @ replicate 61 NUL, jobnm = ''b.txt'' @ replicate 251 NUL\<rparr>"

lemma booted_inv: "spool_inv booted []"
  by (simp add: spool_inv_def booted_def job_list_def idle_workers_def)

lemma blank_request:
  "treadn sizeof_req [Data (replicate sizeof_req NUL), Data ''%!PS''] =
     (Inr sizeof_req, replicate sizeof_req NUL, [Data ''%!PS''])"
proof -
  have "tread sizeof_req [Data (replicate sizeof_req NUL), Data ''%!PS''] =
      (Inr (replicate sizeof_req NUL), [Data ''%!PS''])"
    by (simp add: sizeof_req_def tread_def)
  then show ?thesis
    by (simp add: treadn_def readn_loop.simps [of _ sizeof_req]) (simp add: sizeof_req_def)
qed

lemma no_jobs_rep: "q_rep (no_jobs, None) [] None"
  by (simp add: q_rep_def no_jobs_def job_list_def)

section \<open>The queue\<close>

text \<open>
  C21. The doubly linked job list with its head and tail pointers is a queue: every sequence
  of a client's \<^verbatim>\<open>add_job\<close>, the printer thread's taking of the first job, freeing it and
  \<^verbatim>\<open>replace_job\<close> that the queue of pending jobs allows runs on the list without a bad
  pointer, and ends in a well-formed list that stands for the queue's result.
\<close>

theorem print_queue_refines:
  assumes "q_rep s xs c" and "run_ops abs_op ops (xs, c) = Some (ys, d)"
  shows "\<exists>s'. run_ops q_op ops s = Some s' \<and> q_rep s' ys d"
  using assms by (rule jobq.run_law)

theorem print_queue_refines_witness:
  "\<exists>s'. run_ops q_op [Enq (1, ps_req), Enq (2, text_req), Deq, Enq (3, ps_req), Back, Deq, Fin] (no_jobs, None) =
      Some s' \<and> q_rep s' [(2, text_req), (3, ps_req)] None"
  by (rule print_queue_refines [OF no_jobs_rep]) simp



text \<open>
  C23. A printer that can be reached, takes all data and confirms each job gets everything
  printed: with as many turns as there are jobs the printer thread prints all of them, in
  the order of the queue, and ends with an empty queue and their files removed, provided the
  names fit the header buffers and no call of the server fails.
\<close>

theorem printer_drains_queue:
  assumes "spool_inv s as" and "undisturbed s" and "list_all2 (\<lambda>E a. prints E s a) Es as"
  shows "\<exists>s'. printer_turns Es s = Inr (map (\<lambda>a. Printed (fst (item (jobs s) a))) as, s') \<and>
    spool_inv s' [] \<and> map_of (spool s') \<subseteq>\<^sub>m map_of (spool s) \<and>
    (\<forall>a \<in> set as. map_of (spool s') (data_name (fst (item (jobs s) a))) = None \<and>
                  map_of (spool s') (req_name (fst (item (jobs s) a))) = None)"
  using assms by (rule drain)

definition one_job :: printd where
  "one_job = booted\<lparr>jobs := [0 \<mapsto> \<lparr>next_job = None, prev_job = None, jobid = 1, req = ps_req\<rparr>], job_brk := 1,
     jobhead := Some 0, jobtail := Some 0, nextjob := 2,
     spool := [(data_name 1, ''%!PS''), (req_name 1, req_bytes ps_req)]\<rparr>"

definition ok_reply :: "char list" where
  "ok_reply = reply_head ''HTTP/1.1'' ''200'' ''OK'' [] ''Content-Length:'' 8 @ [] @ blank_line @
     [CHR 0x01, CHR 0x01, NUL, NUL, NUL, NUL, NUL, CHR 0x01]"

definition good_printer :: env where
  "good_printer = \<lparr>printaddr = None, printer_link = Some ([Data ok_reply], \<lparr>sent = [], plan = []\<rparr>),
     disk_error = None, fresh_mem = (\<lambda>_. NUL)\<rparr>"

lemma one_job_inv: "spool_inv one_job [0]"
proof -
  have n: "data_name i \<noteq> data_name 1" "req_name i \<noteq> req_name 1" "data_name i \<noteq> req_name 1" "req_name i \<noteq> data_name 1"
    if "2 \<le> sint i" for i
    using that job_names_inj [of i 1] by (auto simp: data_name_def req_name_def in_dir_def DATADIR_def REQDIR_def)
  have "data_name 1 \<noteq> req_name 1" by (simp add: data_name_def req_name_def in_dir_def DATADIR_def REQDIR_def)
  then show ?thesis
    using n by (auto simp: spool_inv_def spooled_def one_job_def booted_def job_list_def idle_workers_def item_def
        wf_req_def ps_req_def)
qed

lemma ok_head: "good_head ''HTTP/1.1'' ''200'' ''OK'' [] ''Content-Length:'' 8"
  by (simp add: good_head_def isdigit_def lower_def)

lemma ok_reply_confirms: "confirms 1 [Data ok_reply]"
proof -
  have l: "length ok_reply \<le> IOBUFSZ"
    by (simp add: ok_reply_def reply_head_def CRLF_def blank_line_def dec.simps [of 8])
  have i: "rev (le32 1) = [NUL, NUL, NUL, CHR 0x01]" by (simp add: le32_def) code_simp
  show ?thesis
    unfolding confirms_def
    by (rule exI [of _ "''HTTP/1.1''"], rule exI [of _ "''200''"], rule exI [of _ "''OK''"], rule exI [of _ "[]"],
        rule exI [of _ "''Content-Length:''"], rule exI [of _ 8], rule exI [of _ "[]"],
        rule exI [of _ "[CHR 0x01, CHR 0x01, NUL, NUL, NUL, NUL, NUL, CHR 0x01]"], rule exI [of _ "[]"])
      (use ok_head l i in \<open>simp add: ok_reply_def\<close>)
qed

theorem printer_drains_queue_witness:
  "\<exists>s'. printer_turns [good_printer] one_job = Inr ([Printed 1], s') \<and> spool_inv s' [] \<and>
    map_of (spool s') (data_name 1) = None"
proof -
  have it: "item (jobs one_job) 0 = (1, ps_req)" by (simp add: item_def one_job_def)
  have u: "undisturbed one_job" by (simp add: undisturbed_def one_job_def booted_def)
  have "fits ''lp'' ps_req ''%!PS''"
    by (simp add: fits_def ps_req_def length_ipp_bytes cstr_def doc_format_def is_text_def)
  then have "prints good_printer one_job 0"
    using ok_reply_confirms it by (simp add: prints_def good_printer_def steady_def one_job_def booted_def)
  then have "list_all2 (\<lambda>E a. prints E one_job a) [good_printer] [0]" by simp
  from printer_drains_queue [OF one_job_inv u this] show ?thesis using it by auto
qed

section \<open>A client\<close>



text \<open>
  C25. From the command to the spool directory and back: if the connection takes everything
  \<^verbatim>\<open>submit_file\<close> writes and the server's calls succeed, the bytes of the file, however
  the network cuts them, become the data file of the next job, the job is queued last with
  the user's name cut to 63 characters and the file name (for a long one its last 251
  characters), and the server's answer, read by \<^verbatim>\<open>submit_file\<close>, is that job's number.
\<close>

theorem submit_reaches_spool:
  assumes sock: "steady sock" "sent sock = []" and req0: "wf_req req0"
    and nm: "\<And>n. pwd = Some n \<Longrightarrow> NUL \<notin> set n" "NUL \<notin> set fname"
    and fl: "file_data fd = Some content"
    and net: "ttoks net = map Byte (sent (snd (submit_file req0 pwd fname nbytes text fd sock [])))"
    and srv: "spool_inv s as" "calls s = []" and res0: "wf_res res0" "steady out" "sent out = []"
  shows "\<exists>s' out' a rq. client_thread strerror stk res0 False False t cfd net out s = Inr ((0, out'), s') \<and>
    map_of (spool s') (data_name (nextjob s)) = Some content \<and>
    job_list s' (as @ [a]) \<and> item (jobs s') a = (nextjob s, rq) \<and>
    req_size rq = of_nat nbytes \<and>
    cstr (usernm rq) = (case pwd of None \<Rightarrow> ''unknown'' | Some n \<Rightarrow> take 63 n) \<and>
    cstr (jobnm rq) = (if length fname < 256 then fname else ''... '' @ drop (length fname - 251) fname) \<and>
    (\<forall>back. toks back = map Byte (sent out') \<longrightarrow>
       fst (submit_file req0 pwd fname nbytes text fd sock back) = JobId (nextjob s))"
proof -
  let ?r = "submit_req req0 pwd fname nbytes text"
  have wf: "wf_req ?r" using wf_submit_req [OF req0 nm] .
  note sub = submit_file_sends [OF sock(1) fl wf]
  have "ttoks net = map Byte (req_bytes ?r @ content)" using net sub sock(2) by simp
  from treadn_bytes [OF this length_req_bytes [OF wf]] obtain net' where
    hdr: "treadn sizeof_req net = (Inr sizeof_req, req_bytes ?r, net')" "ttoks net' = map Byte content"
    by (auto simp: sizeof_req_def)
  have pre: "job_list s as" "idle_workers s" "map_of (spool s) (data_name (nextjob s)) = None"
    "map_of (spool s) (req_name (nextjob s)) = None" "0 < sint (nextjob s)"
    using srv(1) by (auto simp: spool_inv_def)
  let ?rq = "stored_req stk (req_bytes ?r) net'"
  let ?out = "send_response (acceptance res0 (nextjob s)) out"
  obtain s' where run: "client_thread strerror stk res0 False False t cfd net out s = Inr ((0, ?out), s')"
    and acc: "accepts res0 out cfd ?rq content s as (0, ?out) s'"
    using client_thread_run [OF pre(1-4) hdr(1), of strerror stk res0 t cfd out] srv(2) delivered_bytes [OF hdr(2)]
    by (auto simp: accepts_def)
  have "sent ?out = res_bytes (acceptance res0 (nextjob s))"
    using res0(2,3) by (simp add: send_response_def writen_steady)
  then have bk: "\<forall>back. toks back = map Byte (sent ?out) \<longrightarrow>
       fst (submit_file req0 pwd fname nbytes text fd sock back) = JobId (nextjob s)"
    using acceptance_read [OF res0(1) pre(5)] sub by simp
  have rq: "?rq = ?r\<lparr>req_size := of_nat nbytes, flags := text_flag stk net' (if text then PR_TEXT else 0)\<rparr>"
    by (rule stored_submit_req [OF wf])
  have "data_name (nextjob s) \<noteq> req_name (nextjob s)"
    by (simp add: data_name_def req_name_def in_dir_def DATADIR_def REQDIR_def)
  then have flds: "map_of (spool s') (data_name (nextjob s)) = Some content" "job_list s' (as @ [job_brk s])"
    "item (jobs s') (job_brk s) = (nextjob s, ?rq)"
    using acc by (simp_all add: accepts_def)
  have str: "cstr (usernm ?rq) = (case pwd of None \<Rightarrow> ''unknown'' | Some n \<Rightarrow> take 63 n)"
    "cstr (jobnm ?rq) = (if length fname < 256 then fname else ''... '' @ drop (length fname - 251) fname)"
    using submit_user_field [of "usernm req0" pwd] submit_jobnm_field [of "jobnm req0" fname] nm req0
    unfolding rq by (simp_all add: submit_req_def wf_req_def split: option.split)
  show ?thesis
    by (rule exI [of _ s'], rule exI [of _ ?out], rule exI [of _ "job_brk s"], rule exI [of _ ?rq])
      (use run flds str bk rq in simp)
qed

theorem submit_reaches_spool_witness:
  "\<exists>s' out' a rq. client_thread (\<lambda>_. ''error'') [] \<lparr>retcode = 0, res_jobid = 0, msg = replicate 512 NUL\<rparr>
      False False 7 4
      [Data (sent (snd (submit_file ps_req (Some ''eve'') ''notes'' 4 False [Data ''%!PS''] \<lparr>sent = [], plan = []\<rparr> [])))]
      \<lparr>sent = [], plan = []\<rparr> one_job = Inr ((0, out'), s') \<and>
    map_of (spool s') (data_name 2) = Some ''%!PS'' \<and> job_list s' [0, a] \<and> item (jobs s') a = (2, rq) \<and>
    cstr (usernm rq) = ''eve'' \<and> cstr (jobnm rq) = ''notes''"
proof -
  let ?sub = "submit_file ps_req (Some ''eve'') ''notes'' 4 False [Data ''%!PS''] \<lparr>sent = [], plan = []\<rparr> []"
  have w: "steady \<lparr>sent = [], plan = []\<rparr>" "sent \<lparr>sent = [], plan = []\<rparr> = []" "wf_req ps_req"
    "wf_res \<lparr>retcode = 0, res_jobid = 0, msg = replicate 512 NUL\<rparr>" "calls one_job = []" "nextjob one_job = 2"
    by (simp_all add: steady_def wf_req_def wf_res_def ps_req_def one_job_def booted_def)
  have f: "file_data [Data ''%!PS''] = Some ''%!PS''" by simp
  have "wf_req (submit_req ps_req (Some ''eve'') ''notes'' 4 False)" by (rule wf_submit_req [OF w(3)]) auto
  from submit_file_sends [OF w(1) f this]
  have "sent (snd ?sub) \<noteq> []" by simp
  then have net: "ttoks [Data (sent (snd ?sub))] = map Byte (sent (snd ?sub))" by simp
  show ?thesis
    using submit_reaches_spool [OF w(1-3) _ _ f net one_job_inv w(5,4,1,2), of "\<lambda>_. ''error''" "[]" 7 4] w(6)
    by auto
qed

section \<open>Restarts and job numbers\<close>

text \<open>
  C26. After a crash \<^verbatim>\<open>build_qonstart\<close> queues the jobs whose control files are in the
  directory, each with its number and its request, in the order the directory lists them,
  and changes no file.
\<close>

theorem restart_requeues:
  assumes "calls s = []"
    and "\<forall>i \<in> set is. 0 < sint i \<and> wf_req (rq i) \<and> map_of (spool s) (req_name i) = Some (req_bytes (rq i))"
  shows "\<exists>s' as. build_qonstart (Some (''.'' # ''..'' # map (\<lambda>i. sdec (sint i)) is)) (crash s) = Inr ((), s') \<and>
    job_list s' as \<and> map (item (jobs s')) as = map (\<lambda>i. (i, rq i)) is \<and> spool s' = spool s"
  using assms by (rule restart_queue)

lemma digit_char_1: "digit_char (Suc 0) = CHR ''1''"
  by code_simp

theorem restart_requeues_witness:
  "\<exists>s' as. build_qonstart (Some [''.'', ''..'', ''1'']) (crash one_job) = Inr ((), s') \<and>
    job_list s' as \<and> map (item (jobs s')) as = [(1, ps_req)] \<and> spool s' = spool one_job"
proof -
  have c: "calls one_job = []" by (simp add: one_job_def booted_def)
  have "spooled one_job 1 ps_req"
    using one_job_inv by (simp add: spool_inv_def item_def one_job_def)
  then have "\<forall>i \<in> set [1]. 0 < sint i \<and> wf_req ps_req \<and> map_of (spool one_job) (req_name i) = Some (req_bytes ps_req)"
    by (simp add: spooled_def)
  from restart_requeues [OF c this] show ?thesis by (simp add: sdec_def dec.simps [of "Suc 0"] digit_char_1)
qed

text \<open>
  \<^verbatim>\<open>get_newjobno\<close> never gives a non-positive number, and does not repeat one among
  any 2147483647 numbers in a row, across the wrap from 2147483647 to 1.
\<close>

lemma job_numbers_distinct:
  assumes "0 < unat (nextjob s)" and "unat (nextjob s) < 2147483648" and "k \<le> 2147483647"
  shows "\<exists>is s'. newjobnos k s = Inr (is, s') \<and> length is = k \<and> distinct is \<and> (\<forall>i \<in> set is. 0 < sint i)"
proof -
  have "0 < sint (nextjob s)" using assms(1,2) by (simp add: sint_pos_iff)
  then have "0 < sint ((succ_job ^^ j) (nextjob s))" for j
    by (induction j) (simp_all add: succ_job_pos)
  then show ?thesis using newjobnos_run [of k s] distinct_newjobnos [OF assms] by auto
qed

text \<open>
  The number \<^verbatim>\<open>update_jobno\<close> writes is the one \<^verbatim>\<open>init_request\<close> reads at the
  next start, as long as the file held nothing or a smaller number (it is not truncated).
\<close>

lemma job_file_round_trip:
  assumes "calls s = []" and "0 < sint (nextjob s)"
    and "jobfile s = [] \<or> (\<exists>m. jobfile s = dec m \<and> m \<le> unat (nextjob s))"
  shows "\<exists>s'. update_jobno s = Inr ((), s') \<and>
    init_request False stk (crash s') = Inr ((), (crash s')\<lparr>nextjob := nextjob s\<rparr>)"
proof -
  obtain n where n: "nextjob s = of_nat n" "unat (nextjob s) = n" "0 < n" "n < 2147483648"
    using pos_job [OF assms(2)] by metis
  let ?s = "s\<lparr>jobfile := dec (unat (nextjob s))\<rparr>"
  have "init_request False stk (crash ?s) = Inr ((), (crash ?s)\<lparr>nextjob := of_nat n\<rparr>)"
    using n(2-4) assms(1) by (intro init_request_reads) (simp_all add: crash_def)
  then show ?thesis using update_jobno_writes [OF assms] n(1) by auto
qed

text \<open>
  C29. The file is written only when the printer thread takes a job. A server that accepts a
  job while the file holds the number of that job and then stops gives the same number out
  again after the restart, although the job's files are still in the directory.
\<close>

theorem crash_reuses_job_number:
  assumes "spool_inv s as" and "calls s = []" and "jobfile s = dec (unat (nextjob s))"
    and "treadn sizeof_req inp = (Inr sizeof_req, bs, inp')"
  shows "\<exists>r s' s''. client_thread strerror stk res0 False False t fd inp out s = Inr (r, s') \<and> fst r = 0 \<and>
    init_request False stk' (crash (s'\<lparr>calls := []\<rparr>)) = Inr ((), s'') \<and> nextjob s'' = nextjob s \<and>
    map_of (spool s'') (data_name (nextjob s'')) = Some (delivered inp')"
proof -
  have pre: "job_list s as" "idle_workers s" "map_of (spool s) (data_name (nextjob s)) = None"
    "map_of (spool s) (req_name (nextjob s)) = None" "0 < sint (nextjob s)"
    using assms(1) by (auto simp: spool_inv_def)
  obtain r s' where run: "client_thread strerror stk res0 False False t fd inp out s = Inr (r, s')"
    and acc: "accepts res0 out fd (stored_req stk bs inp') (delivered inp') s as r s'" and jf: "jobfile s' = jobfile s"
    using client_thread_run [OF pre(1-4) assms(4), of strerror stk res0 t fd out] assms(2) by auto
  obtain n where n: "nextjob s = of_nat n" "unat (nextjob s) = n" "0 < n" "n < 2147483648"
    using pos_job [OF pre(5)] by metis
  let ?c = "crash (s'\<lparr>calls := []\<rparr>)"
  have ini: "init_request False stk' ?c = Inr ((), ?c\<lparr>nextjob := of_nat n\<rparr>)"
    using n(2-4) assms(3) jf by (intro init_request_reads) (simp_all add: crash_def)
  have "data_name (nextjob s) \<noteq> req_name (nextjob s)"
    by (simp add: data_name_def req_name_def in_dir_def DATADIR_def REQDIR_def)
  then have "fst r = 0" "map_of (spool s') (data_name (nextjob s)) = Some (delivered inp')"
    using acc by (auto simp: accepts_def)
  with run ini n(1) show ?thesis by (auto simp: crash_def)
qed

theorem crash_reuses_job_number_witness:
  "\<exists>r s' s''. client_thread (\<lambda>_. ''error'') [] \<lparr>retcode = 0, res_jobid = 0, msg = replicate 512 NUL\<rparr> False False 7 4
      [Data (replicate sizeof_req NUL), Data ''%!PS''] \<lparr>sent = [], plan = []\<rparr> (booted\<lparr>jobfile := dec 1\<rparr>) = Inr (r, s') \<and>
    init_request False [] (crash (s'\<lparr>calls := []\<rparr>)) = Inr ((), s'') \<and> nextjob s'' = 1 \<and>
    map_of (spool s'') (data_name 1) = Some ''%!PS''"
proof -
  let ?s = "booted\<lparr>jobfile := dec 1\<rparr>"
  have inv: "spool_inv ?s []"
    by (rule spool_inv_same [OF booted_inv]) (simp_all add: booted_def idle_workers_def)
  have b: "calls ?s = []" "jobfile ?s = dec (unat (nextjob ?s))" "nextjob ?s = 1"
    by (simp_all add: booted_def)
  from crash_reuses_job_number [OF inv b(1,2) blank_request, of "\<lambda>_. ''error''" "[]"
      "\<lparr>retcode = 0, res_jobid = 0, msg = replicate 512 NUL\<rparr>" 7 4 "\<lparr>sent = [], plan = []\<rparr>" "[]"] b(3)
    delivered_bytes [of "[Data ''%!PS'']" "''%!PS''"]
  show ?thesis by auto
qed

section \<open>The list of client threads\<close>

text \<open>
  C30. With two clients at a time the list of worker threads is wrong: \<^verbatim>\<open>add_worker\<close>
  links the second in front of the first but leaves the list's head at the first. The
  second is neither cancelled by \<^verbatim>\<open>kill_workers\<close> nor found by \<^verbatim>\<open>client_cleanup\<close>
  (its socket stays open), and when the first one ends, the head still points to its freed
  node, which the next traversal reads.
\<close>

theorem second_client_thread_lost:
  fixes s :: lists
  assumes "idle_workers s" and "u \<noteq> t"
  shows "\<exists>s2. thn (add_worker False t fd) (add_worker False u fe) s = Inr (True, s2) \<and>
    kill_workers s2 = Inr ((), s2\<lparr>cancelled := cancelled s @ [t]\<rparr>) \<and>
    client_cleanup u s2 = Inr ((), s2) \<and>
    (\<exists>s3. client_cleanup t s2 = Inr ((), s3) \<and> workers s3 = Some (worker_brk s) \<and>
       wthreads s3 (worker_brk s) = None \<and> kill_workers s3 = Inl BadPtr)"
proof -
  obtain s3 where "client_cleanup t (two_workers t fd u fe s) = Inr ((), s3)" "workers s3 = Some (worker_brk s)"
    "wthreads s3 (worker_brk s) = None" "kill_workers s3 = Inl BadPtr"
    using first_worker_leaves_dangling by metis
  then show ?thesis
    using second_worker [OF assms(1), of t fd u fe] second_worker_not_killed [of t fd u fe s]
      second_worker_not_cleaned [OF assms(2), of fd fe s]
    by (intro exI [of _ "two_workers t fd u fe s"]) simp
qed

theorem second_client_thread_lost_witness:
  "\<exists>s2. thn (add_worker False 1 5) (add_worker False 2 6) no_jobs = Inr (True, s2) \<and>
    kill_workers s2 = Inr ((), s2\<lparr>cancelled := [1]\<rparr>) \<and> client_cleanup 2 s2 = Inr ((), s2)"
  using second_client_thread_lost [of no_jobs 2 1 5 6] by (auto simp: no_jobs_def idle_workers_def)

section \<open>The printer\<close>

text \<open>
  C31. Of the names in a job the 512-byte header buffer holds 352 bytes together with the
  document format. With terminated names the header is the intended one exactly if they are
  not longer; beyond that the options are written past the end of the buffer, although each
  name is as long as the protocol allows. A printer name of 53 characters or more overruns
  the 64-byte address before.
\<close>

theorem ipp_header_bounds:
  assumes "NUL \<in> set (usernm rq)" and "NUL \<in> set (jobnm rq)"
  shows "ipp_header pn i rq =
    (if 53 \<le> length pn then Inl (Past ''str'')
     else if length pn + length (cstr (usernm rq)) + length (cstr (jobnm rq)) + length (doc_format rq) \<le> 352
     then Inr (ipp_bytes pn i rq) else Inl (Past ''ibuf''))"
  using ipp_header_exact [OF assms, of pn i] ipp_header_long_name [of pn i rq]
  by (auto simp: length_ipp_bytes)

definition long_req :: printreq where
  "long_req = \<lparr>req_size = 4, flags = 0, usernm = replicate 63 CHR ''u'' @ [NUL], jobnm = replicate 255 CHR ''j'' @ [NUL]\<rparr>"

theorem ipp_header_bounds_witness:
  "ipp_header ''lp'' 1 ps_req = Inr (ipp_bytes ''lp'' 1 ps_req) \<and> wf_req long_req \<and>
   ipp_header ''printer.example.org'' 1 long_req = Inl (Past ''ibuf'')"
proof -
  have l: "cstr (usernm long_req) = replicate 63 CHR ''u''" "cstr (jobnm long_req) = replicate 255 CHR ''j''"
    using cstr_terminated [of "replicate 63 CHR ''u''" "[]"] cstr_terminated [of "replicate 255 CHR ''j''" "[]"]
    by (simp_all add: long_req_def)
  have "length (cstr (usernm ps_req)) = 3" "length (cstr (jobnm ps_req)) = 4" "NUL \<in> set (usernm ps_req)"
    "NUL \<in> set (jobnm ps_req)" "doc_format ps_req = ''application/postscript''"
    by (simp_all add: ps_req_def cstr_def doc_format_def is_text_def)
  with ipp_header_bounds [of ps_req "''lp''" 1] have "ipp_header ''lp'' 1 ps_req = Inr (ipp_bytes ''lp'' 1 ps_req)"
    by simp
  moreover have "NUL \<in> set (usernm long_req)" "NUL \<in> set (jobnm long_req)" "wf_req long_req"
    "doc_format long_req = ''application/postscript''"
    by (simp_all add: long_req_def wf_req_def doc_format_def is_text_def)
  ultimately show ?thesis
    using ipp_header_bounds [of long_req "''printer.example.org''" 1] l by simp
qed

text \<open>
  C32. A job that fits, sent to a printer that takes everything and confirms it: the printer
  receives one HTTP request whose length field counts the IPP header, the extra byte
  before plain text and the data, followed by exactly these, and the job counts as done.
\<close>

theorem job_sent_whole:
  assumes "printer_link E = Some (src, w)" and "steady w" and "disk_error E = None"
    and "fits pn (req j) content" and "confirms (jobid j) src"
  shows "send_job E pn j content = (Done, Some (w\<lparr>sent := sent w @ sent_bytes pn (jobid j) (req j) content\<rparr>))"
  using assms by (rule send_job_done)

theorem job_sent_whole_witness:
  "send_job good_printer ''lp'' \<lparr>next_job = None, prev_job = None, jobid = 1, req = ps_req\<rparr> ''%!PS'' =
     (Done, Some \<lparr>sent = sent_bytes ''lp'' 1 ps_req ''%!PS'', plan = []\<rparr>)"
proof -
  have "fits ''lp'' ps_req ''%!PS''"
    by (simp add: fits_def ps_req_def length_ipp_bytes cstr_def doc_format_def is_text_def)
  then show ?thesis
    using job_sent_whole [of good_printer "[Data ok_reply]" "\<lparr>sent = [], plan = []\<rparr>" "''lp''"
        "\<lparr>next_job = None, prev_job = None, jobid = 1, req = ps_req\<rparr>" "''%!PS''"] ok_reply_confirms
    by (simp add: good_printer_def steady_def)
qed

text \<open>
  An answer that arrives in one piece is judged by its contents: after a status line of
  class 200, header lines with a \<^verbatim>\<open>Content-Length\<close> in any case, and the empty line, the
  job is confirmed exactly if the IPP reply carries its number and a status of class 0.
\<close>

lemma whole_reply_judged:
  assumes "good_head ver code reason hd1 cl len"
    and "d = reply_head ver code reason hd1 cl len @ pre @ blank_line @ body" and "length d \<le> bufsz b"
    and "\<And>k. k < length pre \<Longrightarrow> \<not> ends_header (drop k (pre @ blank_line))"
    and "8 \<le> length body" and "len \<le> length body"
  shows "printer_status i b (Data d # src) =
    Some (Inr (of_le32 (rev (take 4 (drop 4 body))) = i \<and> body ! 2 = NUL, src))"
  using assms by (rule whole_reply)

text \<open>
  C34. If the first piece of the same answer ends behind the length but before the empty line,
  \<^verbatim>\<open>printer_status\<close> never returns, whatever the printer sends next: the loop that looks
  for the empty line starts its search from the end of the data again and again.
\<close>

theorem split_reply_hangs:
  assumes "good_head ver code reason hd1 cl len"
    and "d = reply_head ver code reason hd1 cl len @ rest" and "length d \<le> bufsz b"
    and "rest \<noteq> []" and "\<And>k. k < length rest \<Longrightarrow> \<not> ends_header (drop k rest)"
  shows "printer_status i b (Data d # src) = None"
  using assms by (rule split_reply)

theorem split_reply_hangs_witness:
  "printer_status 1 \<lparr>bytes = (\<lambda>_. NUL), bufsz = 8192\<rparr>
     [Data (reply_head ''HTTP/1.1'' ''200'' ''OK'' [] ''Content-Length:'' 8 @ [CHR 0x0A]),
      Data [CHR 0x0D, CHR 0x0A, CHR 0x01, CHR 0x01, NUL, NUL, NUL, NUL, NUL, CHR 0x01]] = None"
  by (rule split_reply_hangs [OF ok_head refl]) (simp_all add: reply_head_def CRLF_def dec.simps [of 8])

text \<open>
  \<^verbatim>\<open>connect_retry\<close> ends: it makes at most eight attempts, sleeps 1, 2, 4 and so on seconds
  between them (never after the last, so at most 127 seconds in all), stops at the first
  attempt that connects or whose socket call fails, and reports success exactly if an
  attempt connected.
\<close>

lemma connect_retry_attempts:
  "\<exists>k \<le> 8. (\<forall>j < k. sock (2 ^ j) \<and> \<not> cn (2 ^ j)) \<and> (k < 8 \<longrightarrow> \<not> sock (2 ^ k) \<or> cn (2 ^ k)) \<and>
     connect_retry sock cn 1 [] = (k < 8 \<and> sock (2 ^ k) \<and> cn (2 ^ k), map ((^) 2) [0..<min k 7]) \<and>
     sum_list (snd (connect_retry sock cn 1 [])) \<le> 127"
proof -
  obtain k where k: "k \<le> 8" "\<forall>j. 0 \<le> j \<and> j < k \<longrightarrow> sock (2 ^ j) \<and> \<not> cn (2 ^ j)"
    "connect_retry sock cn (2 ^ 0) [] = (k < 8 \<and> sock (2 ^ k) \<and> cn (2 ^ k), [] @ map ((^) 2) [0..<min k 7])"
    "k < 8 \<longrightarrow> \<not> sock (2 ^ k) \<or> cn (2 ^ k)"
    using connect_retry_from [of 0 sock cn "[]"] by blast
  have "sum_list (map ((^) 2) [0..<n]) < (2::nat) ^ n" for n
    by (induction n) auto
  then have "sum_list (map ((^) 2) [0..<min k 7]) < (2::nat) ^ min k 7" .
  moreover have "(2::nat) ^ min k 7 \<le> 2 ^ 7" by (rule power_increasing) auto
  ultimately have "sum_list (map ((^) 2) [0..<min k 7]) \<le> (127::nat)" by simp
  with k show ?thesis by (intro exI [of _ k]) simp
qed

end
