(* ===== verification/Iotool.thy ===== *)
theory Iotool
  imports Posix_File "HOL-Library.Word"
begin

text \<open>
  The block device tool \<^verbatim>\<open>iotool_cpp/iotool.c\<close>: the engines that write and read bytes,
  sectors, pages and blocks of one file or device. \<open>off_t\<close>, \<open>size_t\<close> and
  \<open>ssize_t\<close> are 64-bit words with C's conversions; the answers of the system calls and
  of the allocator are a script in the state, and the contents of fresh memory are arbitrary.
  Standard output is part of the state, without the lines on time and speed; standard error
  is not.
\<close>

unbundle bit_operations_syntax

section \<open>Definitions\<close>

type_synonym off = "64 word"

text \<open>What a call answers: all that was asked, at most \<open>k\<close> bytes, or an error number.\<close>

datatype answer = Good | Part nat | Bad int

record io =
  volume :: "char list"
  fd_off :: nat
  out :: string
  answers :: "answer list"
  errno :: int
  fresh :: "nat \<Rightarrow> char"

text \<open>
  How a run ends other than by a return: \<^verbatim>\<open>abort\<close>, an access outside an object, a
  division by zero, an overflow of an \<^verbatim>\<open>int\<close> and a loop that never ends.
\<close>

datatype io_err = Aborts | Outside string | DivByZero | IntOverflow | Forever

type_synonym 'a iom = "(io, io_err, 'a) cm"

abbreviation (input) SECTOR_SIZE :: nat where "SECTOR_SIZE \<equiv> 512"
abbreviation (input) PAGE_SIZE :: nat where "PAGE_SIZE \<equiv> 4096"
abbreviation (input) MAX_BUF_LEN :: nat where "MAX_BUF_LEN \<equiv> 4194304"
abbreviation (input) BLOCK_SIZE_MAX :: nat where "BLOCK_SIZE_MAX \<equiv> 67108864"
abbreviation (input) MAX_STR_IN_SIZE :: nat where "MAX_STR_IN_SIZE \<equiv> 64"

definition EINVAL :: int where "EINVAL = 22"
definition ERANGE :: int where "ERANGE = 34"

definition NL :: char where "NL = CHR 0x0A"

subsection \<open>Printing\<close>

definition say :: "string \<Rightarrow> unit iom" where
  "say t = modify (\<lambda>s. s\<lparr>out := out s @ t\<rparr>)"

text \<open>The conversions \<^verbatim>\<open>%zu\<close>, \<^verbatim>\<open>%zd\<close>, \<^verbatim>\<open>%d\<close> and \<^verbatim>\<open>%0nX\<close>.\<close>

definition zu :: "off \<Rightarrow> string" where
  "zu w = dec (unat w)"

definition zd :: "off \<Rightarrow> string" where
  "zd w = (if sint w < 0 then CHR ''-'' # dec (nat (- sint w)) else dec (nat (sint w)))"

definition hex_char :: "nat \<Rightarrow> char" where
  "hex_char d = (if d < 10 then char_of (48 + d) else char_of (55 + d))"

fun hex :: "nat \<Rightarrow> string" where
  "hex n = (if n < 16 then [hex_char n] else hex (n div 16) @ [hex_char (n mod 16)])"

definition hex_pad :: "nat \<Rightarrow> nat \<Rightarrow> string" where
  "hex_pad w n = replicate (w - length (hex n)) CHR ''0'' @ hex n"

subsection \<open>Strings and numbers\<close>

definition to_lower :: "char \<Rightarrow> nat" where
  "to_lower c = (let n = of_char c in if 65 \<le> n \<and> n \<le> 90 then n + 32 else n)"

text \<open>\<^verbatim>\<open>strncasecmp (a, b, n) == 0\<close>.\<close>

definition ncase_eq :: "string \<Rightarrow> string \<Rightarrow> nat \<Rightarrow> bool" where
  "ncase_eq a b n \<longleftrightarrow> map to_lower (take n (a @ [NUL])) = map to_lower (take n (b @ [NUL]))"

text \<open>
  \<^verbatim>\<open>strtoull\<close> and \<^verbatim>\<open>strtoll\<close> with base 10: whether a number was found, its value as
  an integer after the sign.
\<close>

definition strto :: "string \<Rightarrow> bool \<times> int" where
  "strto v =
     (let t = dropWhile isspace v;
          neg = (t \<noteq> [] \<and> hd t = CHR ''-'');
          u = (if t \<noteq> [] \<and> (hd t = CHR ''-'' \<or> hd t = CHR ''+'') then tl t else t);
          ds = takeWhile isdigit u; n = int (digits_val 0 ds)
      in (ds \<noteq> [], if neg then - n else n))"

definition ULLONG_MAX :: int where "ULLONG_MAX = 2 ^ 64 - 1"

definition strtoull :: "string \<Rightarrow> (off \<times> bool) iom" where
  "strtoull v =
     (case strto v of (found, n) \<Rightarrow>
        if \<bar>n\<bar> > ULLONG_MAX
        then thn (modify (\<lambda>s. s\<lparr>errno := ERANGE\<rparr>)) (ret (word_of_int ULLONG_MAX, found))
        else ret (word_of_int n, found))"

definition strtoll :: "string \<Rightarrow> (off \<times> bool) iom" where
  "strtoll v =
     (case strto v of (found, n) \<Rightarrow>
        if n > LONG_MAX then thn (modify (\<lambda>s. s\<lparr>errno := ERANGE\<rparr>)) (ret (word_of_int LONG_MAX, found))
        else if n < LONG_MIN then thn (modify (\<lambda>s. s\<lparr>errno := ERANGE\<rparr>)) (ret (word_of_int LONG_MIN, found))
        else ret (word_of_int n, found))"

definition mystrtoull :: "string \<Rightarrow> off iom" where
  "mystrtoull v =
     bnd (strtoull v) (\<lambda>(r, found).
     bnd (gets errno) (\<lambda>e.
     if e = ERANGE \<and> (r = word_of_int ULLONG_MAX \<or> r = word_of_int LONG_MIN) \<or> e \<noteq> 0 \<and> r = 0 \<or> \<not> found
     then fail_with Aborts else ret r))"

definition mystrtoll :: "string \<Rightarrow> off iom" where
  "mystrtoll v =
     bnd (strtoll v) (\<lambda>(r, found).
     bnd (gets errno) (\<lambda>e.
     if e = ERANGE \<and> (r = word_of_int LONG_MAX \<or> r = word_of_int LONG_MIN) \<or> e \<noteq> 0 \<and> r = 0 \<or> \<not> found
     then fail_with Aborts else ret r))"

subsection \<open>System calls\<close>

definition next_answer :: "answer iom" where
  "next_answer =
     (\<lambda>s. case answers s of [] \<Rightarrow> Inr (Good, s) | a # as \<Rightarrow> Inr (a, s\<lparr>answers := as\<rparr>))"

text \<open>\<^verbatim>\<open>aligned_alloc\<close>: no memory, or an object of that size.\<close>

definition alloc :: "off \<Rightarrow> char list option iom" where
  "alloc n =
     bnd next_answer (\<lambda>a. case a of
       Bad e \<Rightarrow> ret None
     | _ \<Rightarrow> gets (\<lambda>s. Some (map (fresh s) [0..<unat n])))"

definition fail_call :: "int \<Rightarrow> off iom" where
  "fail_call e = thn (modify (\<lambda>s. s\<lparr>errno := e\<rparr>)) (ret (- 1))"

text \<open>
  \<^verbatim>\<open>pwrite (fd, buf, n, p)\<close>: a negative offset or length is refused; otherwise all or a
  part of the bytes is written at the offset.
\<close>

definition write_at :: "char list \<Rightarrow> nat \<Rightarrow> off iom" where
  "write_at bs p =
     (if bs = [] then ret 0
      else thn (modify (\<lambda>s. s\<lparr>volume := overwrite (volume s) p bs\<rparr>)) (ret (of_nat (length bs))))"

definition pwrite :: "char list \<Rightarrow> off \<Rightarrow> off \<Rightarrow> off iom" where
  "pwrite buf n p =
     (if sint p < 0 \<or> sint n < 0 then fail_call EINVAL
      else if length buf < unat n then fail_with (Outside ''buf'')
      else bnd next_answer (\<lambda>a. case a of
        Bad e \<Rightarrow> fail_call e
      | Part k \<Rightarrow> write_at (take k (take (unat n) buf)) (unat p)
      | Good \<Rightarrow> write_at (take (unat n) buf) (unat p)))"

text \<open>\<^verbatim>\<open>pread\<close> into a buffer: the result and the buffer.\<close>

definition pread :: "char list \<Rightarrow> off \<Rightarrow> off \<Rightarrow> (off \<times> char list) iom" where
  "pread buf n p =
     (if sint p < 0 \<or> sint n < 0 then bnd (fail_call EINVAL) (\<lambda>r. ret (r, buf))
      else bnd next_answer (\<lambda>a. case a of
        Bad e \<Rightarrow> bnd (fail_call e) (\<lambda>r. ret (r, buf))
      | _ \<Rightarrow>
        bnd (gets (\<lambda>s. slice_at (unat p) (case a of Part k \<Rightarrow> min k (unat n) | _ \<Rightarrow> unat n) (volume s))) (\<lambda>d.
        if length buf < length d then fail_with (Outside ''buf'')
        else ret (of_nat (length d), overwrite buf 0 d))))"

subsection \<open>Opening\<close>

definition O_RDWR :: "32 word" where "O_RDWR = 0x2"
definition O_CREAT :: "32 word" where "O_CREAT = 0x40"
definition O_DSYNC :: "32 word" where "O_DSYNC = 0x1000"
definition O_DIRECT :: "32 word" where "O_DIRECT = 0x4000"
definition O_SYNC :: "32 word" where "O_SYNC = 0x101000"

definition open_flag_array :: "(string \<times> string \<times> 32 word) list" where
  "open_flag_array =
     [(''direct'', ''d'', O_RDWR OR O_DIRECT OR O_CREAT),
      (''sync'', ''s'', O_RDWR OR O_SYNC OR O_CREAT OR O_DSYNC),
      (''buffer'', ''b'', O_RDWR OR O_CREAT)]"

fun find_flags :: "string \<Rightarrow> (string \<times> string \<times> 32 word) list \<Rightarrow> 32 word" where
  "find_flags cmd_opt [] = 0"
| "find_flags cmd_opt ((long, short, flags) # items) =
     (if ncase_eq cmd_opt long (length long) \<or> ncase_eq cmd_opt short (length short) then flags
      else find_flags cmd_opt items)"

text \<open>The descriptor, or \<open>-1\<close>; which number a descriptor gets does not matter.\<close>

definition do_open :: "string \<Rightarrow> int iom" where
  "do_open cmd_opt =
     (if find_flags cmd_opt open_flag_array = 0 then ret (-1)
      else bnd next_answer (\<lambda>a. case a of
        Bad e \<Rightarrow> thn (modify (\<lambda>s. s\<lparr>errno := e\<rparr>)) (ret (-1))
      | _ \<Rightarrow> thn (modify (\<lambda>s. s\<lparr>fd_off := 0\<rparr>)) (ret 3)))"

subsection \<open>Writing\<close>

text \<open>
  The loop that fills a buffer with copies of a string. \<^verbatim>\<open>strcpy\<close> also writes the null
  byte. An empty string makes no progress.
\<close>

lemma length_fill: "p + length bs \<le> length buf \<Longrightarrow> length (overwrite buf p bs) = length buf"
  by (simp add: overwrite_inside)

function fill_str :: "string \<Rightarrow> nat \<Rightarrow> char list \<Rightarrow> io_err + char list" where
  "fill_str str p buf =
     (if p + length str \<le> length buf then
        if length buf < p + length str + 1 then Inl (Outside ''buf'')
        else if str = [] then Inl Forever
        else fill_str str (p + length str) (overwrite buf p (str @ [NUL]))
      else Inr buf)"
  by pat_completeness auto
termination
  by (relation "measure (\<lambda>(str, p, buf). length buf + 1 - p)") (auto simp: length_fill simp flip: length_greater_0_conv)

text \<open>The loop that writes the data; it differs between the engines in the length of a call.\<close>

definition bytes_chunk :: "off \<Rightarrow> off \<Rightarrow> off \<Rightarrow> off \<Rightarrow> off" where
  "bytes_chunk data_len byte_off buf_len wr_offset =
     (if data_len + byte_off - wr_offset > buf_len then buf_len else data_len + byte_off - wr_offset)"

definition sects_chunk :: "off \<Rightarrow> off \<Rightarrow> off \<Rightarrow> off \<Rightarrow> off" where
  "sects_chunk data_len sect_off buf_len wr_offset =
     (if data_len - wr_offset > buf_len then buf_len else data_len + sect_off * 512 - wr_offset)"

definition wrote_msg :: "off \<Rightarrow> off \<Rightarrow> string" where
  "wrote_msg wr_offset len = ''successfully pwrite(), offset:'' @ zd wr_offset @ '', size:'' @ zd len @ [NL]"

lemma sint64:
  "sint (w :: off) = (if unat w < 9223372036854775808 then int (unat w) else int (unat w) - 18446744073709551616)"
proof -
  have u: "0 \<le> uint w" "uint w < 2 * 9223372036854775808"
    using unsigned_less [of w, where ?'a = int] by simp_all
  have "sint w = (uint w + 9223372036854775808) mod (2 * 9223372036854775808) - 9223372036854775808"
    by (simp add: sint_uint signed_take_bit_eq_take_bit_shift take_bit_eq_mod)
  then have s: "sint w = (if uint w < 9223372036854775808 then uint w else uint w - 18446744073709551616)"
    using shift_mod [OF u] by simp
  obtain n where n: "uint w = int n" "unat w = n"
    using u(1) nonneg_int_cases [of "uint w"] by (metis nat_uint_eq nat_int)
  show ?thesis unfolding s n by simp
qed

lemma unat_off: "unat (w :: off) < 18446744073709551616"
  using unsigned_less [of w, where ?'a = nat] by simp

lemma sint_neg_iff: "sint (w :: off) < 0 \<longleftrightarrow> 9223372036854775808 \<le> unat w"
proof -
  obtain n where n: "unat w = n" "n < 18446744073709551616" using unat_off by blast
  then show ?thesis by (auto simp: sint64)
qed

lemma pwrite_progress:
  assumes "pwrite buf n p s = Inr (r, s')" and "\<not> sint r < 0"
  shows "length (answers s') < length (answers s) \<or>
    answers s = [] \<and> answers s' = [] \<and> r = n \<and> \<not> sint p < 0 \<and> \<not> sint n < 0"
  using assms
  by (auto simp: pwrite_def fail_call_def write_at_def next_answer_def bnd_def thn_def unsigned_eq_0_iff
      split: if_splits list.splits answer.splits)

function wr_loop :: "(off \<Rightarrow> off) \<Rightarrow> off \<Rightarrow> char list \<Rightarrow> off \<Rightarrow> int iom" where
  "wr_loop chunk stop buf wr_offset s =
     (if wr_offset < stop then
        case pwrite buf (chunk wr_offset) wr_offset s of
          Inl e \<Rightarrow> Inl e
        | Inr (wr_bytes, s') \<Rightarrow>
            if sint wr_bytes < 0 then Inr (-1, s')
            else if wr_bytes = 0 \<and> answers s = [] then Inl Forever
            else wr_loop chunk stop buf (wr_offset + wr_bytes)
                   (s'\<lparr>out := out s' @ wrote_msg wr_offset (chunk wr_offset)\<rparr>)
      else Inr (0, s))"
  by pat_completeness auto
termination
proof (relation "inv_image (less_than <*lex*> less_than)
    (\<lambda>(chunk, stop, buf, p, s). (length (answers s), 18446744073709551616 - unat p))", goal_cases)
  case (2 chunk stop buf p s b r s')
  then have "pwrite buf (chunk p) p s = Inr (r, s')" and r: "\<not> sint r < 0" "r \<noteq> 0 \<or> answers s \<noteq> []"
    by auto
  from pwrite_progress [OF this(1) r(1)] show ?case
  proof
    assume a: "answers s = [] \<and> answers s' = [] \<and> r = chunk p \<and> \<not> sint p < 0 \<and> \<not> sint (chunk p) < 0"
    then have "unat r \<noteq> 0" using r(2) by (simp add: unsigned_eq_0_iff)
    moreover have "unat p < 9223372036854775808" "unat r < 9223372036854775808" using a by (auto simp: sint_neg_iff)
    ultimately have "18446744073709551616 - unat (p + r) < 18446744073709551616 - unat p"
      by (simp add: unat_word_ariths)
    with a show ?thesis by simp
  qed simp
qed auto

declare wr_loop.simps [simp del]

subsubsection \<open>The engines that write bytes and sectors\<close>

definition sizes_msg :: "off \<Rightarrow> off \<Rightarrow> string" where
  "sizes_msg data_len buf_len =
     ''data_len: '' @ zu data_len @ '' bytes, buf_len: '' @ zu buf_len @ '' bytes''"

definition max_buf :: "off \<Rightarrow> off" where
  "max_buf data_len = (if data_len > of_nat MAX_BUF_LEN then of_nat MAX_BUF_LEN else data_len)"

text \<open>After the loop: the closing line, unless it failed.\<close>

definition wr_finish :: "string \<Rightarrow> int \<Rightarrow> int iom" where
  "wr_finish msg r = (if r < 0 then ret (-1) else thn (say msg) (ret 0))"

definition lift_io :: "io_err + 'a \<Rightarrow> 'a iom" where
  "lift_io x = (case x of Inl e \<Rightarrow> fail_with e | Inr y \<Rightarrow> ret y)"

definition bytes_done :: "off \<Rightarrow> off \<Rightarrow> string" where
  "bytes_done byte_off byte_cnt =
     [NL] @ ''Write Done from '' @ zd byte_off @ '' byte, total '' @ zu byte_cnt @ '' bytess !'' @ [NL]"

definition sects_done :: "off \<Rightarrow> off \<Rightarrow> string" where
  "sects_done sect_off sect_cnt =
     [NL] @ ''Write Done from '' @ zd sect_off @ '' sector, total '' @ zu sect_cnt @ '' sectors !'' @ [NL]"

definition do_wr_bytes_str_fd :: "off \<Rightarrow> off \<Rightarrow> string \<Rightarrow> int iom" where
  "do_wr_bytes_str_fd byte_off byte_cnt str =
     (let data_len = byte_cnt; buf_len = max_buf data_len
      in bnd (alloc buf_len) (\<lambda>m. case m of
           None \<Rightarrow> ret (-1)
         | Some buf0 \<Rightarrow>
             thn (say (sizes_msg data_len buf_len @ [NL])) (
             bnd (lift_io (fill_str str 0 buf0)) (\<lambda>buf.
             bnd (wr_loop (bytes_chunk data_len byte_off buf_len) (data_len + byte_off) buf byte_off) (\<lambda>r.
             wr_finish (bytes_done byte_off byte_cnt) r)))))"

definition do_wr_bytes_char_fd :: "off \<Rightarrow> off \<Rightarrow> char \<Rightarrow> int iom" where
  "do_wr_bytes_char_fd byte_off byte_cnt c =
     (let data_len = byte_cnt; buf_len = max_buf data_len
      in bnd (alloc buf_len) (\<lambda>m. case m of
           None \<Rightarrow> ret (-1)
         | Some buf0 \<Rightarrow>
             thn (say (sizes_msg data_len buf_len @ [NL])) (
             let buf = replicate (length buf0) c
             in bnd (wr_loop (bytes_chunk data_len byte_off buf_len) (data_len + byte_off) buf byte_off) (\<lambda>r.
                wr_finish (bytes_done byte_off byte_cnt) r))))"

definition do_wr_sects_char_fd :: "off \<Rightarrow> off \<Rightarrow> char \<Rightarrow> int iom" where
  "do_wr_sects_char_fd sect_off sect_cnt c =
     (let data_len = 512 * sect_cnt; buf_len = max_buf data_len
      in bnd (alloc buf_len) (\<lambda>m. case m of
           None \<Rightarrow> ret (-1)
         | Some buf0 \<Rightarrow>
             thn (say (sizes_msg data_len buf_len @ [NL])) (
             let buf = replicate (length buf0) c
             in bnd (wr_loop (sects_chunk data_len sect_off buf_len) (data_len + sect_off * 512) buf (sect_off * 512))
                (\<lambda>r. wr_finish (sects_done sect_off sect_cnt) r))))"

definition do_wr_sects_str_fd :: "off \<Rightarrow> off \<Rightarrow> string \<Rightarrow> int iom" where
  "do_wr_sects_str_fd sect_off sect_cnt str =
     (let data_len = 512 * sect_cnt; buf_len = max_buf data_len
      in bnd (alloc buf_len) (\<lambda>m. case m of
           None \<Rightarrow> ret (-1)
         | Some buf0 \<Rightarrow>
             thn (say (sizes_msg data_len buf_len @ '', to_write_str: '' @ str @ [NL])) (
             bnd (lift_io (fill_str str 0 buf0)) (\<lambda>buf.
             bnd (wr_loop (sects_chunk data_len sect_off buf_len) (data_len + sect_off * 512) buf (sect_off * 512))
                (\<lambda>r. wr_finish (sects_done sect_off sect_cnt) r)))))"

text \<open>
  The engines proper. They end without a \<^verbatim>\<open>return\<close>: \<open>None\<close> is the value of such a
  call. \<open>argv ! 3\<close> is the name of the volume.
\<close>

type_synonym engine = "string list \<Rightarrow> int option iom"

definition with_fd :: "string list \<Rightarrow> 'a iom \<Rightarrow> int option iom" where
  "with_fd argv body =
     bnd (do_open (argv ! 1)) (\<lambda>fd.
     if fd < 0 then ret (Some (-1)) else thn body (ret None))"

text \<open>The first character of an argument; an empty one has its null byte there.\<close>

definition first_char :: "string \<Rightarrow> char" where
  "first_char a = hd (a @ [NUL])"

definition do_wr_bytes_str :: engine where
  "do_wr_bytes_str argv =
     (if length argv < 7 then ret (Some (-1))
      else bnd (mystrtoull (argv ! 5)) (\<lambda>sect_cnt. bnd (mystrtoll (argv ! 4)) (\<lambda>sect_off.
        with_fd argv (do_wr_bytes_str_fd sect_off sect_cnt (argv ! 6)))))"

definition do_wr_bytes_char :: engine where
  "do_wr_bytes_char argv =
     (if length argv < 7 then ret (Some (-1))
      else bnd (mystrtoull (argv ! 5)) (\<lambda>byte_cnt. bnd (mystrtoll (argv ! 4)) (\<lambda>byte_off.
        with_fd argv (do_wr_bytes_char_fd byte_off byte_cnt (first_char (argv ! 6))))))"

definition do_wr_sects_char :: engine where
  "do_wr_sects_char argv =
     (if length argv < 7 then ret (Some (-1))
      else bnd (mystrtoull (argv ! 5)) (\<lambda>sect_cnt. bnd (mystrtoll (argv ! 4)) (\<lambda>sect_off.
        with_fd argv (do_wr_sects_char_fd sect_off sect_cnt (first_char (argv ! 6))))))"

definition do_wr_sects_str :: engine where
  "do_wr_sects_str argv =
     (if length argv < 7 then ret (Some (-1))
      else bnd (mystrtoull (argv ! 5)) (\<lambda>sect_cnt. bnd (mystrtoll (argv ! 4)) (\<lambda>sect_off.
        with_fd argv (do_wr_sects_str_fd sect_off sect_cnt (argv ! 6)))))"

end
