(* ===== verification/Iotool_Read.thy ===== *)
theory Iotool_Read
  imports Iotool
begin

text \<open>
  The reading engines of \<^verbatim>\<open>iotool.c\<close>, the block engines \<^verbatim>\<open>W\<close> and \<^verbatim>\<open>R\<close> with
  their options, and \<^verbatim>\<open>main\<close>. \<^verbatim>\<open>getopt_long_only\<close> is a parameter: it gives the
  options it found in \<open>argv\<close> from the fourth argument on, and what is left from
  \<^verbatim>\<open>optind\<close> on.
\<close>

section \<open>Definitions\<close>

subsection \<open>The dump of a sector\<close>

definition isprint :: "char \<Rightarrow> bool" where
  "isprint c \<longleftrightarrow> 32 \<le> (of_char c :: nat) \<and> (of_char c :: nat) \<le> 126"

definition dump_char :: "char \<Rightarrow> char" where
  "dump_char c =
     (if isprint c \<and> c \<noteq> CHR 0x0D \<and> c \<noteq> CHR 0x0A then c else if c \<noteq> NUL then CHR ''*'' else CHR ''.'')"

text \<open>What one turn of the loop prints, for the byte \<open>i\<close>; the text column follows the 32nd byte.\<close>

definition dump_text :: "char list \<Rightarrow> nat \<Rightarrow> string" where
  "dump_text data k =
     dump_char (data ! k) # (if (k + 1) mod 16 = 0 then '' '' else []) @ (if (k + 1) mod 32 = 0 then [NL] else [])"

definition dump_byte :: "char list \<Rightarrow> 32 word \<Rightarrow> nat \<Rightarrow> string" where
  "dump_byte data offset i =
     (if i mod 512 = 0 then ''sector:'' @ dec (unat offset div 512 + i div 512) @ [NL] else []) @
     (if i mod 32 = 0
      then if i mod 64 = 0 then ''0x'' @ hex_pad 4 i @ ''   '' else ''0x'' @ hex_pad 4 i @ ''*  ''
      else []) @
     hex_pad 2 (of_char (data ! i)) @
     (if (i + 1) mod 2 = 0
      then if (i + 1) mod 8 = 0 then ''  '' else if (i + 1) mod 4 = 0 then '' '' else ''-''
      else []) @
     (if (i + 1) mod 32 = 0 then ''  '' else []) @
     (if (i + 1) mod 32 = 0 \<and> 0 < i then concat (map (dump_text data) [i + 1 - 32..<i + 1]) else [])"

definition dump_head :: string where
  "dump_head =
     replicate 91 CHR ''-'' @ ''    '' @ replicate 16 CHR ''-'' @ '' '' @ replicate 16 CHR ''-'' @ [NL] @
     ''Address  0 1  2 3  4 5  6 7   8 9  A B  C D  E F   0 1  2 3  4 5  6 7   8 9  A B  C D  E F     '' @
     ''0123456789ABCDEF 0123456789ABCDEF'' @ [NL]"

definition prt_sect_data :: "char list \<Rightarrow> nat \<Rightarrow> 32 word \<Rightarrow> unit iom" where
  "prt_sect_data data data_len offset =
     (if length data < data_len then fail_with (Outside ''data'')
      else say (dump_head @ concat (map (dump_byte data offset) [0..<data_len]) @ [NL]))"

subsection \<open>Sectors, pages and bytes\<close>

text \<open>\<^verbatim>\<open>%s\<close> of a buffer: the characters before the first null byte.\<close>

definition buf_str :: "string \<Rightarrow> char list \<Rightarrow> string iom" where
  "buf_str what b = (if NUL \<in> set b then ret (cstr b) else fail_with (Outside what))"

fun read_sects_loop :: "off \<Rightarrow> off \<Rightarrow> nat \<Rightarrow> char list \<Rightarrow> int iom" where
  "read_sects_loop sect_off i 0 buf = ret 0"
| "read_sects_loop sect_off i (Suc n) buf =
     bnd (pread buf 512 ((sect_off + i) * 512)) (\<lambda>(do_bytes, buf).
     if sint do_bytes < 0 then ret (-1)
     else let buf' = (if sint do_bytes < 512 then buf[unat do_bytes := NUL] else buf[80 := NUL])
          in bnd (buf_str ''buf'' buf') (\<lambda>t.
             thn (say (''sect'' @ zd (sect_off + i) @ '':['' @ t @ '']'' @ [NL])) (
             read_sects_loop sect_off (i + 1) n buf')))"

definition do_read_sects_fd :: "off \<Rightarrow> off \<Rightarrow> int iom" where
  "do_read_sects_fd sect_off sect_cnt =
     bnd (alloc 512) (\<lambda>m. case m of
       None \<Rightarrow> ret (-1)
     | Some buf \<Rightarrow> read_sects_loop sect_off 0 (unat sect_cnt) buf)"

definition do_read_sects :: engine where
  "do_read_sects argv =
     (if length argv < 6 then ret (Some (-1))
      else bnd (mystrtoll (argv ! 4)) (\<lambda>sect_off. bnd (mystrtoull (argv ! 5)) (\<lambda>sect_cnt.
        with_fd argv (do_read_sects_fd sect_off sect_cnt))))"

definition do_read_one_sect_fd :: "off \<Rightarrow> int iom" where
  "do_read_one_sect_fd sect_off =
     bnd (alloc 512) (\<lambda>m. case m of
       None \<Rightarrow> ret (-1)
     | Some buf \<Rightarrow>
         bnd (pread buf 512 (sect_off * 512)) (\<lambda>(do_bytes, buf).
         if sint do_bytes < 0 then ret (-1)
         else thn (prt_sect_data buf SECTOR_SIZE (ucast (sect_off * 512))) (ret 0)))"

definition do_read_one_sect :: engine where
  "do_read_one_sect argv =
     (if length argv < 5 then ret (Some (-1))
      else bnd (mystrtoll (argv ! 4)) (\<lambda>sect_off. with_fd argv (do_read_one_sect_fd sect_off)))"

text \<open>\<^verbatim>\<open>lseek\<close> to an absolute offset and \<^verbatim>\<open>read\<close> from there.\<close>

definition seek_to :: "off \<Rightarrow> off iom" where
  "seek_to p =
     (if sint p < 0 then fail_call EINVAL
      else bnd next_answer (\<lambda>a. case a of
        Bad e \<Rightarrow> fail_call e
      | _ \<Rightarrow> thn (modify (\<lambda>s. s\<lparr>fd_off := unat p\<rparr>)) (ret p)))"

definition read_here :: "char list \<Rightarrow> off \<Rightarrow> (off \<times> char list) iom" where
  "read_here buf n =
     bnd (gets fd_off) (\<lambda>p.
     bnd (pread buf n (of_nat p)) (\<lambda>(r, buf).
     thn (modify (\<lambda>s. s\<lparr>fd_off := (if sint r < 0 then p else p + unat r)\<rparr>)) (ret (r, buf))))"

fun print_sectors :: "char list \<Rightarrow> 32 word \<Rightarrow> nat \<Rightarrow> nat \<Rightarrow> unit iom" where
  "print_sectors buf offset i 0 = ret ()"
| "print_sectors buf offset i (Suc n) =
     thn (say (''Printing Sector:'' @ dec i @ [NL])) (
     thn (prt_sect_data (drop (i * SECTOR_SIZE) buf) SECTOR_SIZE offset) (
     print_sectors buf offset (Suc i) n))"

definition do_read_one_page_fd :: "off \<Rightarrow> int iom" where
  "do_read_one_page_fd page_off =
     bnd (alloc 4096) (\<lambda>m. case m of
       None \<Rightarrow> ret (-1)
     | Some buf \<Rightarrow>
         bnd (seek_to (page_off * 4096)) (\<lambda>pos.
         if sint pos < 0 then ret (-1)
         else bnd (read_here buf 4096) (\<lambda>(do_bytes, buf).
           if sint do_bytes < 0 then ret (-1)
           else thn (print_sectors buf (ucast (page_off * 4096)) 0 (PAGE_SIZE div SECTOR_SIZE)) (ret 0))))"

definition do_read_one_page :: engine where
  "do_read_one_page argv =
     (if length argv < 5 then ret (Some (-1))
      else bnd (mystrtoll (argv ! 4)) (\<lambda>page_off. with_fd argv (do_read_one_page_fd page_off)))"

text \<open>The counter is an \<^verbatim>\<open>int\<close>.\<close>

definition count_up :: "nat \<Rightarrow> unit iom" where
  "count_up i = require (i < 2147483647) IntOverflow"

fun read_pages_loop :: "off \<Rightarrow> nat \<Rightarrow> nat \<Rightarrow> unit iom" where
  "read_pages_loop page_off i 0 = ret ()"
| "read_pages_loop page_off i (Suc n) =
     thn (say (''Printing page:'' @ dec i @ [NL])) (
     thn (do_read_one_page_fd (page_off + of_nat i)) (
     thn (say [NL, NL]) (
     thn (count_up i) (
     read_pages_loop page_off (Suc i) n))))"

definition do_read_pages :: engine where
  "do_read_pages argv =
     (if length argv < 6 then ret (Some (-1))
      else bnd (mystrtoll (argv ! 4)) (\<lambda>page_off. bnd (mystrtoll (argv ! 5)) (\<lambda>page_cnt.
        with_fd argv (read_pages_loop page_off 0 (nat (sint page_cnt))))))"

definition do_read_bytes_fd :: "off \<Rightarrow> off \<Rightarrow> int iom" where
  "do_read_bytes_fd byte_off byte_cnt =
     bnd (alloc byte_cnt) (\<lambda>m. case m of
       None \<Rightarrow> ret (-1)
     | Some buf \<Rightarrow>
         bnd (pread buf byte_cnt byte_off) (\<lambda>(do_bytes, buf).
         if sint do_bytes < 0 then ret (-1)
         else if do_bytes = 0 then fail_with (Outside ''buf'')
         else bnd (buf_str ''buf'' (buf[unat do_bytes - 1 := NUL])) (\<lambda>t.
           thn (say (''data off:'' @ zd byte_off @ '', len:'' @ zu byte_cnt @ '':['' @ t @ '']'' @ [NL])) (ret 0))))"

definition do_read_bytes :: engine where
  "do_read_bytes argv =
     (if length argv < 6 then ret (Some (-1))
      else bnd (mystrtoll (argv ! 4)) (\<lambda>byte_off. bnd (mystrtoull (argv ! 5)) (\<lambda>byte_cnt.
        with_fd argv (do_read_bytes_fd byte_off byte_cnt))))"

subsection \<open>The block engines\<close>

record Args =
  bs :: off
  offset :: off
  counts :: off
  dev_path :: "char list"
  in_str :: "char list"

definition help_msg :: string where
  "help_msg = concat (map (\<lambda>l. l @ [NL])
     [''usage: iotool {open_flag} {io_engine} {options}'', [], ''open_flag:'',
      ''  direct        : open file with DIRECT IO Flags'',
      ''  sync          : open file with SYNC IO Flags'',
      ''  buffer        : open file with normal buffered IO Flags'', [], ''io_engine:'',
      ''  wrsectschar   : write N sectors with a char'',
      ''  wrsectsstr    : write N sectors with a string'',
      ''  wrbytesstr    : write N bytes with a string'',
      ''  wrbyteschar   : write N bytes with a char'',
      ''  rdsects       : read N sectors'', ''  rdbytes       : read N sectors'',
      ''  rdonesect     : read only 1 sector'', ''  rdonepage     : read only 1 page'',
      ''  rdpages     : read only n pages'',
      ''  aiowrbytesstr : libaio io_submit() multiple iocb'', ''general io_engine options:'',
      ''  io_engine {volume} offset size str|char'', ''aiowrbytesstr io_engine options:'',
      ''  io_engine {volume} offset size offset size ... offset size str|char'', [], ''examples:'',
      ''  wrsectschar /dev/sdb 0 8 R'', ''  wrsectsstr /dev/sdb 0 8 Hello'',
      ''  wrbytesstr /dev/sdb 0 34 Hello'', ''  wrbyteschar /dev/sdb 0 34 R'',
      ''  rdsects /dev/sdb 0 8'', ''  rdbytes /dev/sdb 0 97'', ''  rdonesect /dev/sdb 16'',
      ''  rdonepage /dev/sdb 16'', ''  rdpages   /dev/sdb 0 4'',
      ''  aiowrbytesstr /dev/sdb 0 8 $[512*1024] 8 WWWW'', [], ''easy io_engine:'',
      '' D W [DEV_PATH/FileName] [-bs Byte/Default 512Byte] [offset] [counts] [Str/0XFFFF]'',
      '' D R [DEV_PATH/FileName] [-bs Byte/Default 512Byte] [offset] [counts] print'', []])"

definition print_help :: "unit iom" where
  "print_help = say help_msg"

text \<open>An option as \<^verbatim>\<open>getopt_long_only\<close> returns it, with its argument.\<close>

type_synonym getopt = "string list \<Rightarrow> (char \<times> string option) list \<times> string list"

fun parse_opts :: "bool \<Rightarrow> (char \<times> string option) list \<Rightarrow> off \<Rightarrow> off option iom" where
  "parse_opts direct [] b = ret (Some b)"
| "parse_opts direct ((opt, optarg) # opts) b =
     (if opt = CHR ''b'' then
        case optarg of
          None \<Rightarrow> parse_opts direct opts b
        | Some a \<Rightarrow>
            bnd (mystrtoull a) (\<lambda>v.
            if v > of_nat BLOCK_SIZE_MAX then ret None
            else if v mod 512 \<noteq> 0 \<and> direct then ret None
            else parse_opts direct opts v)
      else if opt = CHR ''h'' then thn print_help (parse_opts direct opts b)
      else parse_opts direct opts b)"

definition str_eq_case :: "string \<Rightarrow> string \<Rightarrow> bool" where
  "str_eq_case a b \<longleftrightarrow> map to_lower a = map to_lower b"

definition strncpy0 :: "string \<Rightarrow> nat \<Rightarrow> char list" where
  "strncpy0 s n = take n (s @ replicate n NUL)"

text \<open>\<^verbatim>\<open>CheckArgs\<close>: \<open>Inl\<close> is the result 1, \<open>Inr\<close> the filled structure.\<close>

definition CheckArgs :: "getopt \<Rightarrow> string list \<Rightarrow> nat \<Rightarrow> (unit + Args) iom" where
  "CheckArgs getopt argv required_arg_num =
     (let direct = str_eq_case (argv ! 1) ''d'' \<or> str_eq_case (argv ! 1) ''direct''
      in if length argv < 5 then thn (say (''Wrong Argment input.'' @ [NL])) (thn print_help (ret (Inl ())))
      else case getopt argv of (opts, rest) \<Rightarrow>
        bnd (parse_opts direct opts 512) (\<lambda>b. case b of
          None \<Rightarrow> ret (Inl ())
        | Some b \<Rightarrow>
            if length rest < required_arg_num
            then thn (say (''Not enough Arguments.'' @ [NL])) (thn print_help (ret (Inl ())))
            else bnd (mystrtoll (rest ! 0)) (\<lambda>o'. bnd (mystrtoull (rest ! 1)) (\<lambda>c.
              let in0 = replicate MAX_STR_IN_SIZE NUL
              in if length (cstr in0) > MAX_STR_IN_SIZE then ret (Inl ())
                 else ret (Inr \<lparr>bs = b, offset = o', counts = c, dev_path = strncpy0 (argv ! 3) 64,
                                in_str = strncpy0 (rest ! 2) MAX_STR_IN_SIZE\<rparr>)))))"

definition args_msg :: "string \<Rightarrow> string \<Rightarrow> Args \<Rightarrow> unit iom" where
  "args_msg unit1 unit2 args =
     bnd (buf_str ''dev_path'' (dev_path args @ in_str args)) (\<lambda>d.
     bnd (buf_str ''in'' (in_str args)) (\<lambda>t.
     say (''* DEV_PATH='' @ d @ '', bs='' @ zd (bs args) @ unit1 @ '', offset='' @ zd (offset args) @
          ''sectors, counts='' @ zd (counts args) @ unit2 @ '', input='' @ t @ [NL])))"

text \<open>The loop over the blocks: the offset it ends with, or \<open>None\<close> after a failed call.\<close>

fun write_blocks :: "char list \<Rightarrow> off \<Rightarrow> nat \<Rightarrow> nat \<Rightarrow> off \<Rightarrow> off option iom" where
  "write_blocks data b i 0 p = ret (Some p)"
| "write_blocks data b i (Suc n) p =
     (let p' = p + b * of_nat i
      in bnd (pwrite data b p') (\<lambda>r.
         if sint r < 0 then ret None
         else thn (say (''*['' @ zu b @ '' '' @ zu p' @ '']*.'')) (
              thn (count_up i) (write_blocks data b (Suc i) n p'))))"

definition WriteIO :: "getopt \<Rightarrow> engine" where
  "WriteIO getopt argv =
     bnd (CheckArgs getopt argv 3) (\<lambda>c. case c of
       Inl _ \<Rightarrow> ret (Some 1)
     | Inr args \<Rightarrow>
     thn (args_msg ''B'' ''bs'' args) (
     let b = bs args; p = offset args * 512; data_len = bs args * counts args
     in bnd (do_open (argv ! 1)) (\<lambda>fd.
     if fd < 0 then ret (Some 1)
     else thn (say (''* Successfully opened ['' @ argv ! 1 @ ''IO WRITE].'' @ [NL])) (
     bnd (alloc b) (\<lambda>m. case m of
       None \<Rightarrow> ret (Some 1)
     | Some data0 \<Rightarrow>
     bnd (buf_str ''in'' (in_str args)) (\<lambda>t.
     bnd (lift_io (fill_str t 0 data0)) (\<lambda>data.
     thn (require (b \<noteq> 0) DivByZero) (
     let write_cnt = data_len div b; write_end = data_len mod b
     in bnd (write_blocks data b 0 (unat write_cnt) p) (\<lambda>p'. case p' of
       None \<Rightarrow> ret (Some 1)
     | Some p' \<Rightarrow>
     bnd (if write_end \<noteq> 0 then pwrite data write_end p' else ret 0) (\<lambda>r.
     if sint r < 0 then ret (Some 1)
     else thn (say ((if write_end \<noteq> 0 then ''.'' else []) @ ''done'' @ [NL])) (ret (Some 0))))))))))))"

definition wants_print :: "Args \<Rightarrow> bool" where
  "wants_print args = ncase_eq (cstr (in_str args)) ''print'' 5"

fun read_blocks :: "bool \<Rightarrow> off \<Rightarrow> nat \<Rightarrow> nat \<Rightarrow> off \<Rightarrow> char list \<Rightarrow> char list option iom" where
  "read_blocks pr b i 0 p data = ret (Some data)"
| "read_blocks pr b i (Suc n) p data =
     bnd (pread (replicate (length data) NUL) b (b * of_nat i + p)) (\<lambda>(r, data).
     if sint r < 0 then ret None
     else thn (if pr then prt_sect_data data (unat b) (ucast (b * of_nat i + p)) else ret ()) (
          thn (count_up i) (read_blocks pr b (Suc i) n p data)))"

text \<open>
  \<^verbatim>\<open>ReadIO\<close>. The block buffer is cleared before each read; a remainder, which only a
  product that wraps leaves, is cleared and read in part.
\<close>

definition ReadIO :: "getopt \<Rightarrow> engine" where
  "ReadIO getopt argv =
     bnd (CheckArgs getopt argv 3) (\<lambda>c. case c of
       Inl _ \<Rightarrow> ret (Some 1)
     | Inr args \<Rightarrow>
     thn (args_msg [] [] args) (
     let b = bs args; p = offset args * 512; data_len = bs args * counts args
     in bnd (do_open (argv ! 1)) (\<lambda>fd.
     if fd < 0 then ret (Some 1)
     else thn (say (''* Successfully opened ['' @ argv ! 1 @ ''IO READ].'' @ [NL])) (
     bnd (alloc b) (\<lambda>m. case m of
       None \<Rightarrow> ret (Some 1)
     | Some data0 \<Rightarrow>
     thn (require (b \<noteq> 0) DivByZero) (
     let read_cnt = data_len div b; read_end = data_len mod b
     in bnd (read_blocks (wants_print args) b 0 (unat read_cnt) p data0) (\<lambda>d. case d of
       None \<Rightarrow> ret (Some 1)
     | Some data \<Rightarrow>
     if read_end = 0 then thn (say (''...end'' @ [NL])) (ret (Some 0))
     else bnd (pread (overwrite data 0 (replicate (unat read_end) NUL)) read_end (read_cnt * b)) (\<lambda>(r, data).
       if sint r < 0 then ret (Some 1)
       else thn (if wants_print args then prt_sect_data data (unat b) (ucast (b * read_cnt + p)) else ret ()) (
            thn (say (''...end'' @ [NL])) (ret (Some 0)))))))))))"

subsection \<open>main\<close>

definition ioengine_array :: "getopt \<Rightarrow> engine \<Rightarrow> (string \<times> engine) list" where
  "ioengine_array getopt do_aio_wrv_bytes_str =
     [(''wrbytesstr'', do_wr_bytes_str), (''wrbyteschar'', do_wr_bytes_char),
      (''wrsectschar'', do_wr_sects_char), (''wrsectsstr'', do_wr_sects_str),
      (''rdonesect'', do_read_one_sect), (''rdbytes'', do_read_bytes),
      (''rdonepage'', do_read_one_page), (''rdpages'', do_read_pages), (''rdsects'', do_read_sects),
      (''aiowrbytesstr'', do_aio_wrv_bytes_str), (''W'', WriteIO getopt), (''R'', ReadIO getopt)]"

fun find_engine :: "string \<Rightarrow> (string \<times> engine) list \<Rightarrow> engine option" where
  "find_engine a [] = None"
| "find_engine a ((cmd_opt, do_cmd_fn) # items) =
     (if ncase_eq a cmd_opt (length cmd_opt) \<and> length a = length cmd_opt then Some do_cmd_fn
      else find_engine a items)"

definition iotool_main :: "getopt \<Rightarrow> engine \<Rightarrow> engine" where
  "iotool_main getopt aio argv =
     (if length argv < 3 then thn print_help (ret (Some (-1)))
      else case find_engine (argv ! 2) (ioengine_array getopt aio) of
          None \<Rightarrow> ret (Some (-1))
        | Some do_cmd_fn \<Rightarrow> do_cmd_fn argv)"

end
