(* ===== verification/Iotool_Props.thy ===== *)
theory Iotool_Props
  imports Iotool_Read
begin

text \<open>
  How the loops of \<^verbatim>\<open>iotool.c\<close> work out: the filling of a buffer, the writing loop for
  each of its two ways to choose a length, and the loop over blocks.
\<close>

section \<open>Filling a buffer\<close>

declare fill_str.simps [simp del]

lemma fill_str_from:
  assumes "str \<noteq> []"
  shows "fill_str str (length pre) (pre @ rest) =
    (let l = length str; n = length rest
     in if rest \<noteq> [] \<and> l dvd n then Inl (Outside ''buf'')
        else Inr (pre @ concat (replicate (n div l) str) @ (if l \<le> n then NUL # drop (n div l * l + 1) rest else rest)))"
proof (induction "length rest" arbitrary: pre rest rule: less_induct)
  case less
  let ?l = "length str"
  have l: "0 < ?l" using assms by simp
  consider "length rest < ?l" | "length rest = ?l" | "?l < length rest" by linarith
  then show ?case
  proof cases
    case 1
    then show ?thesis using l by (auto simp: fill_str.simps [of str "length pre"] Let_def dest: dvd_imp_le)
  next
    case 2
    then show ?thesis using l by (auto simp: fill_str.simps [of str "length pre"] Let_def)
  next
    case 3
    let ?r = "NUL # drop (?l + 1) rest"
    have lr: "length ?r = length rest - ?l" using 3 by (simp del: One_nat_def)
    have lt: "length ?r < length rest" unfolding lr using 3 l by linarith
    have ov: "overwrite (pre @ rest) (length pre) (str @ [NUL]) = (pre @ str) @ ?r"
      using 3 by (simp add: overwrite_inside)
    have "fill_str str (length pre) (pre @ rest) = fill_str str (length (pre @ str)) ((pre @ str) @ ?r)"
      using 3 assms ov by (simp add: fill_str.simps [of str "length pre"])
    moreover have "length rest div ?l = Suc (length ?r div ?l)"
      using 3 l lr by (simp add: le_div_geq)
    moreover have "?l dvd length rest \<longleftrightarrow> ?l dvd length ?r"
      using 3 lr by (metis dvd_minus_self less_imp_le not_less)
    moreover have "rest \<noteq> []" "?l \<le> length rest" using 3 by auto
    moreover have "drop (Suc k) ?r = drop (?l + k + 1) rest" for k by (simp add: ac_simps)
    ultimately show ?thesis
      using less [OF lt, of "pre @ str"] by (auto simp: Let_def div_less ac_simps simp del: drop_Suc_Cons length_drop)
  qed
qed

lemma length_fill_str: "fill_str str p buf = Inr buf' \<Longrightarrow> length buf' = length buf"
proof (induction str p buf rule: fill_str.induct)
  case (1 str p buf)
  show ?case
  proof (cases "p + length str + 1 \<le> length buf \<and> str \<noteq> []")
    case True
    then have "length (overwrite buf p (str @ [NUL])) = length buf" by (simp add: length_fill)
    then show ?thesis using 1 True by (simp add: fill_str.simps [of str p buf])
  next
    case False
    then show ?thesis using "1.prems" by (auto simp: fill_str.simps [of str p buf] split: if_splits)
  qed
qed

section \<open>Writing\<close>

lemma overwrite_overwrite:
  "overwrite (overwrite v p xs) (p + length xs) ys = overwrite v p (xs @ ys)"
proof -
  let ?h = "take p (v @ replicate (p - length v) NUL)"
  have h: "length ?h = p" by simp
  have "overwrite v p xs = ?h @ xs @ drop (p + length xs) v" by (simp add: overwrite_def)
  then have "overwrite (overwrite v p xs) (p + length xs) ys = ?h @ xs @ ys @ drop (p + length xs + length ys) v"
    using h by (simp add: overwrite_def del: take_append) (simp add: add.commute add.left_commute)
  then show ?thesis by (simp add: overwrite_def add.assoc)
qed

text \<open>No call fails.\<close>

definition no_bad :: "io \<Rightarrow> bool" where
  "no_bad s \<longleftrightarrow> (\<forall>a \<in> set (answers s). \<forall>e. a \<noteq> Bad e)"

lemma next_answer_ok:
  assumes "no_bad s"
  shows "\<exists>a as. next_answer s = Inr (a, s\<lparr>answers := as\<rparr>) \<and> (\<forall>e. a \<noteq> Bad e) \<and> (\<forall>b \<in> set as. \<forall>e. b \<noteq> Bad e) \<and>
    (answers s = [] \<longrightarrow> a = Good \<and> as = []) \<and> (answers s \<noteq> [] \<longrightarrow> length as < length (answers s))"
proof (cases "answers s")
  case Nil
  then have "s\<lparr>answers := []\<rparr> = s" by simp
  with Nil show ?thesis by (intro exI [of _ Good] exI [of _ "[]"]) (simp add: next_answer_def)
next
  case (Cons a as)
  then show ?thesis using assms by (intro exI [of _ a] exI [of _ as]) (simp add: next_answer_def no_bad_def)
qed

lemma of_nat_off: "n < 18446744073709551616 \<Longrightarrow> unat (of_nat n :: off) = n"
  by (simp add: unsigned_of_nat take_bit_eq_mod)

lemma pwrite_ok:
  assumes "no_bad s" and "p < 9223372036854775808" and "n < 9223372036854775808" and "n \<le> length buf"
  shows "\<exists>k as. k \<le> n \<and> (answers s = [] \<longrightarrow> k = n \<and> as = []) \<and> (answers s \<noteq> [] \<longrightarrow> length as < length (answers s)) \<and>
    (\<forall>b \<in> set as. \<forall>e. b \<noteq> Bad e) \<and>
    pwrite buf (of_nat n) (of_nat p) s = Inr (of_nat k, s\<lparr>answers := as,
      volume := (if k = 0 then volume s else overwrite (volume s) p (take k buf))\<rparr>)"
proof -
  obtain a as where a: "next_answer s = Inr (a, s\<lparr>answers := as\<rparr>)" "\<forall>e. a \<noteq> Bad e" "\<forall>b \<in> set as. \<forall>e. b \<noteq> Bad e"
    "answers s = [] \<longrightarrow> a = Good \<and> as = []" "answers s \<noteq> [] \<longrightarrow> length as < length (answers s)"
    using next_answer_ok [OF assms(1)] by blast
  have u: "unat (of_nat p :: off) = p" "unat (of_nat n :: off) = n" using assms(2,3) by (simp_all add: of_nat_off)
  have g: "\<not> sint (of_nat p :: off) < 0" "\<not> sint (of_nat n :: off) < 0"
    unfolding sint_neg_iff u using assms(2,3) by simp_all
  define k where "k = (case a of Part j \<Rightarrow> min j n | _ \<Rightarrow> n)"
  have k: "k \<le> n" "answers s = [] \<longrightarrow> k = n" using a(4) by (auto simp: k_def split: answer.split)
  have tk: "take k buf = [] \<longleftrightarrow> k = 0" "length (take k buf) = k" using k(1) assms(4) by auto
  have "pwrite buf (of_nat n) (of_nat p) s = write_at (take k buf) p (s\<lparr>answers := as\<rparr>)"
    using a(1,2) assms(4) g u by (cases a) (auto simp: pwrite_def bnd_def k_def)
  also have "\<dots> = Inr (of_nat k, s\<lparr>answers := as, volume := (if k = 0 then volume s else overwrite (volume s) p (take k buf))\<rparr>)"
    using tk by (simp add: write_at_def thn_def bnd_def)
  finally show ?thesis using k a(3-5) by (intro exI [of _ k] exI [of _ as]) simp
qed

lemma wr_loop_step:
  assumes "p < stop" and "pwrite buf (chunk p) p s = Inr (r, s')" and "\<not> sint r < 0"
    and "\<not> (r = 0 \<and> answers s = [])"
  shows "wr_loop chunk stop buf p s =
    wr_loop chunk stop buf (p + r) (s'\<lparr>out := out s' @ wrote_msg p (chunk p)\<rparr>)"
  using assms by (subst wr_loop.simps) auto

lemma wr_loop_end: "wr_loop chunk e buf e s = Inr (0, s)"
  by (simp add: wr_loop.simps)

text \<open>
  A loop whose calls stay inside the buffer and the range writes the range, whatever the
  calls leave undone at first.
\<close>

lemma wr_loop_char:
  assumes "no_bad s" and "p \<le> e" and "e < 9223372036854775808"
    and "\<And>q. q < e \<Longrightarrow> p \<le> q \<Longrightarrow> \<exists>n. chunk (of_nat q) = of_nat n \<and> 0 < n \<and> n \<le> N \<and> n \<le> e - q"
  shows "\<exists>s'. wr_loop chunk (of_nat e) (replicate N c) (of_nat p) s = Inr (0, s') \<and>
    volume s' = (if p = e then volume s else overwrite (volume s) p (replicate (e - p) c))"
  using assms
proof (induction "length (answers s) + (e - p)" arbitrary: s p rule: less_induct)
  case less
  have lt: "(of_nat p :: off) < of_nat e \<longleftrightarrow> p < e"
    using less.prems(2,3) by (simp add: word_less_nat_alt of_nat_off)
  show ?case
  proof (cases "p = e")
    case True
    then show ?thesis by (simp add: wr_loop.simps)
  next
    case False
    then have pe: "p < e" using less.prems(2) by simp
    obtain n where n: "chunk (of_nat p) = of_nat n" "0 < n" "n \<le> N" "n \<le> e - p" using less.prems(4) [OF pe] by auto
    have sz: "p < 9223372036854775808" "n < 9223372036854775808" using n(4) pe less.prems(3) by simp_all
    obtain k as where k: "k \<le> n" "answers s = [] \<longrightarrow> k = n \<and> as = []" "answers s \<noteq> [] \<longrightarrow> length as < length (answers s)"
      "\<forall>b \<in> set as. \<forall>e. b \<noteq> Bad e"
      and w: "pwrite (replicate N c) (of_nat n) (of_nat p) s = Inr (of_nat k, s\<lparr>answers := as,
        volume := (if k = 0 then volume s else overwrite (volume s) p (take k (replicate N c)))\<rparr>)"
      using pwrite_ok [OF less.prems(1) sz(1,2), of "replicate N c"] n(3) unfolding length_replicate by blast
    let ?s = "s\<lparr>answers := as, volume := (if k = 0 then volume s else overwrite (volume s) p (take k (replicate N c))),
      out := out s @ wrote_msg (of_nat p) (of_nat n)\<rparr>"
    have kk: "unat (of_nat k :: off) = k" using k(1) n(4) less.prems(3) by (intro of_nat_off) simp
    have "\<not> sint (of_nat k :: off) < 0" unfolding sint_neg_iff kk using k(1) n(4) less.prems(3) by simp
    moreover have "\<not> ((of_nat k :: off) = 0 \<and> answers s = [])"
      using k(2) n(2) kk by (metis unsigned_0 less_numeral_extra(3))
    ultimately have step: "wr_loop chunk (of_nat e) (replicate N c) (of_nat p) s =
        wr_loop chunk (of_nat e) (replicate N c) (of_nat (p + k)) ?s"
      using wr_loop_step [of "of_nat p" "of_nat e" _ chunk, OF _ w [folded n(1)]] n(1) pe lt by simp
    have dec: "length (answers ?s) + (e - (p + k)) < length (answers s) + (e - p)"
      using k n(2) pe by (cases "answers s = []") auto
    have pk: "p + k \<le> e" using k(1) n(4) pe by simp
    have "no_bad ?s" using k(4) by (simp add: no_bad_def)
    from less.hyps [OF dec this pk less.prems(3)] less.prems(4) obtain s' where
      s': "wr_loop chunk (of_nat e) (replicate N c) (of_nat (p + k)) ?s = Inr (0, s')"
      "volume s' = (if p + k = e then volume ?s else overwrite (volume ?s) (p + k) (replicate (e - (p + k)) c))"
      by auto
    have vs: "volume ?s = (if k = 0 then volume s else overwrite (volume s) p (replicate k c))"
      using k(1) n(3) by (simp add: min_absorb1)
    have rp: "replicate k c @ replicate (e - (p + k)) c = replicate (e - p) c"
      using pk by (simp flip: replicate_add)
    have "volume s' = overwrite (volume s) p (replicate (e - p) c)"
      using s'(2) vs pe pk rp overwrite_overwrite [of "volume s" p "replicate k c" "replicate (e - (p + k)) c"]
      by (auto split: if_splits)
    then show ?thesis using step s'(1) False by auto
  qed
qed

lemma alloc_ok:
  assumes "no_bad s"
  shows "\<exists>as. alloc n s = Inr (Some (map (fresh s) [0..<unat n]), s\<lparr>answers := as\<rparr>) \<and>
    (\<forall>b \<in> set as. \<forall>e. b \<noteq> Bad e) \<and> (answers s = [] \<longrightarrow> as = [])"
proof -
  obtain a as where a: "next_answer s = Inr (a, s\<lparr>answers := as\<rparr>)" "\<forall>e. a \<noteq> Bad e" "\<forall>b \<in> set as. \<forall>e. b \<noteq> Bad e"
    "answers s = [] \<longrightarrow> a = Good \<and> as = []"
    using next_answer_ok [OF assms] by blast
  then show ?thesis by (intro exI [of _ as]) (cases a; simp add: alloc_def bnd_def)
qed

lemma unat_max_buf: "n < 18446744073709551616 \<Longrightarrow> max_buf (of_nat n) = of_nat (min n MAX_BUF_LEN)"
  by (auto simp: max_buf_def word_less_nat_alt of_nat_off min_def)

lemma wr_finish_0: "wr_finish msg 0 s = Inr (0, s\<lparr>out := out s @ msg\<rparr>)"
  by (simp add: wr_finish_def say_def thn_def bnd_def)

lemma wr_bytes_char_run:
  assumes nb: "no_bad s" and sz: "0 < cnt" "p + cnt < 9223372036854775808"
  shows "\<exists>s'. do_wr_bytes_char_fd (of_nat p) (of_nat cnt) c s = Inr (0, s') \<and>
    volume s' = overwrite (volume s) p (replicate cnt c)"
proof -
  let ?N = "min cnt MAX_BUF_LEN"
  have mb: "max_buf (of_nat cnt) = of_nat ?N" "unat (of_nat ?N :: off) = ?N"
    using sz by (simp_all add: unat_max_buf of_nat_off)
  obtain as where al: "alloc (of_nat ?N) s = Inr (Some (map (fresh s) [0..<?N]), s\<lparr>answers := as\<rparr>)"
    "\<forall>b \<in> set as. \<forall>e. b \<noteq> Bad e"
    using alloc_ok [OF nb, of "of_nat ?N"] mb(2) by auto
  let ?s = "s\<lparr>answers := as, out := out s @ sizes_msg (of_nat cnt) (of_nat ?N) @ [NL]\<rparr>"
  let ?ch = "bytes_chunk (of_nat cnt) (of_nat p) (of_nat ?N)"
  have ch: "\<exists>n. ?ch (of_nat q) = of_nat n \<and> 0 < n \<and> n \<le> ?N \<and> n \<le> p + cnt - q" if "q < p + cnt" "p \<le> q" for q
  proof -
    have d: "of_nat cnt + of_nat p - of_nat q = (of_nat (p + cnt - q) :: off)"
      using that by (simp add: of_nat_diff)
    have u: "unat (of_nat (p + cnt - q) :: off) = p + cnt - q" using that sz by (intro of_nat_off) simp
    have "(of_nat (p + cnt - q) :: off) > of_nat ?N \<longleftrightarrow> p + cnt - q > ?N"
      unfolding word_less_nat_alt u mb(2) by (rule refl)
    then have "?ch (of_nat q) = of_nat (min ?N (p + cnt - q))" unfolding bytes_chunk_def d by (simp add: min_def)
    then show ?thesis using that sz(1) by (intro exI [of _ "min ?N (p + cnt - q)"]) (auto simp: min_le_iff_disj)
  qed
  have "no_bad ?s" using al(2) by (simp add: no_bad_def)
  from wr_loop_char [OF this le_add1 sz(2) ch, of c] obtain s' where
    s': "wr_loop ?ch (of_nat (p + cnt)) (replicate ?N c) (of_nat p) ?s = Inr (0, s')"
    "volume s' = overwrite (volume s) p (replicate cnt c)" using sz(1) by auto
  have "do_wr_bytes_char_fd (of_nat p) (of_nat cnt) c s =
      Inr (0, s'\<lparr>out := out s' @ bytes_done (of_nat p) (of_nat cnt)\<rparr>)"
    using s'(1) by (simp add: do_wr_bytes_char_fd_def mb(1) al(1) bnd_def thn_def say_def Let_def wr_finish_0 add.commute)
  with s'(2) show ?thesis by simp
qed

text \<open>When the calls are complete, a turn of the loop writes the whole chunk.\<close>

lemma wr_loop_good:
  assumes "answers s = []" and "p < e" "e < 9223372036854775808" and "p + n < 9223372036854775808"
    and "chunk (of_nat p) = of_nat n" and "0 < n" "n \<le> length buf"
  shows "\<exists>s'. answers s' = [] \<and> volume s' = overwrite (volume s) p (take n buf) \<and>
    wr_loop chunk (of_nat e) buf (of_nat p) s = wr_loop chunk (of_nat e) buf (of_nat (p + n)) s'"
proof -
  have nb: "no_bad s" using assms(1) by (simp add: no_bad_def)
  have sz: "p < 9223372036854775808" "n < 9223372036854775808" using assms(4) by simp_all
  have w: "pwrite buf (of_nat n) (of_nat p) s = Inr (of_nat n, s\<lparr>answers := [], volume := overwrite (volume s) p (take n buf)\<rparr>)"
    using pwrite_ok [OF nb sz assms(7)] assms(1,6) by auto
  have lt: "(of_nat p :: off) < of_nat e" using assms(2,3) by (simp add: word_less_nat_alt of_nat_off)
  have n: "unat (of_nat n :: off) = n" using sz(2) by (intro of_nat_off) simp
  have "\<not> sint (of_nat n :: off) < 0" "(of_nat n :: off) \<noteq> 0"
    unfolding sint_neg_iff using n sz(2) assms(6) by (simp, metis unsigned_0 less_irrefl)
  moreover have "pwrite buf (chunk (of_nat p)) (of_nat p) s =
      Inr (of_nat n, s\<lparr>answers := [], volume := overwrite (volume s) p (take n buf)\<rparr>)"
    using w assms(5) by simp
  ultimately have "wr_loop chunk (of_nat e) buf (of_nat p) s = wr_loop chunk (of_nat e) buf (of_nat (p + n))
      (s\<lparr>answers := [], volume := overwrite (volume s) p (take n buf), out := out s @ wrote_msg (of_nat p) (of_nat n)\<rparr>)"
    using wr_loop_step [where chunk = chunk, OF lt] by (simp add: assms(5))
  then show ?thesis
    by (rule_tac x = "s\<lparr>answers := [], volume := overwrite (volume s) p (take n buf),
          out := out s @ wrote_msg (of_nat p) (of_nat n)\<rparr>" in exI) simp
qed

text \<open>The engine for sectors up to its loop.\<close>

lemma wr_sects_char_enter:
  assumes nb: "no_bad s" and sz: "512 * cnt < 9223372036854775808"
  shows "\<exists>s1. no_bad s1 \<and> volume s1 = volume s \<and> (answers s = [] \<longrightarrow> answers s1 = []) \<and>
    do_wr_sects_char_fd (of_nat p) (of_nat cnt) c s =
    bnd (wr_loop (sects_chunk (of_nat (512 * cnt)) (of_nat p) (of_nat (min (512 * cnt) MAX_BUF_LEN)))
           (of_nat (512 * p + 512 * cnt)) (replicate (min (512 * cnt) MAX_BUF_LEN) c) (of_nat (512 * p)))
      (wr_finish (sects_done (of_nat p) (of_nat cnt))) s1"
proof -
  let ?N = "min (512 * cnt) MAX_BUF_LEN"
  have mb: "max_buf (of_nat (512 * cnt)) = of_nat ?N" "unat (of_nat ?N :: off) = ?N"
    using sz by (simp_all only: unat_max_buf of_nat_off)
  obtain as where al: "alloc (of_nat ?N) s = Inr (Some (map (fresh s) [0..<?N]), s\<lparr>answers := as\<rparr>)"
    "\<forall>b \<in> set as. \<forall>e. b \<noteq> Bad e" "answers s = [] \<longrightarrow> as = []"
    using alloc_ok [OF nb, of "of_nat ?N"] mb(2) by auto
  let ?s = "s\<lparr>answers := as, out := out s @ sizes_msg (of_nat (512 * cnt)) (of_nat ?N) @ [NL]\<rparr>"
  have w: "512 * of_nat cnt = (of_nat (512 * cnt) :: off)" "of_nat p * 512 = (of_nat (512 * p) :: off)"
    "of_nat (512 * cnt) + of_nat (512 * p) = (of_nat (512 * p + 512 * cnt) :: off)" by simp_all
  have "do_wr_sects_char_fd (of_nat p) (of_nat cnt) c s =
    bnd (wr_loop (sects_chunk (of_nat (512 * cnt)) (of_nat p) (of_nat ?N))
           (of_nat (512 * p + 512 * cnt)) (replicate ?N c) (of_nat (512 * p)))
      (wr_finish (sects_done (of_nat p) (of_nat cnt))) ?s"
    unfolding do_wr_sects_char_fd_def Let_def w mb(1) by (simp add: al(1) bnd_def thn_def say_def del: of_nat_mult of_nat_add)
  moreover have "no_bad ?s" using al(2) by (simp add: no_bad_def)
  ultimately show ?thesis using al(3) by (intro exI [of _ ?s]) simp
qed

lemma wr_sects_char_finish:
  assumes "wr_loop ch e b p s1 = Inr (0, s2)"
  shows "\<exists>s'. bnd (wr_loop ch e b p) (wr_finish msg) s1 = Inr (0, s') \<and> volume s' = volume s2"
  using assms by (simp add: bnd_def wr_finish_0)

lemma wr_sects_char_inside:
  assumes nb: "no_bad s" and sz: "0 < cnt" "512 * p + 512 * cnt < 9223372036854775808"
    and ok: "p = 0 \<or> 512 * cnt \<le> MAX_BUF_LEN \<and> answers s = []"
  shows "\<exists>s'. do_wr_sects_char_fd (of_nat p) (of_nat cnt) c s = Inr (0, s') \<and>
    volume s' = overwrite (volume s) (512 * p) (replicate (512 * cnt) c)"
proof -
  let ?N = "min (512 * cnt) MAX_BUF_LEN"
  let ?ch = "sects_chunk (of_nat (512 * cnt)) (of_nat p) (of_nat ?N)"
  obtain s1 where s1: "no_bad s1" "volume s1 = volume s" "answers s = [] \<longrightarrow> answers s1 = []"
    "do_wr_sects_char_fd (of_nat p) (of_nat cnt) c s =
      bnd (wr_loop ?ch (of_nat (512 * p + 512 * cnt)) (replicate ?N c) (of_nat (512 * p)))
        (wr_finish (sects_done (of_nat p) (of_nat cnt))) s1"
    using wr_sects_char_enter [OF nb, of cnt p c] sz by auto
  show ?thesis
  proof (cases "p = 0")
    case True
    have ch: "\<exists>n. ?ch (of_nat q) = of_nat n \<and> 0 < n \<and> n \<le> ?N \<and> n \<le> 512 * cnt - q"
      if "q < 512 * cnt" "0 \<le> q" for q
    proof -
      have d: "of_nat (512 * cnt) - of_nat q = (of_nat (512 * cnt - q) :: off)" using that by (simp add: of_nat_diff)
      have u: "unat (of_nat (512 * cnt - q) :: off) = 512 * cnt - q" "unat (of_nat ?N :: off) = ?N"
        using sz by (intro of_nat_off; simp)+
      have "(of_nat (512 * cnt - q) :: off) > of_nat ?N \<longleftrightarrow> 512 * cnt - q > ?N"
        unfolding word_less_nat_alt u by (rule refl)
      moreover have "of_nat (512 * cnt) + of_nat p * 512 - of_nat q = (of_nat (512 * cnt - q) :: off)"
        using d True by simp
      ultimately have "?ch (of_nat q) = of_nat (min ?N (512 * cnt - q))"
        unfolding sects_chunk_def d by (simp add: min_def)
      then show ?thesis using that sz(1) by (intro exI [of _ "min ?N (512 * cnt - q)"]) (auto simp: min_le_iff_disj)
    qed
    have "512 * cnt < 9223372036854775808" using sz(2) by simp
    from wr_loop_char [OF s1(1) le0 this ch, of c] sz(1) s1(2,4) True show ?thesis
      using wr_sects_char_finish by fastforce
  next
    case False
    then have k: "512 * cnt \<le> MAX_BUF_LEN" "answers s1 = []" using ok s1(3) by auto
    have u: "unat (of_nat (512 * p) :: off) = 512 * p" "unat (of_nat (512 * cnt) :: off) = 512 * cnt" "?N = 512 * cnt"
      using sz k(1) by (intro of_nat_off; simp | simp)+
    have "?ch (of_nat (512 * p)) = of_nat (512 * cnt)"
      unfolding sects_chunk_def u(3) by (simp add: mult.commute)
    from wr_loop_good [where chunk = ?ch and buf = "replicate ?N c", OF k(2) _ sz(2) _ this] sz obtain s2 where
      s2: "volume s2 = overwrite (volume s) (512 * p) (replicate (512 * cnt) c)"
      "wr_loop ?ch (of_nat (512 * p + 512 * cnt)) (replicate ?N c) (of_nat (512 * p)) s1 =
       wr_loop ?ch (of_nat (512 * p + 512 * cnt)) (replicate ?N c) (of_nat (512 * p + 512 * cnt)) s2"
      using s1(2) u(3) by (auto simp del: of_nat_add of_nat_mult)
    from wr_sects_char_finish [OF trans [OF s2(2) wr_loop_end], of "sects_done (of_nat p) (of_nat cnt)"] s1(4) s2(1)
    show ?thesis by metis
  qed
qed

lemma sects_chunk_wrap:
  assumes "d < q" and "q < 9223372036854775808" and "N \<le> MAX_BUF_LEN"
  shows "sects_chunk (of_nat d) p (of_nat N) (of_nat q) = of_nat N"
proof -
  have u: "unat (of_nat d :: off) = d" "unat (of_nat q :: off) = q" "unat (of_nat N :: off) = N"
    using assms by (simp_all add: of_nat_off)
  have "unat (of_nat d - of_nat q :: off) = d + 18446744073709551616 - q"
    using assms(1) by (simp add: unat_sub_if' u)
  then have "(of_nat d - of_nat q :: off) > of_nat N"
    unfolding word_less_nat_alt u using assms by simp
  then show ?thesis by (simp add: sects_chunk_def)
qed

lemma wr_sects_char_overrun:
  assumes nb: "no_bad s" and sz: "512 * p + 512 * cnt < 9223372036854775808"
    and bad: "MAX_BUF_LEN < 512 * cnt" "512 * cnt \<le> 512 * p + MAX_BUF_LEN" "p \<le> cnt"
  shows "do_wr_sects_char_fd (of_nat p) (of_nat cnt) c s = Inl (Outside ''buf'')"
proof -
  have N: "min (512 * cnt) MAX_BUF_LEN = MAX_BUF_LEN" using bad(1) by simp
  let ?ch = "sects_chunk (of_nat (512 * cnt)) (of_nat p) (of_nat MAX_BUF_LEN)"
  obtain s1 where s1: "do_wr_sects_char_fd (of_nat p) (of_nat cnt) c s =
      bnd (wr_loop ?ch (of_nat (512 * p + 512 * cnt)) (replicate MAX_BUF_LEN c) (of_nat (512 * p)))
        (wr_finish (sects_done (of_nat p) (of_nat cnt))) s1"
    using wr_sects_char_enter [OF nb, of cnt p c] sz unfolding N by auto
  have u: "unat (of_nat (512 * p) :: off) = 512 * p" "unat (of_nat (512 * cnt) :: off) = 512 * cnt"
    "unat (of_nat MAX_BUF_LEN :: off) = MAX_BUF_LEN" "unat (of_nat (512 * p + 512 * cnt) :: off) = 512 * p + 512 * cnt"
    using sz by (intro of_nat_off; simp)+
  have "unat (of_nat (512 * cnt) - of_nat (512 * p) :: off) = 512 * cnt - 512 * p"
    using bad(3) by (simp only: unat_sub_if' u) simp
  then have "\<not> (of_nat (512 * cnt) - of_nat (512 * p) :: off) > of_nat MAX_BUF_LEN"
    unfolding word_less_nat_alt u using bad(2) by simp
  then have ch: "?ch (of_nat (512 * p)) = of_nat (512 * cnt)"
    unfolding sects_chunk_def by (simp add: mult.commute)
  have g: "\<not> sint (of_nat (512 * p) :: off) < 0" "\<not> sint (of_nat (512 * cnt) :: off) < 0"
    unfolding sint_neg_iff u using sz by simp_all
  have "pwrite (replicate MAX_BUF_LEN c) (of_nat (512 * cnt)) (of_nat (512 * p)) s1 = Inl (Outside ''buf'')"
    unfolding pwrite_def u using g bad(1) by (simp del: of_nat_mult)
  moreover have "(of_nat (512 * p) :: off) < of_nat (512 * p + 512 * cnt)"
    unfolding word_less_nat_alt u using bad(1) by simp
  ultimately have "wr_loop ?ch (of_nat (512 * p + 512 * cnt)) (replicate MAX_BUF_LEN c) (of_nat (512 * p)) s1 =
      Inl (Outside ''buf'')"
    by (subst wr_loop.simps) (simp only: ch if_True sum.case)
  then show ?thesis unfolding s1 by (simp only: bnd_def sum.case)
qed

text \<open>
  A start behind the length in bytes: the length of a call is never cut, and the last one
  goes past the end of the range.
\<close>

lemma wr_sects_char_overshoot:
  assumes nb: "answers s = []" and sz: "512 * p + 8388608 < 9223372036854775808"
    and bad: "MAX_BUF_LEN < 512 * cnt" "512 * cnt < 2 * MAX_BUF_LEN" "cnt < p"
  shows "\<exists>s'. do_wr_sects_char_fd (of_nat p) (of_nat cnt) c s = Inr (0, s') \<and>
    volume s' = overwrite (volume s) (512 * p) (replicate (2 * MAX_BUF_LEN) c)"
proof -
  have N: "min (512 * cnt) MAX_BUF_LEN = MAX_BUF_LEN" using bad(1) by simp
  let ?ch = "sects_chunk (of_nat (512 * cnt)) (of_nat p) (of_nat MAX_BUF_LEN)"
  let ?e = "512 * p + 512 * cnt" and ?b = "replicate MAX_BUF_LEN c"
  have "no_bad s" "512 * cnt < 9223372036854775808" using nb bad(2) by (simp_all add: no_bad_def)
  from wr_sects_char_enter [OF this, of p c] obtain s1 where s1: "volume s1 = volume s" "answers s1 = []"
    "do_wr_sects_char_fd (of_nat p) (of_nat cnt) c s =
      bnd (wr_loop ?ch (of_nat ?e) ?b (of_nat (512 * p))) (wr_finish (sects_done (of_nat p) (of_nat cnt))) s1"
    unfolding N using nb by blast
  have e: "?e < 9223372036854775808" "512 * p < ?e" "512 * p + MAX_BUF_LEN < ?e" "512 * p + MAX_BUF_LEN < 9223372036854775808"
    "512 * p + MAX_BUF_LEN + MAX_BUF_LEN < 9223372036854775808" "?e \<le> 512 * p + MAX_BUF_LEN + MAX_BUF_LEN"
    using sz bad by simp_all
  have ch: "?ch (of_nat (512 * p)) = of_nat MAX_BUF_LEN" "?ch (of_nat (512 * p + MAX_BUF_LEN)) = of_nat MAX_BUF_LEN"
    using bad(3) e by (intro sects_chunk_wrap; simp)+
  from wr_loop_good [where chunk = ?ch and buf = ?b, OF s1(2) e(2,1,4) ch(1)] obtain s2 where
    s2: "answers s2 = []" "volume s2 = overwrite (volume s1) (512 * p) ?b"
      "wr_loop ?ch (of_nat ?e) ?b (of_nat (512 * p)) s1 = wr_loop ?ch (of_nat ?e) ?b (of_nat (512 * p + MAX_BUF_LEN)) s2"
    by auto
  from wr_loop_good [where chunk = ?ch and buf = ?b, OF s2(1) e(3,1,5) ch(2)] obtain s3 where
    s3: "volume s3 = overwrite (volume s2) (512 * p + MAX_BUF_LEN) ?b"
      "wr_loop ?ch (of_nat ?e) ?b (of_nat (512 * p + MAX_BUF_LEN)) s2 =
       wr_loop ?ch (of_nat ?e) ?b (of_nat (512 * p + MAX_BUF_LEN + MAX_BUF_LEN)) s3"
    by auto
  have "\<not> (of_nat (512 * p + MAX_BUF_LEN + MAX_BUF_LEN) :: off) < of_nat ?e"
    unfolding word_less_nat_alt using e by (simp only: of_nat_off)
  then have "wr_loop ?ch (of_nat ?e) ?b (of_nat (512 * p + MAX_BUF_LEN + MAX_BUF_LEN)) s3 = Inr (0, s3)"
    by (subst wr_loop.simps) (simp only: if_False)
  from wr_sects_char_finish [OF trans [OF s2(3) trans [OF s3(2) this]], of "sects_done (of_nat p) (of_nat cnt)"]
  obtain s' where s': "bnd (wr_loop ?ch (of_nat ?e) ?b (of_nat (512 * p))) (wr_finish (sects_done (of_nat p) (of_nat cnt))) s1 =
      Inr (0, s')" "volume s' = volume s3" by blast
  have "volume s3 = overwrite (volume s) (512 * p) (?b @ ?b)"
    using overwrite_overwrite [of "volume s" "512 * p" ?b ?b] s3(1) s2(2) s1(1) by (simp only: length_replicate)
  moreover have "?b @ ?b = replicate (2 * MAX_BUF_LEN) c" by (simp flip: replicate_add)
  ultimately show ?thesis using s'(1,2) unfolding s1(3) by metis
qed

section \<open>Blocks\<close>

text \<open>Where \<^verbatim>\<open>WriteIO\<close> puts block \<open>k\<close>: the counter is added up.\<close>

definition block_pos :: "nat \<Rightarrow> nat \<Rightarrow> nat \<Rightarrow> nat" where
  "block_pos P B k = P + B * (k * (k + 1) div 2)"

lemma block_pos_Suc: "block_pos P B (Suc k) = block_pos P B k + B * Suc k"
proof -
  have "Suc k * (Suc k + 1) = k * (k + 1) + Suc k * 2" by simp
  then have "Suc k * (Suc k + 1) div 2 = k * (k + 1) div 2 + Suc k" by (simp only: div_mult_self3) simp
  then show ?thesis by (simp add: block_pos_def distrib_left)
qed

lemma block_pos_mono: "j \<le> k \<Longrightarrow> block_pos P B j \<le> block_pos P B k"
  by (induction k) (auto simp: block_pos_Suc le_Suc_eq)

lemma write_blocks_run:
  assumes "answers s = []" and "length data = B" and "0 < B"
    and "n = 0 \<or> block_pos P B (i + n - 1) + B < 9223372036854775808" and "i + n \<le> 2147483647"
    and "p + B * i = block_pos P B i"
  shows "\<exists>s' q. write_blocks data (of_nat B) i n (of_nat p) s = Inr (Some q, s') \<and> answers s' = [] \<and>
    volume s' = fold (\<lambda>k v. overwrite v (block_pos P B k) data) [i..<i + n] (volume s)"
  using assms
proof (induction n arbitrary: i p s)
  case 0
  then show ?case by simp
next
  case (Suc n)
  let ?q = "block_pos P B i"
  have q: "of_nat p + of_nat B * of_nat i = (of_nat ?q :: off)" using Suc.prems(6) by (simp flip: of_nat_mult of_nat_add)
  have le: "?q + B < 9223372036854775808"
    using Suc.prems(4) block_pos_mono [of i "i + Suc n - 1" P B] by auto
  have nb: "no_bad s" using Suc.prems(1) by (simp add: no_bad_def)
  have "?q < 9223372036854775808" "B < 9223372036854775808" using le by simp_all
  from pwrite_ok [OF nb this, of data] have
    w: "pwrite data (of_nat B) (of_nat ?q) s = Inr (of_nat B, s\<lparr>answers := [], volume := overwrite (volume s) ?q data\<rparr>)"
    using Suc.prems(1-3) by auto
  have "unat (of_nat B :: off) = B" using le by (intro of_nat_off) simp
  then have sb: "\<not> sint (of_nat B :: off) < 0" unfolding sint_neg_iff using le by simp
  define s1 where "s1 = s\<lparr>answers := [], volume := overwrite (volume s) ?q data,
    out := out s @ (''*['' @ zu (of_nat B) @ '' '' @ zu (of_nat ?q) @ '']*.'')\<rparr>"
  have s1: "answers s1 = []" "volume s1 = overwrite (volume s) ?q data" by (simp_all add: s1_def)
  have step: "write_blocks data (of_nat B) i (Suc n) (of_nat p) s = write_blocks data (of_nat B) (Suc i) n (of_nat ?q) s1"
    using Suc.prems(5) sb w
    by (simp add: Let_def q bnd_def thn_def say_def count_up_def require_def s1_def del: append.simps)
  have pre: "n = 0 \<or> block_pos P B (Suc i + n - 1) + B < 9223372036854775808" "Suc i + n \<le> 2147483647"
    "?q + B * Suc i = block_pos P B (Suc i)"
    using Suc.prems(4,5) by (auto simp: block_pos_Suc)
  from Suc.IH [OF s1(1) Suc.prems(2,3) pre] obtain s' q' where
    "write_blocks data (of_nat B) (Suc i) n (of_nat ?q) s1 = Inr (Some q', s')" "answers s' = []"
    "volume s' = fold (\<lambda>k v. overwrite v (block_pos P B k) data) [Suc i..<Suc i + n] (volume s1)" by blast
  moreover have "[i..<i + Suc n] = i # [Suc i..<Suc i + n]" by (subst upt_conv_Cons) auto
  ultimately show ?case unfolding step s1(2) by (simp del: upt_Suc add_Suc add_Suc_right)
qed

text \<open>The checking of the arguments touches neither the volume nor the script.\<close>

definition same :: "io \<Rightarrow> io \<Rightarrow> bool" where
  "same s s' \<longleftrightarrow> answers s' = answers s \<and> volume s' = volume s \<and> fresh s' = fresh s"

lemma same_trans: "same s t \<Longrightarrow> same t u \<Longrightarrow> same s u"
  by (simp add: same_def)

lemma same_say: "say t s = Inr (u, s') \<Longrightarrow> same s s'"
  by (auto simp: say_def same_def)

lemma same_help: "print_help s = Inr (u, s') \<Longrightarrow> same s s'"
  by (simp add: print_help_def same_say)

lemma same_mystrtoull: "mystrtoull v s = Inr (r, s') \<Longrightarrow> same s s'"
  by (auto simp: mystrtoull_def strtoull_def bnd_def thn_def same_def split: prod.splits if_splits)

lemma same_mystrtoll: "mystrtoll v s = Inr (r, s') \<Longrightarrow> same s s'"
  by (auto simp: mystrtoll_def strtoll_def bnd_def thn_def same_def split: prod.splits if_splits)

lemma parse_opts_run:
  assumes "parse_opts direct opts b s = Inr (r, s')"
  shows "same s s' \<and> (\<forall>v. r = Some v \<longrightarrow> unat b \<le> BLOCK_SIZE_MAX \<longrightarrow> unat v \<le> BLOCK_SIZE_MAX) \<and>
    (\<forall>v. r = Some v \<longrightarrow> direct \<longrightarrow> b mod 512 = 0 \<longrightarrow> v mod 512 = 0)"
  using assms
proof (induction direct opts b arbitrary: s rule: parse_opts.induct)
  case (1 direct b)
  then show ?case by (auto simp: same_def)
next
  case (2 direct opt optarg opts b)
  consider "opt = CHR ''b'' \<and> optarg \<noteq> None" | "opt = CHR ''h''" | "opt = CHR ''b'' \<and> optarg = None \<or> opt \<noteq> CHR ''b'' \<and> opt \<noteq> CHR ''h''"
    by (cases "opt = CHR ''b''"; cases "opt = CHR ''h''"; cases optarg) auto
  then show ?case
  proof cases
    case 1
    then obtain a where a: "opt = CHR ''b''" "optarg = Some a" by auto
    then obtain v s1 where v: "mystrtoull a s = Inr (v, s1)" using "2.prems" by (auto simp: bnd_eq_Inr)
    have run: "(if v > of_nat BLOCK_SIZE_MAX then ret None else if v mod 512 \<noteq> 0 \<and> direct then ret None
        else parse_opts direct opts v) s1 = Inr (r, s')"
      using "2.prems" a v by (simp add: bnd_def)
    show ?thesis
    proof (cases "v > of_nat BLOCK_SIZE_MAX \<or> v mod 512 \<noteq> 0 \<and> direct")
      case True
      then have "r = None" "s' = s1" using run by (auto split: if_splits)
      then show ?thesis using same_mystrtoull [OF v] by simp
    next
      case False
      then have p: "parse_opts direct opts v s1 = Inr (r, s')" and f: "\<not> v > of_nat BLOCK_SIZE_MAX"
        using run by (auto split: if_splits)
      have "unat v \<le> BLOCK_SIZE_MAX" using f by (simp add: word_less_nat_alt of_nat_off)
      then show ?thesis
        using "2.IH"(2) [OF a _ _ p] False same_trans [OF same_mystrtoull [OF v]] by (auto del: mod_0_imp_dvd)
    qed
  next
    case 2
    then obtain u s1 where "print_help s = Inr (u, s1)" "parse_opts direct opts b s1 = Inr (r, s')"
      using "2.prems" by (auto simp: thn_eq_Inr)
    then show ?thesis using "2.IH"(3) [of s1] 2 same_trans [OF same_help] by auto
  next
    case 3
    then have p: "parse_opts direct opts b s = Inr (r, s')" using "2.prems" by auto
    show ?thesis
    proof (cases "opt = CHR ''b''")
      case True
      then show ?thesis using "2.IH"(1) [OF True _ p] 3 by auto
    next
      case False
      then show ?thesis using "2.IH"(4) [OF False _ p] 3 by auto
    qed
  qed
qed

text \<open>What \<^verbatim>\<open>CheckArgs\<close> hands out.\<close>

lemma CheckArgs_run:
  assumes "CheckArgs getopt argv 3 s = Inr (Inr args, s')"
  shows "same s s' \<and> unat (bs args) \<le> BLOCK_SIZE_MAX \<and>
    (str_eq_case (argv ! 1) ''d'' \<or> str_eq_case (argv ! 1) ''direct'' \<longrightarrow> bs args mod 512 = 0) \<and>
    dev_path args = strncpy0 (argv ! 3) 64 \<and> in_str args = strncpy0 (snd (getopt argv) ! 2) 64"
proof -
  let ?d = "str_eq_case (argv ! 1) ''d'' \<or> str_eq_case (argv ! 1) ''direct''"
  obtain opts rest where g: "getopt argv = (opts, rest)" by (cases "getopt argv")
  have len: "\<not> length argv < 5" using assms by (auto simp: CheckArgs_def thn_eq_Inr Let_def split: if_splits)
  from assms obtain b s1 where b: "parse_opts ?d opts 512 s = Inr (Some b, s1)" and rl: "\<not> length rest < 3"
    and rest: "bnd (mystrtoll (rest ! 0)) (\<lambda>o'. bnd (mystrtoull (rest ! 1)) (\<lambda>c.
        ret (Inr \<lparr>bs = b, offset = o', counts = c, dev_path = strncpy0 (argv ! 3) 64, in_str = strncpy0 (rest ! 2) 64\<rparr>))) s1 =
      Inr (Inr args, s')"
    by (auto simp: CheckArgs_def g len bnd_eq_Inr thn_eq_Inr Let_def cstr_def split: option.splits if_splits)
  from rest obtain o' s2 c where m: "mystrtoll (rest ! 0) s1 = Inr (o', s2)" "mystrtoull (rest ! 1) s2 = Inr (c, s')"
    and args: "args = \<lparr>bs = b, offset = o', counts = c, dev_path = strncpy0 (argv ! 3) 64, in_str = strncpy0 (rest ! 2) 64\<rparr>"
    by (auto simp: bnd_eq_Inr)
  have "same s s'"
    using parse_opts_run [OF b] same_mystrtoll [OF m(1)] same_mystrtoull [OF m(2)] same_trans by blast
  then show ?thesis using parse_opts_run [OF b] by (auto simp: args g del: mod_0_imp_dvd)
qed

lemma length_strncpy0 [simp]: "length (strncpy0 t n) = n"
  by (simp add: strncpy0_def min_def)

lemma strncpy0_terminated:
  assumes "NUL \<notin> set t"
  shows "NUL \<in> set (strncpy0 t n) \<longleftrightarrow> length t < n"
proof (cases "length t < n")
  case True
  then show ?thesis by (auto simp: strncpy0_def)
next
  case False
  then show ?thesis using assms by (auto simp: strncpy0_def dest: in_set_takeD)
qed

text \<open>\<^verbatim>\<open>WriteIO\<close> from its arguments on, all calls complete.\<close>

lemma do_open_good:
  "answers s = [] \<Longrightarrow> find_flags cmd_opt open_flag_array \<noteq> 0 \<Longrightarrow> do_open cmd_opt s = Inr (3, s\<lparr>fd_off := 0\<rparr>)"
  by (simp add: do_open_def next_answer_def bnd_def thn_def)

lemma args_msg_run:
  assumes "NUL \<in> set (in_str args)"
  shows "\<exists>t. args_msg u v args s = Inr ((), s\<lparr>out := out s @ t\<rparr>)"
  using assms by (simp add: args_msg_def buf_str_def bnd_def say_def) (intro exI, rule refl)

lemma WriteIO_run:
  assumes args: "CheckArgs getopt argv 3 s = Inr (Inr args, s1)"
    "args = \<lparr>bs = of_nat B, offset = of_nat D, counts = of_nat C, dev_path = dp, in_str = t\<rparr>"
    and ok: "answers s = []" "find_flags (argv ! 1) open_flag_array \<noteq> 0" "NUL \<in> set t"
    and fill: "fill_str (cstr t) 0 (map (fresh s) [0..<B]) = Inr data" "length data = B"
    and sz: "0 < B" "0 < C" "B * C < 18446744073709551616" "C \<le> 2147483647"
      "block_pos (512 * D) B (C - 1) + B < 9223372036854775808"
  shows "\<exists>s'. WriteIO getopt argv s = Inr (Some 0, s') \<and>
    volume s' = fold (\<lambda>k v. overwrite v (block_pos (512 * D) B k) data) [0..<C] (volume s)"
proof -
  have s1: "answers s1 = []" "volume s1 = volume s" "fresh s1 = fresh s"
    using CheckArgs_run [OF args(1)] ok(1) by (auto simp: same_def)
  obtain m where am: "args_msg ''B'' ''bs'' args s1 = Inr ((), s1\<lparr>out := out s1 @ m\<rparr>)"
    using args_msg_run [of args "''B''" "''bs''" s1] ok(3) args(2) by auto
  define s2 where "s2 = s1\<lparr>out := out s1 @ m\<rparr>"
  have s2: "answers s2 = []" "volume s2 = volume s" "fresh s2 = fresh s" using s1 by (simp_all add: s2_def)
  define s3 where "s3 = s2\<lparr>fd_off := 0, out := out s2 @ (''* Successfully opened ['' @ argv ! 1 @ ''IO WRITE].'' @ [NL])\<rparr>"
  have s3: "answers s3 = []" "volume s3 = volume s" "fresh s3 = fresh s" using s2 by (simp_all add: s3_def)
  have op: "say (''* Successfully opened ['' @ argv ! 1 @ ''IO WRITE].'' @ [NL]) (s2\<lparr>fd_off := 0\<rparr>) = Inr ((), s3)"
    by (simp add: say_def s3_def)
  have uB: "unat (of_nat B :: off) = B" "unat (of_nat (B * C) :: off) = B * C" "unat (of_nat C :: off) = C"
    using sz by (intro of_nat_off; simp)+
  have al: "alloc (of_nat B) s3 = Inr (Some (map (fresh s) [0..<B]), s3)"
    using s3 by (simp add: alloc_def next_answer_def bnd_def uB)
  have bp: "512 * D + B * 0 = block_pos (512 * D) B 0" by (simp add: block_pos_def)
  have "unat (of_nat (B * C) div of_nat B :: off) = C" "unat (of_nat (B * C) mod of_nat B :: off) = 0"
    by (simp_all only: unat_div unat_mod uB) (use sz(1) in simp_all)
  then have dv: "unat (of_nat B * of_nat C div of_nat B :: off) = C" "(of_nat B * of_nat C mod of_nat B :: off) = 0"
    by (simp_all add: unsigned_eq_0_iff)
  have b0: "(of_nat B :: off) \<noteq> 0" using uB(1) sz(1) by (metis unsigned_0 less_irrefl)
  have "C = 0 \<or> block_pos (512 * D) B (0 + C - 1) + B < 9223372036854775808" "0 + C \<le> 2147483647" using sz by simp_all
  from write_blocks_run [OF s3(1) fill(2) sz(1) this bp] obtain s' q where
    wb: "write_blocks data (of_nat B) 0 C (of_nat (512 * D)) s3 = Inr (Some q, s')"
    "volume s' = fold (\<lambda>k v. overwrite v (block_pos (512 * D) B k) data) [0..<C] (volume s)"
    using s3(2) by auto
  have wb': "write_blocks data (of_nat B) 0 C (of_nat D * 512) s3 = Inr (Some q, s')"
    using wb(1) by (simp add: mult.commute)
  have f: "bs args = of_nat B" "offset args = of_nat D" "counts args = of_nat C" "in_str args = t"
    by (simp_all add: args(2))
  have bt: "buf_str ''in'' t s3 = Inr (cstr t, s3)" using ok(3) by (simp add: buf_str_def)
  have n3: "((3::int) < 0) = False" by simp
  have "WriteIO getopt argv s = Inr (Some 0, s'\<lparr>out := out s' @ ''done'' @ [NL]\<rparr>)"
    by (simp only: WriteIO_def thn_def bnd_def args(1) am [folded s2_def] sum.case prod.case option.case Let_def f
        do_open_good [OF s2(1) ok(2)] n3 if_False op al bt)
      (simp add: fill(1) dv wb' b0 lift_io_def require_def say_def)
  then show ?thesis using wb(2) by simp
qed

end
