(* ===== verification/Iotool_Properties.thy ===== *)
theory Iotool_Properties
  imports Iotool_Props
begin

text \<open>
  What the engines of \<^verbatim>\<open>iotool.c\<close> do to the volume, and where they miss what they are
  asked for.
\<close>

definition blank_io :: io where
  "blank_io = \<lparr>volume = [], fd_off = 0, out = [], answers = [], errno = 0, fresh = (\<lambda>_. CHR ''?'')\<rparr>"

text \<open>
  C36. \<^verbatim>\<open>wrbyteschar\<close> writes exactly the range it is given: as long as no call fails,
  however little a \<^verbatim>\<open>pwrite\<close> takes at a time, the loop ends and the volume has the
  character in every byte of the range and is unchanged elsewhere.
\<close>

theorem wr_bytes_char_writes_range:
  assumes "\<forall>a \<in> set (answers s). \<forall>e. a \<noteq> Bad e" and "0 < cnt" and "p + cnt < 9223372036854775808"
  shows "\<exists>s'. do_wr_bytes_char_fd (of_nat p) (of_nat cnt) c s = Inr (0, s') \<and>
    volume s' = overwrite (volume s) p (replicate cnt c)"
  using assms wr_bytes_char_run [of s cnt p c] by (simp add: no_bad_def)

lemma five_x: "replicate 5 CHR ''x'' = ''xxxxx''"
  by (simp add: numeral_eq_Suc)

theorem wr_bytes_char_writes_range_witness:
  "\<exists>s'. do_wr_bytes_char_fd (of_nat 1) (of_nat 5) CHR ''x'' (blank_io\<lparr>answers := [Good, Part 2, Part 0, Part 1]\<rparr>) =
      Inr (0, s') \<and> volume s' = NUL # ''xxxxx''"
  using wr_bytes_char_writes_range [of "blank_io\<lparr>answers := [Good, Part 2, Part 0, Part 1]\<rparr>" 5 1 "CHR ''x''"]
  by (auto simp: blank_io_def overwrite_def five_x)



text \<open>
  C38. The loop that fills a buffer with copies of a string ends well only if the string is
  not empty and its length does not divide the buffer's: an empty one never ends, and the
  null byte behind a last copy that fits exactly is written outside. Otherwise the buffer
  holds as many copies as fit, a null byte and whatever the memory held before.
\<close>

theorem fill_str_exact:
  "fill_str str 0 buf =
    (let l = length str; n = length buf
     in if l = 0 then Inl (if n = 0 then Outside ''buf'' else Forever)
        else if 0 < n \<and> l dvd n then Inl (Outside ''buf'')
        else Inr (concat (replicate (n div l) str) @ (if l \<le> n then NUL # drop (n div l * l + 1) buf else buf)))"
proof (cases "str = []")
  case True
  then show ?thesis by (simp add: fill_str.simps Let_def)
next
  case False
  then show ?thesis using fill_str_from [of str "[]" buf] by (simp add: Let_def)
qed

text \<open>
  C39. \<^verbatim>\<open>WriteIO\<close> adds the growing \<^verbatim>\<open>bs * i\<close> to its running offset: block \<open>k\<close> goes to
  \<open>offset + bs * (k * (k + 1) / 2)\<close>. With three or more blocks it leaves gaps and writes
  far behind the range that \<^verbatim>\<open>ReadIO\<close> reads back block by block. Every call complete, this
  is exactly what it does to the volume.
\<close>

theorem WriteIO_block_positions:
  assumes "CheckArgs getopt argv 3 s = Inr (Inr \<lparr>bs = of_nat B, offset = of_nat D, counts = of_nat C,
      dev_path = dp, in_str = t\<rparr>, s1)"
    and "answers s = []" and "find_flags (argv ! 1) open_flag_array \<noteq> 0"
    and "NUL \<in> set t" and "cstr t \<noteq> []" and "\<not> length (cstr t) dvd B"
    and "0 < C" and "B * C < 18446744073709551616" and "C \<le> 2147483647"
    and "512 * D + B * ((C - 1) * C div 2) + B < 9223372036854775808"
  shows "\<exists>s' data. fill_str (cstr t) 0 (map (fresh s) [0..<B]) = Inr data \<and> length data = B \<and>
    WriteIO getopt argv s = Inr (Some 0, s') \<and>
    volume s' = fold (\<lambda>k v. overwrite v (512 * D + B * (k * (k + 1) div 2)) data) [0..<C] (volume s)"
proof -
  have B: "0 < B" using assms(6) by (cases B) auto
  have bp: "block_pos (512 * D) B (C - 1) + B < 9223372036854775808" using assms(7,10) by (simp add: block_pos_def)
  obtain data where f: "fill_str (cstr t) 0 (map (fresh s) [0..<B]) = Inr data"
    using fill_str_from [OF assms(5), of "[]" "map (fresh s) [0..<B]"] assms(6) by (simp add: Let_def)
  note d = f length_fill_str [OF f, unfolded length_map length_upt diff_zero]
  from WriteIO_run [OF assms(1) refl assms(2-4) d B assms(7-9) bp] d show ?thesis
    by (auto simp: block_pos_def)
qed

definition plain_getopt :: getopt where
  "plain_getopt argv = ([], drop 4 argv)"

definition example_argv :: "string list" where
  "example_argv = [''iotool'', ''b'', ''W'', ''disk.img'', ''0'', ''3'', ''abc'']"

definition example_args :: Args where
  "example_args = \<lparr>bs = of_nat 512, offset = of_nat 0, counts = of_nat 3,
     dev_path = strncpy0 ''disk.img'' 64, in_str = strncpy0 ''abc'' 64\<rparr>"

lemma example_check: "CheckArgs plain_getopt example_argv 3 blank_io = Inr (Inr example_args, blank_io)"
proof -
  have "strto ''0'' = (True, 0)" "strto ''3'' = (True, 3)" by code_simp+
  then show ?thesis
    by (simp add: CheckArgs_def plain_getopt_def example_argv_def example_args_def mystrtoll_def mystrtoull_def strtoull_def strtoll_def
      bnd_def blank_io_def ULLONG_MAX_def LONG_MAX_def LONG_MIN_def Let_def cstr_def)
qed

theorem WriteIO_block_positions_witness:
  "\<exists>s' data. WriteIO plain_getopt example_argv blank_io = Inr (Some 0, s') \<and> length data = 512 \<and>
     volume s' = overwrite (overwrite (overwrite [] 0 data) 512 data) 1536 data"
proof -
  have t: "cstr (strncpy0 ''abc'' 64) = ''abc''" "NUL \<in> set (strncpy0 ''abc'' 64)"
    by (simp_all add: strncpy0_def cstr_def)
  have f: "find_flags (example_argv ! 1) open_flag_array \<noteq> 0" by code_simp
  have "answers blank_io = []" "volume blank_io = []" "\<not> 3 dvd (512 :: nat)" by (simp_all add: blank_io_def)
  with WriteIO_block_positions [OF example_check [unfolded example_args_def] _ f t(2)] t(1)
  show ?thesis by (auto simp: numeral_3_eq_3)
qed

text \<open>
  What \<^verbatim>\<open>CheckArgs\<close> accepts is well formed: the block size is at most 64 MB and, for
  direct I/O, a multiple of 512; both texts have 64 bytes. It does not keep them
  terminated: an input of 64 or more characters has no null byte.
\<close>

lemma CheckArgs_well_formed:
  assumes "CheckArgs getopt argv 3 s = Inr (Inr args, s')" and "NUL \<notin> set (snd (getopt argv) ! 2)"
  shows "unat (bs args) \<le> 67108864 \<and>
    (str_eq_case (argv ! 1) ''d'' \<or> str_eq_case (argv ! 1) ''direct'' \<longrightarrow> bs args mod 512 = 0) \<and>
    length (dev_path args) = 64 \<and> length (in_str args) = 64 \<and>
    (NUL \<in> set (in_str args) \<longleftrightarrow> length (snd (getopt argv) ! 2) < 64) \<and> volume s' = volume s"
  using CheckArgs_run [OF assms(1)] strncpy0_terminated [OF assms(2), of 64]
  by (simp add: same_def)

end
