(* ===== verification/Fmem.thy ===== *)
theory Fmem
  imports Posix_File "HOL-Library.Word"
begin

text \<open>
  Memory streams, \<^verbatim>\<open>apue.3e/exercises/fmemopen.c\<close>: the stream structure over a buffer of
  the caller or of its own, and the functions the standard I/O library calls to read, write
  and seek. Sizes are natural numbers; where the code puts one into an \<^verbatim>\<open>int\<close> its low 32
  bits are taken. The library's own buffering is not part of the code.
\<close>

unbundle bit_operations_syntax

section \<open>Definitions\<close>

record memstream =
  ms_buf :: "char list"
  rsize :: nat
  vsize :: nat
  curpos :: nat
  ms_flags :: "32 word"

definition MS_READ :: "32 word" where "MS_READ = 0x01"
definition MS_WRITE :: "32 word" where "MS_WRITE = 0x02"
definition MS_APPEND :: "32 word" where "MS_APPEND = 0x04"
definition MS_TRUNCATE :: "32 word" where "MS_TRUNCATE = 0x08"
definition MS_MYBUF :: "32 word" where "MS_MYBUF = 0x10"

text \<open>Failures: the value of \<^verbatim>\<open>errno\<close> a call leaves, or an access outside the buffer.\<close>

datatype ms_err = Errno string | OutOfBuf

definition has_flag :: "32 word \<Rightarrow> 32 word \<Rightarrow> bool" where
  "has_flag fl m \<longleftrightarrow> fl AND m \<noteq> 0"

definition has_flags :: "32 word \<Rightarrow> 32 word \<Rightarrow> bool" where
  "has_flags fl m \<longleftrightarrow> fl AND m = m"

text \<open>A size stored in an \<^verbatim>\<open>int\<close>, and an \<^verbatim>\<open>int\<close> used as a size.\<close>

definition to_int :: "int \<Rightarrow> int" where
  "to_int v = sint (word_of_int v :: 32 word)"

definition to_size :: "int \<Rightarrow> nat" where
  "to_size v = nat (v mod 2 ^ 64)"

definition flag_step :: "32 word \<Rightarrow> char \<Rightarrow> 32 word option" where
  "flag_step fl c =
     (if c = CHR ''r'' then if fl \<noteq> 0 then None else Some (fl OR MS_READ)
      else if c = CHR ''w'' then if fl \<noteq> 0 then None else Some (fl OR (MS_WRITE OR MS_TRUNCATE))
      else if c = CHR ''a'' then if fl \<noteq> 0 then None else Some (fl OR MS_APPEND)
      else if c = CHR ''+'' then if fl = 0 then None else Some (fl OR (MS_READ OR MS_WRITE))
      else if c = CHR ''b'' then if fl = 0 then None else Some fl
      else None)"

fun type_loop :: "string \<Rightarrow> 32 word \<Rightarrow> 32 word" where
  "type_loop [] fl = fl"
| "type_loop (c # cs) fl = (case flag_step fl c of None \<Rightarrow> 0 | Some fl' \<Rightarrow> type_loop cs fl')"

definition type_to_flags :: "string \<Rightarrow> 32 word" where
  "type_to_flags type = type_loop type 0"

function end_loop :: "char list \<Rightarrow> nat \<Rightarrow> nat \<Rightarrow> nat" where
  "end_loop b len p = (if p < len then if b ! p = NUL then p else end_loop b len (Suc p) else p)"
  by pat_completeness auto
termination by (relation "measure (\<lambda>(b, len, p). len - p)") auto

text \<open>\<^verbatim>\<open>find_end\<close>.\<close>

definition buf_end :: "char list \<Rightarrow> nat \<Rightarrow> nat" where
  "buf_end b len = end_loop b len 0"

text \<open>
  \<^verbatim>\<open>fmemopen\<close>; \<open>ok1\<close> and \<open>ok2\<close> say whether the allocations of the structure
  and of a buffer succeed, \<open>fresh\<close> is the new memory, \<open>fun_ok\<close> the success of
  \<^verbatim>\<open>funopen\<close>.
\<close>

definition fmemopen ::
  "bool \<Rightarrow> bool \<Rightarrow> bool \<Rightarrow> (nat \<Rightarrow> char) \<Rightarrow> char list option \<Rightarrow> nat \<Rightarrow> string \<Rightarrow> ms_err + memstream" where
  "fmemopen ok1 ok2 fun_ok fresh b n type =
     (if n = 0 then Inl (Errno ''EINVAL'')
      else if \<not> ok1 then Inl (Errno ''ENOMEM'')
      else let fl = type_to_flags type in
      if fl = 0 then Inl (Errno ''EINVAL'')
      else let opened =
        (case b of
           None \<Rightarrow>
             if \<not> has_flags fl (MS_READ OR MS_WRITE) then Inl (Errno ''EINVAL'')
             else if \<not> ok2 then Inl (Errno ''ENOMEM'')
             else Inr (map fresh [0..<n], fl OR MS_MYBUF, 0)
         | Some b' \<Rightarrow> Inr (b', fl, if has_flag fl MS_APPEND then buf_end b' n else 0))
      in case opened of
           Inl e \<Rightarrow> Inl e
         | Inr (b', fl, p) \<Rightarrow>
             if \<not> fun_ok then Inl (Errno ''funopen'')
             else Inr \<lparr>ms_buf = b', rsize = n,
               vsize = (if has_flag fl MS_APPEND then p else if has_flag fl MS_TRUNCATE then 0 else n),
               curpos = p, ms_flags = fl\<rparr>)"

text \<open>\<^verbatim>\<open>memcpy\<close> from and to the stream's buffer, with the bounds it needs.\<close>

definition peek_buf :: "memstream \<Rightarrow> nat \<Rightarrow> nat \<Rightarrow> ms_err + char list" where
  "peek_buf ms p n = (if p + n \<le> length (ms_buf ms) then Inr (slice_at p n (ms_buf ms)) else Inl OutOfBuf)"

definition poke_buf :: "nat \<Rightarrow> char list \<Rightarrow> memstream \<Rightarrow> ms_err + memstream" where
  "poke_buf p bs ms =
     (if p + length bs \<le> length (ms_buf ms) then Inr (ms\<lparr>ms_buf := overwrite (ms_buf ms) p bs\<rparr>) else Inl OutOfBuf)"

definition mstream_read :: "nat \<Rightarrow> memstream \<Rightarrow> ms_err + (char list \<times> memstream)" where
  "mstream_read len ms =
     (if \<not> has_flag (ms_flags ms) MS_READ then Inl (Errno ''EBADF'')
      else if curpos ms \<ge> vsize ms then Inr ([], ms)
      else let nr = to_int (int (min len (vsize ms - curpos ms)))
           in case peek_buf ms (curpos ms) (to_size nr) of
                Inl e \<Rightarrow> Inl e
              | Inr bs \<Rightarrow> Inr (bs, ms\<lparr>curpos := to_size (int (curpos ms) + nr)\<rparr>))"

definition mstream_write :: "char list \<Rightarrow> memstream \<Rightarrow> ms_err + (int \<times> memstream)" where
  "mstream_write bs ms =
     (if \<not> has_flag (ms_flags ms) (MS_APPEND OR MS_WRITE) then Inl (Errno ''EBADF'')
      else let off = to_int (int (if has_flag (ms_flags ms) MS_APPEND then vsize ms else curpos ms));
               nw = to_int (int (min (length bs) (to_size (int (rsize ms) - off))))
      in case poke_buf (to_size off) (take (to_size nw) bs) ms of
           Inl e \<Rightarrow> Inl e
         | Inr ms1 \<Rightarrow>
      let ms2 = ms1\<lparr>curpos := to_size (off + nw)\<rparr>
      in case (if curpos ms2 > vsize ms2 then
                 let ms3 = ms2\<lparr>vsize := curpos ms2\<rparr>
                 in if has_flags (ms_flags ms3) (MS_READ OR MS_WRITE) \<and> vsize ms3 < rsize ms3
                    then poke_buf (vsize ms3) [NUL] ms3 else Inr ms3
               else Inr ms2) of
           Inl e \<Rightarrow> Inl e
         | Inr ms4 \<Rightarrow>
      (case (if has_flag (ms_flags ms4) (MS_WRITE OR MS_APPEND) \<and> \<not> has_flag (ms_flags ms4) MS_READ then
               if curpos ms4 < rsize ms4 then poke_buf (curpos ms4) [NUL] ms4
               else poke_buf (rsize ms4 - 1) [NUL] ms4
             else Inr ms4) of
         Inl e \<Rightarrow> Inl e
       | Inr ms5 \<Rightarrow> Inr (nw, ms5)))"

definition mstream_seek :: "int \<Rightarrow> whence \<Rightarrow> memstream \<Rightarrow> ms_err + (int \<times> memstream)" where
  "mstream_seek p w ms =
     (let off = to_int (case w of SEEK_SET \<Rightarrow> p | SEEK_END \<Rightarrow> int (vsize ms) + p | SEEK_CUR \<Rightarrow> int (curpos ms) + p)
      in if off < 0 \<or> off > int (vsize ms) then Inl (Errno ''EINVAL'')
         else Inr (off, ms\<lparr>curpos := nat off\<rparr>))"

text \<open>Closing returns 0 and frees the buffer exactly if it is the stream's own.\<close>

definition mstream_close :: "memstream \<Rightarrow> int \<times> bool" where
  "mstream_close ms = (0, has_flag (ms_flags ms) MS_MYBUF)"

section \<open>Sizes and flags\<close>

lemma to_int_small: "- 2147483648 \<le> v \<Longrightarrow> v < 2147483648 \<Longrightarrow> to_int v = v"
  by (simp add: to_int_def signed_of_int signed_take_bit_int_eq_self)

lemma to_size_small: "0 \<le> v \<Longrightarrow> v < 18446744073709551616 \<Longrightarrow> to_size v = nat v"
  by (simp add: to_size_def mod_pos_pos_trivial)

lemma buf_end_bound: "p \<le> len \<Longrightarrow> end_loop b len p \<le> len"
  by (induction b len p rule: end_loop.induct) simp

text \<open>The end of the text in a buffer is its length as a string.\<close>

lemma end_loop_cstr:
  assumes "p \<le> length b"
  shows "end_loop b (length b) p = p + length (cstr (drop p b))"
  using assms
proof (induction b "length b" p rule: end_loop.induct)
  case (1 b p)
  show ?case
  proof (cases "p < length b")
    case True
    then have d: "drop p b = b ! p # drop (Suc p) b" by (rule Cons_nth_drop_Suc [symmetric])
    show ?thesis using 1 True d by (simp add: end_loop.simps [of b _ p] cstr_def)
  next
    case False
    then show ?thesis using 1 by (simp add: end_loop.simps [of b _ p] cstr_def)
  qed
qed

lemma buf_end_cstr: "buf_end b (length b) = length (cstr b)"
  using end_loop_cstr [of 0 b] by (simp add: buf_end_def)

text \<open>The modes for reading and writing.\<close>

definition update_mode :: "32 word \<Rightarrow> bool" where
  "update_mode fl \<longleftrightarrow> has_flags fl (MS_READ OR MS_WRITE)"

lemma update_mode_flags:
  assumes "update_mode fl"
  shows "has_flag fl MS_READ" "has_flag fl (MS_APPEND OR MS_WRITE)" "has_flags fl (MS_READ OR MS_WRITE)"
proof -
  have three: "fl AND 3 = 3" using assms by (simp add: update_mode_def has_flags_def MS_READ_def MS_WRITE_def)
  have "fl AND 1 = (fl AND 3) AND 1" "fl AND 2 = (fl AND 3) AND 2" "fl AND 2 = (fl AND 6) AND 2"
    by (simp_all add: and.assoc)
  with three have "fl AND 1 = 1" "fl AND 2 = 2" "fl AND 6 \<noteq> 0" by auto
  then show "has_flag fl MS_READ" "has_flag fl (MS_APPEND OR MS_WRITE)"
    by (simp_all add: has_flag_def MS_READ_def MS_WRITE_def MS_APPEND_def)
  show "has_flags fl (MS_READ OR MS_WRITE)" using assms by (simp add: update_mode_def)
qed

section \<open>The contract of a memory stream\<close>

text \<open>
  A file of bounded size with a position: what a sequence of reads, writes and seeks on a
  stream opened for update should do.
\<close>

datatype mop = Rd nat | Wr "char list" | Sk int whence

datatype mres = Bytes "char list" | Num int | Fails

fun file_op :: "nat \<Rightarrow> bool \<Rightarrow> mop \<Rightarrow> char list \<times> nat \<Rightarrow> mres \<times> char list \<times> nat" where
  "file_op cap app (Rd n) (xs, p) = (Bytes (slice_at p n xs), xs, p + min n (length xs - p))"
| "file_op cap app (Wr bs) (xs, p) =
     (let o' = (if app then length xs else p); w = take (cap - o') bs
      in (Num (int (length w)), overwrite xs o' w, o' + length w))"
| "file_op cap app (Sk d w) (xs, p) =
     (let t = (case w of SEEK_SET \<Rightarrow> d | SEEK_END \<Rightarrow> int (length xs) + d | SEEK_CUR \<Rightarrow> int p + d)
      in if t < 0 \<or> int (length xs) < t then (Fails, xs, p) else (Num t, xs, nat t))"

fun file_run :: "('o \<Rightarrow> 's \<Rightarrow> 'r \<times> 's) \<Rightarrow> 'o list \<Rightarrow> 's \<Rightarrow> 'r list" where
  "file_run f [] s = []"
| "file_run f (x # xs) s = (case f x s of (r, s') \<Rightarrow> r # file_run f xs s')"

locale bounded_file =
  fixes rep :: "'s \<Rightarrow> char list \<times> nat \<Rightarrow> bool" and op :: "mop \<Rightarrow> 's \<Rightarrow> mres \<times> 's"
    and legal :: "mop \<Rightarrow> bool" and cap :: nat and app :: bool
  assumes op_law: "rep s a \<Longrightarrow> legal x \<Longrightarrow> file_op cap app x a = (r, a') \<Longrightarrow> \<exists>s'. op x s = (r, s') \<and> rep s' a'"
begin

lemma run_law: "rep s a \<Longrightarrow> list_all legal xs \<Longrightarrow> file_run op xs s = file_run (file_op cap app) xs a"
proof (induction xs arbitrary: s a)
  case (Cons x xs)
  obtain r a' where r: "file_op cap app x a = (r, a')" by (cases "file_op cap app x a")
  with op_law [of s a x r a'] Cons.prems obtain s' where "op x s = (r, s')" "rep s' a'" by auto
  with r Cons show ?case by simp
qed simp

end

text \<open>The functions of the code under that contract.\<close>

fun ms_op :: "mop \<Rightarrow> memstream option \<Rightarrow> mres \<times> memstream option" where
  "ms_op x None = (Fails, None)"
| "ms_op (Rd n) (Some ms) =
     (case mstream_read n ms of Inl OutOfBuf \<Rightarrow> (Fails, None) | Inl _ \<Rightarrow> (Fails, Some ms)
      | Inr (bs, ms') \<Rightarrow> (Bytes bs, Some ms'))"
| "ms_op (Wr bs) (Some ms) =
     (case mstream_write bs ms of Inl OutOfBuf \<Rightarrow> (Fails, None) | Inl _ \<Rightarrow> (Fails, Some ms)
      | Inr (n, ms') \<Rightarrow> (Num n, Some ms'))"
| "ms_op (Sk d w) (Some ms) =
     (case mstream_seek d w ms of Inl OutOfBuf \<Rightarrow> (Fails, None) | Inl _ \<Rightarrow> (Fails, Some ms)
      | Inr (n, ms') \<Rightarrow> (Num n, Some ms'))"

definition ms_inv :: "memstream \<Rightarrow> bool" where
  "ms_inv ms \<longleftrightarrow> length (ms_buf ms) = rsize ms \<and> curpos ms \<le> vsize ms \<and> vsize ms \<le> rsize ms \<and> rsize ms < 2147483648"

definition ms_rep :: "nat \<Rightarrow> bool \<Rightarrow> memstream option \<Rightarrow> char list \<times> nat \<Rightarrow> bool" where
  "ms_rep cap app m a \<longleftrightarrow>
     (\<exists>ms. m = Some ms \<and> ms_inv ms \<and> update_mode (ms_flags ms) \<and> rsize ms = cap \<and>
        has_flag (ms_flags ms) MS_APPEND = app \<and> a = (take (vsize ms) (ms_buf ms), curpos ms))"

definition ms_legal :: "nat \<Rightarrow> mop \<Rightarrow> bool" where
  "ms_legal cap x \<longleftrightarrow>
     (case x of Rd n \<Rightarrow> n < 2147483648 | Wr bs \<Rightarrow> length bs < 2147483648
      | Sk d _ \<Rightarrow> - 2147483648 \<le> d \<and> d + int cap < 2147483648)"

lemma read_law:
  assumes "ms_inv ms" and "update_mode (ms_flags ms)" and "n < 2147483648"
  shows "mstream_read n ms = Inr (slice_at (curpos ms) n (take (vsize ms) (ms_buf ms)),
    ms\<lparr>curpos := curpos ms + min n (vsize ms - curpos ms)\<rparr>)"
proof (cases "curpos ms < vsize ms")
  case True
  let ?k = "min n (vsize ms - curpos ms)"
  have k: "to_int (int ?k) = int ?k" "to_size (int ?k) = ?k" "to_size (int (curpos ms) + int ?k) = curpos ms + ?k"
    using assms True by (auto simp: ms_inv_def intro!: to_int_small to_size_small [THEN trans])
  have "slice_at (curpos ms) ?k (ms_buf ms) = slice_at (curpos ms) n (take (vsize ms) (ms_buf ms))"
    using assms by (simp add: slice_at_def drop_take min.commute)
  moreover have "curpos ms + ?k \<le> length (ms_buf ms)" using assms(1) by (auto simp: ms_inv_def min_def)
  ultimately show ?thesis
    using True k update_mode_flags [OF assms(2)]
    by (simp add: mstream_read_def Let_def peek_buf_def)
next
  case False
  then show ?thesis
    using assms update_mode_flags [OF assms(2)] by (simp add: mstream_read_def slice_at_def ms_inv_def)
qed

lemma seek_law:
  assumes "ms_inv ms" and "ms_legal (rsize ms) (Sk d w)"
    and "t = (case w of SEEK_SET \<Rightarrow> d | SEEK_END \<Rightarrow> int (vsize ms) + d | SEEK_CUR \<Rightarrow> int (curpos ms) + d)"
  shows "mstream_seek d w ms = (if t < 0 \<or> int (vsize ms) < t then Inl (Errno ''EINVAL'') else Inr (t, ms\<lparr>curpos := nat t\<rparr>))"
proof -
  have "to_int t = t"
    using assms by (intro to_int_small; cases w) (auto simp: ms_inv_def ms_legal_def)
  then show ?thesis unfolding mstream_seek_def Let_def assms(3) [symmetric] by auto
qed

lemma take_overwrite: "p \<le> length xs \<Longrightarrow> take p (overwrite xs p bs) = take p xs"
  by (simp add: overwrite_def)

lemma write_law:
  assumes inv: "ms_inv ms" and up: "update_mode (ms_flags ms)" and len: "length bs < 2147483648"
    and o': "o' = (if has_flag (ms_flags ms) MS_APPEND then vsize ms else curpos ms)"
    and w: "w = take (rsize ms - o') bs"
  shows "\<exists>ms'. mstream_write bs ms = Inr (int (length w), ms') \<and> ms_inv ms' \<and> ms_flags ms' = ms_flags ms \<and>
    rsize ms' = rsize ms \<and> curpos ms' = o' + length w \<and>
    take (vsize ms') (ms_buf ms') = overwrite (take (vsize ms) (ms_buf ms)) o' w"
proof -
  let ?n = "length w" and ?b = "overwrite (ms_buf ms) o' w"
  have sz: "o' \<le> vsize ms" "vsize ms \<le> rsize ms" "rsize ms < 2147483648" "length (ms_buf ms) = rsize ms" "?n \<le> rsize ms - o'"
    using inv o' w by (auto simp: ms_inv_def split: if_splits)
  have n: "min (length bs) (rsize ms - o') = ?n" "take ?n bs = w" using w by (auto simp: min_def)
  have cv: "to_int (int o') = int o'" "to_size (int o') = o'" "to_size (int (rsize ms) - int o') = rsize ms - o'"
    "to_int (int ?n) = int ?n" "to_size (int ?n) = ?n" "to_size (int o' + int ?n) = o' + ?n"
    using sz by (auto intro!: to_int_small to_size_small [THEN trans])
  have pk: "poke_buf o' w ms = Inr (ms\<lparr>ms_buf := ?b\<rparr>)" using sz by (simp add: poke_buf_def)
  have lb: "length ?b = rsize ms" using sz by (simp add: overwrite_inside)
  note fl = update_mode_flags [OF up]
  show ?thesis
  proof (cases "vsize ms < o' + ?n")
    case False
    let ?m = "ms\<lparr>ms_buf := ?b, curpos := o' + ?n\<rparr>"
    have "mstream_write bs ms = Inr (int ?n, ?m)"
      using False fl by (simp add: mstream_write_def Let_def o' [symmetric] cv n pk)
    moreover have "take (vsize ms) ?b = overwrite (take (vsize ms) (ms_buf ms)) o' w"
      using False sz by (simp add: overwrite_inside take_drop min_absorb1 min_absorb2)
    ultimately show ?thesis using False sz lb by (auto simp: ms_inv_def)
  next
    case True
    let ?m = "ms\<lparr>ms_buf := if o' + ?n < rsize ms then overwrite ?b (o' + ?n) [NUL] else ?b, curpos := o' + ?n, vsize := o' + ?n\<rparr>"
    have pn: "poke_buf p [NUL] (ms\<lparr>ms_buf := ?b, curpos := q, vsize := v\<rparr>) =
        Inr (ms\<lparr>ms_buf := overwrite ?b p [NUL], curpos := q, vsize := v\<rparr>)" if "p < rsize ms" for p q v
      using lb that by (simp add: poke_buf_def)
    have "mstream_write bs ms = Inr (int ?n, ?m)"
      using True fl lb pn by (simp add: mstream_write_def Let_def o' [symmetric] cv n pk)
    moreover have "take (o' + ?n) ?b = overwrite (take (vsize ms) (ms_buf ms)) o' w"
      using True sz by (simp add: overwrite_def min_absorb1)
    then have "take (vsize ?m) (ms_buf ?m) = overwrite (take (vsize ms) (ms_buf ms)) o' w"
      using lb by (simp add: take_overwrite)
    moreover have "length (ms_buf ?m) = rsize ms" using lb by (simp add: length_overwrite)
    then have "ms_inv ?m" using sz by (simp add: ms_inv_def)
    ultimately show ?thesis by (intro exI [of _ ?m]) simp
  qed
qed

lemma ms_op_law:
  assumes "ms_rep cap app m a" and "ms_legal cap x" and "file_op cap app x a = (r, a')"
  shows "\<exists>m'. ms_op x m = (r, m') \<and> ms_rep cap app m' a'"
proof -
  obtain ms where ms: "m = Some ms" "ms_inv ms" "update_mode (ms_flags ms)" "rsize ms = cap"
    "has_flag (ms_flags ms) MS_APPEND = app" "a = (take (vsize ms) (ms_buf ms), curpos ms)"
    using assms(1) by (auto simp: ms_rep_def)
  have lv: "length (take (vsize ms) (ms_buf ms)) = vsize ms" using ms(2) by (simp add: ms_inv_def)
  show ?thesis
  proof (cases x)
    case (Rd n)
    then show ?thesis
      using read_law [OF ms(2,3), of n] assms(2,3) ms lv by (auto simp: ms_legal_def ms_rep_def ms_inv_def)
  next
    case (Wr bs)
    let ?o = "if app then vsize ms else curpos ms"
    obtain ms' where "mstream_write bs ms = Inr (int (length (take (cap - ?o) bs)), ms')" "ms_inv ms'" "ms_flags ms' = ms_flags ms"
      "rsize ms' = cap" "curpos ms' = ?o + length (take (cap - ?o) bs)"
      "take (vsize ms') (ms_buf ms') = overwrite (take (vsize ms) (ms_buf ms)) ?o (take (cap - ?o) bs)"
      using write_law [OF ms(2,3) _ refl refl, of bs] assms(2) ms(4,5) Wr by (auto simp: ms_legal_def)
    then show ?thesis using assms(3) ms lv Wr by (auto simp: ms_rep_def Let_def)
  next
    case (Sk d w)
    define t where "t = (case w of SEEK_SET \<Rightarrow> d | SEEK_END \<Rightarrow> int (vsize ms) + d | SEEK_CUR \<Rightarrow> int (curpos ms) + d)"
    have f: "file_op cap app x a = (if t < 0 \<or> int (vsize ms) < t then (Fails, a) else (Num t, take (vsize ms) (ms_buf ms), nat t))"
      unfolding Sk ms(6) file_op.simps lv t_def Let_def by (rule refl)
    have k: "mstream_seek d w ms = (if t < 0 \<or> int (vsize ms) < t then Inl (Errno ''EINVAL'') else Inr (t, ms\<lparr>curpos := nat t\<rparr>))"
      using seek_law [OF ms(2) _ t_def] assms(2) ms(4) Sk by simp
    show ?thesis
    proof (cases "t < 0 \<or> int (vsize ms) < t")
      case True
      then show ?thesis using f k assms(1,3) ms(1) Sk by auto
    next
      case False
      then show ?thesis using f k assms(3) ms Sk by (auto simp: ms_rep_def ms_inv_def)
    qed
  qed
qed

interpretation mstream: bounded_file "ms_rep cap app" ms_op "ms_legal cap" cap app
  by unfold_locales (rule ms_op_law)

section \<open>Opening\<close>

text \<open>Which types are accepted, and with which flags.\<close>

definition base_flags :: "char \<Rightarrow> 32 word" where
  "base_flags c = (if c = CHR ''r'' then 1 else if c = CHR ''w'' then 10 else 4)"

lemma type_loop_rest:
  assumes "fl \<noteq> 0"
  shows "type_loop cs fl =
    (if set cs \<subseteq> {CHR ''+'', CHR ''b''} then fl OR (if CHR ''+'' \<in> set cs then 3 else 0) else 0)"
  using assms
proof (induction cs arbitrary: fl)
  case (Cons c cs)
  have nz: "fl OR 3 \<noteq> 0" using Cons.prems by (metis or_eq_0_iff)
  have three: "(fl OR 3) OR 3 = fl OR 3" by (simp add: or.assoc)
  show ?case
    using Cons.IH [OF Cons.prems] Cons.IH [OF nz] Cons.prems three
    by (auto simp: flag_step_def MS_READ_def MS_WRITE_def)
qed simp

lemma type_to_flags_iff:
  "type_to_flags type =
    (if type \<noteq> [] \<and> hd type \<in> {CHR ''r'', CHR ''w'', CHR ''a''} \<and> set (tl type) \<subseteq> {CHR ''+'', CHR ''b''}
     then base_flags (hd type) OR (if CHR ''+'' \<in> set type then 3 else 0) else 0)"
proof (cases type)
  case Nil
  then show ?thesis by (simp add: type_to_flags_def)
next
  case (Cons c cs)
  then show ?thesis
    using type_loop_rest [of 1 cs] type_loop_rest [of 10 cs] type_loop_rest [of 4 cs]
    by (auto simp: type_to_flags_def flag_step_def base_flags_def MS_READ_def MS_WRITE_def MS_TRUNCATE_def MS_APPEND_def)
qed

definition start_file :: "char \<Rightarrow> (nat \<Rightarrow> char) \<Rightarrow> char list option \<Rightarrow> nat \<Rightarrow> char list \<times> nat" where
  "start_file m fresh b n =
     (if m = CHR ''r'' then (case b of None \<Rightarrow> map fresh [0..<n] | Some b' \<Rightarrow> b', 0)
      else if m = CHR ''w'' then ([], 0)
      else case b of None \<Rightarrow> ([], 0) | Some b' \<Rightarrow> (cstr b', length (cstr b')))"

lemma fmemopen_rep:
  assumes opn: "fmemopen ok1 ok2 fun_ok fresh b n type = Inr ms" and plus: "CHR ''+'' \<in> set type"
    and n: "n < 2147483648" and b: "\<And>b'. b = Some b' \<Longrightarrow> length b' = n"
  shows "ms_rep n (hd type = CHR ''a'') (Some ms) (start_file (hd type) fresh b n)"
proof -
  let ?fl = "type_to_flags type"
  have nz: "?fl \<noteq> 0" using opn by (auto simp: fmemopen_def Let_def split: if_splits)
  then have m: "hd type \<in> {CHR ''r'', CHR ''w'', CHR ''a''}" and fl: "?fl = base_flags (hd type) OR 3"
    using plus by (auto simp: type_to_flags_iff split: if_splits)
  have fl': "?fl = (if hd type = CHR ''r'' then 3 else if hd type = CHR ''w'' then 11 else 7)"
    unfolding fl using m by (auto simp: base_flags_def)
  have len: "\<forall>b'. b = Some b' \<longrightarrow> length (cstr b') \<le> n \<and> take (length (cstr b')) b' = cstr b'"
    using b length_takeWhile_le unfolding cstr_def by (metis takeWhile_eq_take)
  have q: "has_flag fl MS_APPEND = (hd type = CHR ''a'')" "has_flag fl MS_TRUNCATE = (hd type = CHR ''w'')"
    "has_flags fl (MS_READ OR MS_WRITE)" if "fl = ?fl \<or> fl = ?fl OR MS_MYBUF" for fl
    using m that unfolding fl'
    by (auto simp: has_flag_def has_flags_def MS_READ_def MS_WRITE_def MS_APPEND_def MS_TRUNCATE_def MS_MYBUF_def)
  show ?thesis
  proof (cases b)
    case None
    then have "ms = \<lparr>ms_buf = map fresh [0..<n], rsize = n,
        vsize = (if hd type = CHR ''a'' then 0 else if hd type = CHR ''w'' then 0 else n), curpos = 0, ms_flags = ?fl OR MS_MYBUF\<rparr>"
      using opn q [of ?fl] q [of "?fl OR MS_MYBUF"] nz by (simp add: fmemopen_def Let_def split: if_splits)
    then show ?thesis
      using None m n q [of "?fl OR MS_MYBUF"] by (auto simp: ms_rep_def ms_inv_def update_mode_def start_file_def)
  next
    case (Some b')
    then have "ms = \<lparr>ms_buf = b', rsize = n,
        vsize = (if hd type = CHR ''a'' then length (cstr b') else if hd type = CHR ''w'' then 0 else n),
        curpos = (if hd type = CHR ''a'' then length (cstr b') else 0), ms_flags = ?fl\<rparr>"
      using opn q [of ?fl] nz b [OF Some] buf_end_cstr [of b'] by (simp add: fmemopen_def Let_def split: if_splits)
    then show ?thesis
      using Some m n q [of ?fl] len b [OF Some] by (auto simp: ms_rep_def ms_inv_def update_mode_def start_file_def)
  qed
qed

lemma close_frees_own:
  assumes "fmemopen ok1 ok2 fun_ok fresh b n type = Inr ms"
  shows "mstream_close ms = (0, b = None)"
proof -
  have "has_flag (fl OR MS_MYBUF) MS_MYBUF" for fl 
    by (simp add: has_flag_def MS_MYBUF_def bit_eq_iff bit_simps exI [of _ 4])
  moreover have "\<not> has_flag (type_to_flags type) MS_MYBUF"
    by (auto simp: type_to_flags_iff base_flags_def has_flag_def MS_MYBUF_def)
  ultimately show ?thesis using assms
    by (auto simp: fmemopen_def mstream_close_def Let_def split: if_splits option.splits)
qed

end
