(* ===== verification/Fmem_Properties.thy ===== *)
theory Fmem_Properties
  imports Fmem
begin

text \<open>What the memory streams of \<^verbatim>\<open>exercises/fmemopen.c\<close> promise.\<close>

text \<open>
  C28. A stream that \<^verbatim>\<open>fmemopen\<close> opens for update (a type with a plus), over a buffer of
  the caller or of its own of less than two gigabytes, is a file of at most that size: any
  sequence of reads, writes and seeks with arguments below two gigabytes returns what the
  same sequence returns on a file that starts with the buffer's bytes (type \<open>r\<close>), with
  nothing (\<open>w\<close>) or with the buffer's text and the position behind it (\<open>a\<close>, where every
  write goes to the end), and is cut off at the size. No access leaves the buffer.
\<close>

theorem fmemopen_is_file:
  assumes "fmemopen ok1 ok2 fun_ok fresh b n type = Inr ms" and "CHR ''+'' \<in> set type"
    and "n < 2147483648" and "\<And>b'. b = Some b' \<Longrightarrow> length b' = n" and "list_all (ms_legal n) ops"
  shows "file_run ms_op ops (Some ms) = file_run (file_op n (hd type = CHR ''a'')) ops (start_file (hd type) fresh b n)"
  by (rule mstream.run_law [OF fmemopen_rep [OF assms(1-4)] assms(5)])

theorem fmemopen_is_file_witness:
  "\<exists>ms. fmemopen True True True (\<lambda>_. NUL) (Some ''ab......'') 8 ''r+b'' = Inr ms \<and>
     file_run ms_op [Rd 2, Wr ''cdefghij'', Sk (-1) SEEK_END, Rd 5] (Some ms) =
       [Bytes ''ab'', Num 6, Num 7, Bytes ''h'']"
proof -
  let ?b = "Some ''ab......''"
  obtain ms where ms: "fmemopen True True True (\<lambda>_. NUL) ?b 8 ''r+b'' = Inr ms"
    by (auto simp: fmemopen_def type_to_flags_def flag_step_def MS_READ_def MS_WRITE_def MS_APPEND_def Let_def)
  have "file_run ms_op [Rd 2, Wr ''cdefghij'', Sk (-1) SEEK_END, Rd 5] (Some ms) =
    file_run (file_op 8 (hd ''r+b'' = CHR ''a'')) [Rd 2, Wr ''cdefghij'', Sk (-1) SEEK_END, Rd 5] (start_file (hd ''r+b'') (\<lambda>_. NUL) ?b 8)"
    by (rule fmemopen_is_file [OF ms]) (simp_all add: ms_legal_def)
  also have "\<dots> = [Bytes ''ab'', Num 6, Num 7, Bytes ''h'']"
    by (simp add: start_file_def slice_at_def overwrite_def Let_def)
  finally show ?thesis using ms by blast
qed

end
