(* ===== verification/Foo_Table.thy ===== *)
theory Foo_Table
  imports C_Prelude
begin

text \<open>
  The reference-counted hash table of \<^verbatim>\<open>apue.3e/threads/mutex2.c\<close>, with its two kinds of
  locks and any interleaving of threads: the table's lock, under which the lists are changed,
  and a lock per object for its count. A thread is between two lock operations of the
  function it executes; a step runs it to the next point where it needs a lock or gives one
  up.
\<close>

section \<open>Definitions\<close>

record foo =
  f_count :: int
  f_id :: int
  f_next :: "nat option"

record table =
  objs :: "nat \<Rightarrow> foo option"
  obj_brk :: nat
  fh :: "nat \<Rightarrow> nat option"
  hashlock :: "nat option"
  f_lock :: "nat \<Rightarrow> nat option"

abbreviation (input) NHASH :: nat where "NHASH \<equiv> 29"

definition HASH :: "int \<Rightarrow> nat" where
  "HASH i = nat (i mod 2 ^ 64) mod NHASH"

text \<open>
  Where a thread is: \<open>AllocLock\<close> waits for the table's lock, \<open>AllocBoth\<close> has linked its
  object and waits for the object's lock, \<open>AllocInit\<close> initialises it; \<open>FindHold\<close> has
  found an object and waits for its lock, \<open>FindDone\<close> gives up the table's lock; \<open>ReleHash\<close>
  saw the last reference and waits for the table's lock, \<open>ReleBoth\<close> for the object's
  lock again, \<open>ReleFree\<close> has unlinked the object and frees it.
\<close>

datatype pc =
    Idle
  | AllocLock nat | AllocBoth nat | AllocInit nat
  | HoldLock nat
  | FindLock int | FindHold int nat | FindDone int "nat option"
  | ReleLock nat | ReleHash nat | ReleBoth nat | ReleFree nat

datatype tab_err = DeadPtr | NoEnd

subsection \<open>The lists\<close>

text \<open>The search of \<^verbatim>\<open>foo_find\<close> and of \<^verbatim>\<open>foo_rele\<close>; the first argument bounds their length.\<close>

fun scan :: "nat \<Rightarrow> table \<Rightarrow> int \<Rightarrow> nat option \<Rightarrow> tab_err + nat option" where
  "scan k s i None = Inr None"
| "scan 0 s i (Some fp) = Inl NoEnd"
| "scan (Suc k) s i (Some fp) =
     (case objs s fp of None \<Rightarrow> Inl DeadPtr
      | Some f \<Rightarrow> if f_id f = i then Inr (Some fp) else scan k s i (f_next f))"

fun find_prev :: "nat \<Rightarrow> table \<Rightarrow> nat \<Rightarrow> nat option \<Rightarrow> tab_err + nat" where
  "find_prev k s fp None = Inl DeadPtr"
| "find_prev 0 s fp (Some tfp) = Inl NoEnd"
| "find_prev (Suc k) s fp (Some tfp) =
     (case objs s tfp of None \<Rightarrow> Inl DeadPtr
      | Some f \<Rightarrow> if f_next f = Some fp then Inr tfp else find_prev k s fp (f_next f))"

definition set_next :: "nat \<Rightarrow> nat option \<Rightarrow> table \<Rightarrow> table" where
  "set_next a n s = s\<lparr>objs := (objs s)(a := map_option (\<lambda>f. f\<lparr>f_next := n\<rparr>) (objs s a))\<rparr>"

definition link :: "nat \<Rightarrow> table \<Rightarrow> tab_err + table" where
  "link fp s =
     (case objs s fp of None \<Rightarrow> Inl DeadPtr
      | Some f \<Rightarrow> let idx = HASH (f_id f); s' = set_next fp (fh s idx) s in Inr (s'\<lparr>fh := (fh s')(idx := Some fp)\<rparr>))"

definition unlink_obj :: "nat \<Rightarrow> table \<Rightarrow> tab_err + table" where
  "unlink_obj fp s =
     (case objs s fp of None \<Rightarrow> Inl DeadPtr
      | Some f \<Rightarrow>
          let idx = HASH (f_id f); tfp = fh s idx
          in if tfp = Some fp then Inr (s\<lparr>fh := (fh s)(idx := f_next f)\<rparr>)
             else case find_prev (obj_brk s) s fp tfp of
                 Inl e \<Rightarrow> Inl e
               | Inr p \<Rightarrow> Inr (set_next p (f_next f) s))"

definition add_count :: "nat \<Rightarrow> int \<Rightarrow> table \<Rightarrow> table" where
  "add_count a d s = s\<lparr>objs := (objs s)(a := map_option (\<lambda>f. f\<lparr>f_count := f_count f + d\<rparr>) (objs s a))\<rparr>"

subsection \<open>The functions\<close>

text \<open>The start of \<^verbatim>\<open>foo_alloc\<close>, up to the first lock; \<open>a\<close> is the memory it gets.\<close>

definition foo_new :: "nat \<Rightarrow> int \<Rightarrow> table \<Rightarrow> table" where
  "foo_new a i s =
     s\<lparr>objs := (objs s)(a \<mapsto> \<lparr>f_count = 1, f_id = i, f_next = None\<rparr>), obj_brk := max (obj_brk s) (Suc a),
       f_lock := (f_lock s)(a := None)\<rparr>"

text \<open>A step of thread \<open>t\<close>; \<open>None\<close> if it has to wait.\<close>

definition with_obj :: "nat \<Rightarrow> table \<Rightarrow> (foo \<Rightarrow> (tab_err + pc \<times> table) option) \<Rightarrow> (tab_err + pc \<times> table) option" where
  "with_obj fp s k = (case objs s fp of None \<Rightarrow> Some (Inl DeadPtr) | Some f \<Rightarrow> k f)"

fun alloc_step :: "nat \<Rightarrow> pc \<Rightarrow> table \<Rightarrow> (tab_err + pc \<times> table) option" where
  "alloc_step t (AllocLock fp) s =
     (if hashlock s \<noteq> None then None
      else case link fp s of Inl e \<Rightarrow> Some (Inl e)
           | Inr s' \<Rightarrow> Some (Inr (AllocBoth fp, s'\<lparr>hashlock := Some t\<rparr>)))"
| "alloc_step t (AllocBoth fp) s =
     with_obj fp s (\<lambda>f. if f_lock s fp \<noteq> None then None
       else Some (Inr (AllocInit fp, s\<lparr>f_lock := (f_lock s)(fp := Some t), hashlock := None\<rparr>)))"
| "alloc_step t (AllocInit fp) s =
     with_obj fp s (\<lambda>f. Some (Inr (Idle, s\<lparr>f_lock := (f_lock s)(fp := None)\<rparr>)))"
| "alloc_step t _ s = None"

definition hold_step :: "nat \<Rightarrow> pc \<Rightarrow> table \<Rightarrow> (tab_err + pc \<times> table) option" where
  "hold_step fp next s =
     with_obj fp s (\<lambda>f. if f_lock s fp \<noteq> None then None else Some (Inr (next, add_count fp 1 s)))"

fun find_step :: "nat \<Rightarrow> pc \<Rightarrow> table \<Rightarrow> (tab_err + pc \<times> table) option" where
  "find_step t (FindLock i) s =
     (if hashlock s \<noteq> None then None
      else case scan (obj_brk s) s i (fh s (HASH i)) of
          Inl e \<Rightarrow> Some (Inl e)
        | Inr None \<Rightarrow> Some (Inr (FindDone i None, s\<lparr>hashlock := Some t\<rparr>))
        | Inr (Some fp) \<Rightarrow> Some (Inr (FindHold i fp, s\<lparr>hashlock := Some t\<rparr>)))"
| "find_step t (FindHold i fp) s = hold_step fp (FindDone i (Some fp)) s"
| "find_step t (FindDone i r) s = Some (Inr (Idle, s\<lparr>hashlock := None\<rparr>))"
| "find_step t _ s = None"

fun rele_step :: "nat \<Rightarrow> pc \<Rightarrow> table \<Rightarrow> (tab_err + pc \<times> table) option" where
  "rele_step t (ReleLock fp) s =
     with_obj fp s (\<lambda>f. if f_lock s fp \<noteq> None then None
       else if f_count f = 1 then Some (Inr (ReleHash fp, s))
       else Some (Inr (Idle, add_count fp (-1) s)))"
| "rele_step t (ReleHash fp) s =
     (if hashlock s \<noteq> None then None else Some (Inr (ReleBoth fp, s\<lparr>hashlock := Some t\<rparr>)))"
| "rele_step t (ReleBoth fp) s =
     with_obj fp s (\<lambda>f. if f_lock s fp \<noteq> None then None
       else if f_count f \<noteq> 1 then Some (Inr (Idle, (add_count fp (-1) s)\<lparr>hashlock := None\<rparr>))
       else case unlink_obj fp s of
           Inl e \<Rightarrow> Some (Inl e)
         | Inr s' \<Rightarrow> Some (Inr (ReleFree fp, s'\<lparr>hashlock := None, f_lock := (f_lock s')(fp := Some t)\<rparr>)))"
| "rele_step t (ReleFree fp) s =
     with_obj fp s (\<lambda>f. Some (Inr (Idle, s\<lparr>f_lock := (f_lock s)(fp := None), objs := (objs s)(fp := None)\<rparr>)))"
| "rele_step t _ s = None"

fun foo_step :: "nat \<Rightarrow> pc \<Rightarrow> table \<Rightarrow> (tab_err + pc \<times> table) option" where
  "foo_step t (HoldLock fp) s = hold_step fp Idle s"
| "foo_step t pc s =
     (case pc of
        AllocLock _ \<Rightarrow> alloc_step t pc s | AllocBoth _ \<Rightarrow> alloc_step t pc s | AllocInit _ \<Rightarrow> alloc_step t pc s
      | FindLock _ \<Rightarrow> find_step t pc s | FindHold _ _ \<Rightarrow> find_step t pc s | FindDone _ _ \<Rightarrow> find_step t pc s
      | _ \<Rightarrow> rele_step t pc s)"

subsection \<open>All threads\<close>

text \<open>
  The state of the whole: the table, where each thread is, and how many references the
  callers have to each object. A caller gives \<^verbatim>\<open>foo_hold\<close> and \<^verbatim>\<open>foo_rele\<close> a
  reference it has; the first returns two, the second none.
\<close>

type_synonym fsys = "table \<times> (nat \<Rightarrow> pc) \<times> (nat \<Rightarrow> nat)"

fun returns :: "pc \<Rightarrow> (nat \<Rightarrow> nat) \<Rightarrow> nat \<Rightarrow> nat" where
  "returns (AllocInit a) r = r(a := r a + 1)"
| "returns (FindDone i (Some a)) r = r(a := r a + 1)"
| "returns (HoldLock a) r = r(a := r a + 2)"
| "returns _ r = r"

inductive tab_step :: "nat \<Rightarrow> fsys \<Rightarrow> fsys \<Rightarrow> bool" for N where
  call_alloc: "t < N \<Longrightarrow> p t = Idle \<Longrightarrow> objs s a = None \<Longrightarrow>
    tab_step N (s, p, r) (foo_new a i s, p(t := AllocLock a), r)"
| call_find: "t < N \<Longrightarrow> p t = Idle \<Longrightarrow> tab_step N (s, p, r) (s, p(t := FindLock i), r)"
| call_hold: "t < N \<Longrightarrow> p t = Idle \<Longrightarrow> 0 < r a \<Longrightarrow>
    tab_step N (s, p, r) (s, p(t := HoldLock a), r(a := r a - 1))"
| call_rele: "t < N \<Longrightarrow> p t = Idle \<Longrightarrow> 0 < r a \<Longrightarrow>
    tab_step N (s, p, r) (s, p(t := ReleLock a), r(a := r a - 1))"
| run: "t < N \<Longrightarrow> foo_step t (p t) s = Some (Inr (c, s')) \<Longrightarrow>
    tab_step N (s, p, r) (s', p(t := c), if c = Idle then returns (p t) r else r)"

inductive_cases tab_stepE: "tab_step N x y"

definition empty_tab :: table where
  "empty_tab = \<lparr>objs = (\<lambda>_. None), obj_brk = 0, fh = (\<lambda>_. None), hashlock = None, f_lock = (\<lambda>_. None)\<rparr>"

inductive tab_reach :: "nat \<Rightarrow> fsys \<Rightarrow> bool" for N where
  empty: "tab_reach N (empty_tab, (\<lambda>_. Idle), (\<lambda>_. 0))"
| step: "tab_reach N x \<Longrightarrow> tab_step N x y \<Longrightarrow> tab_reach N y"

section \<open>The invariant\<close>

fun chain :: "(nat \<Rightarrow> foo option) \<Rightarrow> nat option \<Rightarrow> nat list \<Rightarrow> bool" where
  "chain h p [] \<longleftrightarrow> p = None"
| "chain h p (a # as) \<longleftrightarrow> p = Some a \<and> (\<exists>f. h a = Some f \<and> chain h (f_next f) as)"

text \<open>The object a thread has a reference to, has locked, or has all for itself.\<close>

fun ref_obj :: "pc \<Rightarrow> nat option" where
  "ref_obj (AllocLock a) = Some a" | "ref_obj (AllocBoth a) = Some a" | "ref_obj (AllocInit a) = Some a"
| "ref_obj (HoldLock a) = Some a" | "ref_obj (FindDone i r) = r"
| "ref_obj (ReleLock a) = Some a" | "ref_obj (ReleHash a) = Some a" | "ref_obj (ReleBoth a) = Some a"
| "ref_obj (ReleFree a) = Some a" | "ref_obj _ = None"

fun lock_obj :: "pc \<Rightarrow> nat option" where
  "lock_obj (AllocInit a) = Some a" | "lock_obj (ReleFree a) = Some a" | "lock_obj _ = None"

fun apart :: "pc \<Rightarrow> nat option" where
  "apart (AllocLock a) = Some a" | "apart (ReleFree a) = Some a" | "apart _ = None"

fun holds_hash :: "pc \<Rightarrow> bool" where
  "holds_hash (AllocBoth a) = True" | "holds_hash (FindHold i a) = True" | "holds_hash (FindDone i r) = True"
| "holds_hash (ReleBoth a) = True" | "holds_hash _ = False"

definition pcref :: "pc \<Rightarrow> nat \<Rightarrow> nat" where
  "pcref c a = (if ref_obj c = Some a then 1 else 0)"

definition total :: "nat \<Rightarrow> (nat \<Rightarrow> pc) \<Rightarrow> nat \<Rightarrow> nat" where
  "total N p a = (\<Sum>t<N. pcref (p t) a)"

definition lists_ok :: "table \<Rightarrow> (nat \<Rightarrow> nat list) \<Rightarrow> bool" where
  "lists_ok s L \<longleftrightarrow>
     (\<forall>i. chain (objs s) (fh s i) (L i) \<and> distinct (L i)) \<and>
     (\<forall>i a. a \<in> set (L i) \<longrightarrow> (\<exists>f. objs s a = Some f \<and> HASH (f_id f) = i))"

definition counts_ok :: "nat \<Rightarrow> table \<Rightarrow> (nat \<Rightarrow> pc) \<Rightarrow> (nat \<Rightarrow> nat) \<Rightarrow> bool" where
  "counts_ok N s p r \<longleftrightarrow>
     (\<forall>a. case objs s a of
        None \<Rightarrow> r a + total N p a = 0
      | Some f \<Rightarrow> a < obj_brk s \<and> f_count f = int (r a + total N p a) \<and> 1 \<le> f_count f)"

definition apart_ok :: "nat \<Rightarrow> table \<Rightarrow> (nat \<Rightarrow> pc) \<Rightarrow> (nat \<Rightarrow> nat list) \<Rightarrow> bool" where
  "apart_ok N s p L \<longleftrightarrow>
     (\<forall>a. objs s a \<noteq> None \<longrightarrow> ((\<exists>i. a \<in> set (L i)) \<longleftrightarrow> (\<forall>t<N. apart (p t) \<noteq> Some a))) \<and>
     (\<forall>t<N. \<forall>a. apart (p t) = Some a \<longrightarrow> (\<exists>f. objs s a = Some f \<and> f_count f = 1))"

definition locks_ok :: "nat \<Rightarrow> table \<Rightarrow> (nat \<Rightarrow> pc) \<Rightarrow> bool" where
  "locks_ok N s p \<longleftrightarrow>
     (\<forall>t. hashlock s = Some t \<longleftrightarrow> t < N \<and> holds_hash (p t)) \<and>
     (\<forall>t a. f_lock s a = Some t \<longleftrightarrow> t < N \<and> lock_obj (p t) = Some a)"

fun found :: "table \<Rightarrow> (nat \<Rightarrow> nat list) \<Rightarrow> pc \<Rightarrow> bool" where
  "found s L (FindHold i a) \<longleftrightarrow> (\<exists>k. a \<in> set (L k)) \<and> (\<exists>f. objs s a = Some f \<and> f_id f = i)"
| "found s L (FindDone i (Some a)) \<longleftrightarrow> (\<exists>f. objs s a = Some f \<and> f_id f = i)"
| "found s L _ \<longleftrightarrow> True"

definition tab_inv :: "nat \<Rightarrow> fsys \<Rightarrow> (nat \<Rightarrow> nat list) \<Rightarrow> bool" where
  "tab_inv N x L \<longleftrightarrow>
     (case x of (s, p, r) \<Rightarrow>
        lists_ok s L \<and> counts_ok N s p r \<and> apart_ok N s p L \<and> locks_ok N s p \<and> (\<forall>t<N. found s L (p t)))"

end
