(* ===== verification/Foo_Inv.thy ===== *)
theory Foo_Inv
  imports Foo_Table
begin

text \<open>
  Every step of the hash table keeps its invariant. The steps fall into those that only move
  a thread and its locks, those that change a count, and the four that make, link, unlink and
  free an object.
\<close>

section \<open>Counting references\<close>

lemma total_upd:
  assumes "t < N"
  shows "total N (p(t := c)) a + pcref (p t) a = total N p a + pcref c a"
proof -
  have "total N (p(t := c)) a = pcref c a + (\<Sum>u\<in>{..<N} - {t}. pcref (p u) a)"
    using assms by (simp add: total_def sum.remove [of _ t])
  moreover have "total N p a = pcref (p t) a + (\<Sum>u\<in>{..<N} - {t}. pcref (p u) a)"
    using assms by (simp add: total_def sum.remove [of _ t])
  ultimately show ?thesis by simp
qed

lemma pcref_total: "t < N \<Longrightarrow> pcref (p t) a \<le> total N p a"
  using total_upd [of t N p Idle a] by (simp add: pcref_def)

lemma pcref_two:
  assumes "t < N" "u < N" "t \<noteq> u"
  shows "pcref (p t) a + pcref (p u) a \<le> total N p a"
proof -
  have "pcref ((p(t := Idle)) u) a \<le> total N (p(t := Idle)) a" using assms(2) by (rule pcref_total)
  then show ?thesis using total_upd [OF assms(1), of p Idle a] assms(3) by (simp add: pcref_def)
qed

lemma apart_ref: "apart c = Some a \<Longrightarrow> ref_obj c = Some a"
  by (cases c) auto

lemma lock_ref: "lock_obj c = Some a \<Longrightarrow> ref_obj c = Some a"
  by (cases c) auto

text \<open>An object with a count of one has one owner.\<close>

lemma sole_owner:
  assumes "counts_ok N s p r" and "objs s a = Some f" "f_count f = 1" and "t < N" "ref_obj (p t) = Some a"
    and "u < N" "ref_obj (p u) = Some a"
  shows "u = t"
proof (rule ccontr)
  assume "u \<noteq> t"
  then have "pcref (p u) a + pcref (p t) a \<le> total N p a" using assms(4,6) by (intro pcref_two)
  moreover have "f_count f = int (r a + total N p a)" using assms(1,2) by (auto simp: counts_ok_def dest: spec [of _ a])
  ultimately show False using assms(3,5,7) by (simp add: pcref_def)
qed

lemma referenced_alive:
  assumes "counts_ok N s p r" and "t < N" "ref_obj (p t) = Some a"
  shows "\<exists>f. objs s a = Some f"
proof (rule ccontr)
  assume "\<nexists>f. objs s a = Some f"
  then have "r a + total N p a = 0" using assms(1) by (auto simp: counts_ok_def dest: spec [of _ a])
  then show False using pcref_total [OF assms(2), of p a] assms(3) by (simp add: pcref_def)
qed

lemma apart_move:
  "apart (p t) \<noteq> Some b \<Longrightarrow> apart c \<noteq> Some b \<Longrightarrow> (\<forall>u<N. apart ((p(t := c)) u) \<noteq> Some b) = (\<forall>u<N. apart (p u) \<noteq> Some b)"
  by (metis fun_upd_apply)

lemma counted: "counts_ok N s p r \<Longrightarrow> objs s a = Some f \<Longrightarrow> 1 \<le> f_count f"
  by (auto simp: counts_ok_def dest: spec [of _ a])

section \<open>Locks\<close>

lemma locks_upd:
  assumes "locks_ok N s p" and "t < N"
    and "hashlock s' = (if holds_hash c then Some t else if holds_hash (p t) then None else hashlock s)"
    and "holds_hash c \<longrightarrow> holds_hash (p t) \<or> hashlock s = None"
    and "\<And>a. f_lock s' a = (if lock_obj c = Some a then Some t else if lock_obj (p t) = Some a then None else f_lock s a)"
    and "\<And>a. lock_obj c = Some a \<Longrightarrow> lock_obj (p t) = Some a \<or> f_lock s a = None"
  shows "locks_ok N s' (p(t := c))"
proof -
  have h: "\<And>u. hashlock s = Some u \<longleftrightarrow> u < N \<and> holds_hash (p u)" and
    l: "\<And>u a. f_lock s a = Some u \<longleftrightarrow> u < N \<and> lock_obj (p u) = Some a"
    using assms(1) by (auto simp: locks_ok_def)
  have "hashlock s' = Some u \<longleftrightarrow> u < N \<and> holds_hash ((p(t := c)) u)" for u
  proof (cases "u = t")
    case True
    then show ?thesis using assms(2,3) h [of t] by auto
  next
    case False
    have "holds_hash (p u) \<and> u < N \<Longrightarrow> \<not> holds_hash (p t) \<and> hashlock s \<noteq> None" using h [of u] h [of t] assms(2) False by auto
    then show ?thesis using False assms(3,4) h [of u] by auto
  qed
  moreover have "f_lock s' a = Some u \<longleftrightarrow> u < N \<and> lock_obj ((p(t := c)) u) = Some a" for u a
  proof (cases "u = t")
    case True
    then show ?thesis using assms(2,5) l [of a t] by auto
  next
    case False
    have "lock_obj (p u) = Some a \<and> u < N \<Longrightarrow> lock_obj (p t) \<noteq> Some a \<and> f_lock s a \<noteq> None"
      using l [of a u] l [of a t] assms(2) False by auto
    then show ?thesis using False assms(5,6) l [of a u] by auto
  qed
  ultimately show ?thesis by (simp add: locks_ok_def)
qed

lemma hash_sole:
  assumes "locks_ok N s p" and "t < N" "holds_hash (p t)" and "u < N" "holds_hash (p u)"
  shows "u = t"
proof -
  have "hashlock s = Some t" "hashlock s = Some u" using assms unfolding locks_ok_def by blast+
  then show ?thesis by simp
qed

section \<open>Lists\<close>

lemma chain_frame:
  "chain h p xs \<Longrightarrow> (\<And>a f. a \<in> set xs \<Longrightarrow> h a = Some f \<Longrightarrow> \<exists>f'. h' a = Some f' \<and> f_next f' = f_next f) \<Longrightarrow> chain h' p xs"
proof (induction xs arbitrary: p)
  case (Cons a xs)
  then obtain f where f: "p = Some a" "h a = Some f" "chain h (f_next f) xs" by auto
  obtain f' where f': "h' a = Some f'" "f_next f' = f_next f" using Cons.prems(2) [OF _ f(2)] by auto
  have "chain h' (f_next f) xs" using Cons.IH [OF f(3)] Cons.prems(2) by auto
  then show ?case using f(1) f' by auto
qed simp

lemma scan_chain:
  assumes "chain (objs s) p xs" and "length xs \<le> k"
  shows "(scan k s i p = Inr None \<and> (\<forall>a \<in> set xs. \<forall>f. objs s a = Some f \<longrightarrow> f_id f \<noteq> i)) \<or>
    (\<exists>a f. scan k s i p = Inr (Some a) \<and> a \<in> set xs \<and> objs s a = Some f \<and> f_id f = i)"
  using assms
proof (induction xs arbitrary: p k)
  case (Cons a xs)
  then obtain f k' where f: "p = Some a" "objs s a = Some f" "chain (objs s) (f_next f) xs" "k = Suc k'" "length xs \<le> k'"
    by (cases k) auto
  show ?case using Cons.IH [OF f(3,5)] f by auto
qed simp

lemma find_prev_chain:
  assumes "chain (objs s) p (xs @ [q, fp] @ ys)" and "fp \<notin> set (xs @ [q])" and "length xs < k"
  shows "find_prev k s fp p = Inr q"
  using assms
proof (induction xs arbitrary: p k)
  case Nil
  then show ?case by (cases k) auto
next
  case (Cons a xs)
  then obtain f k' where f: "p = Some a" "objs s a = Some f" "chain (objs s) (f_next f) (xs @ [q, fp] @ ys)" "k = Suc k'" "length xs < k'"
    by (cases k) auto
  have "f_next f \<noteq> Some fp" using f(3) Cons.prems(2) by (cases xs) auto
  then show ?case using Cons.IH [OF f(3) _ f(5)] Cons.prems(2) f by simp
qed

lemma listed: "lists_ok s L \<Longrightarrow> a \<in> set (L i) \<Longrightarrow> \<exists>f. objs s a = Some f \<and> HASH (f_id f) = i"
  by (simp add: lists_ok_def)

lemma list_length:
  assumes "lists_ok s L" and "counts_ok N s p r"
  shows "length (L i) \<le> obj_brk s"
proof -
  have "set (L i) \<subseteq> {..<obj_brk s}"
    using assms by (fastforce simp: lists_ok_def counts_ok_def split: option.splits)
  then have "card (set (L i)) \<le> obj_brk s" using card_mono [of "{..<obj_brk s}"] by auto
  then show ?thesis using assms(1) by (simp add: lists_ok_def distinct_card)
qed

section \<open>Steps that move a thread\<close>

lemma counts_upd:
  assumes "counts_ok N s p r" and "t < N" and "obj_brk s \<le> obj_brk s'"
    and "\<And>b. case objs s b of None \<Rightarrow> objs s' b = None \<and> r' b + pcref c b = r b + pcref (p t) b
      | Some f \<Rightarrow> \<exists>f'. objs s' b = Some f' \<and> 1 \<le> f_count f' \<and>
          f_count f' + int (r b + pcref (p t) b) = f_count f + int (r' b + pcref c b)"
  shows "counts_ok N s' (p(t := c)) r'"
  unfolding counts_ok_def
proof
  fix b
  show "case objs s' b of None \<Rightarrow> r' b + total N (p(t := c)) b = 0
    | Some f \<Rightarrow> b < obj_brk s' \<and> f_count f = int (r' b + total N (p(t := c)) b) \<and> 1 \<le> f_count f"
    using assms(1,3) assms(4) [of b] total_upd [OF assms(2), of p c b]
    by (cases "objs s b") (auto simp: counts_ok_def dest: spec [of _ b])
qed

lemma apart_upd:
  assumes "apart_ok N s p L" and "apart c = apart (p t)"
    and "\<And>b f. objs s b = Some f \<Longrightarrow> \<exists>f'. objs s' b = Some f' \<and> ((\<exists>u<N. apart (p u) = Some b) \<longrightarrow> f_count f' = f_count f)"
    and "\<And>b. objs s b = None \<Longrightarrow> objs s' b = None"
  shows "apart_ok N s' (p(t := c)) L"
proof -
  have ap: "apart ((p(t := c)) u) = apart (p u)" for u using assms(2) by simp
  have al: "objs s' b = None \<longleftrightarrow> objs s b = None" for b using assms(3,4) [of b] by (cases "objs s b") auto
  show ?thesis unfolding apart_ok_def ap al
  proof (intro conjI allI impI)
    show "(\<exists>i. a \<in> set (L i)) = (\<forall>t<N. apart (p t) \<noteq> Some a)" if "objs s a \<noteq> None" for a
      using assms(1) that by (auto simp: apart_ok_def)
    fix u b assume u: "u < N" "apart (p u) = Some b"
    then obtain f where f: "objs s b = Some f" "f_count f = 1" using assms(1) unfolding apart_ok_def by blast
    then show "\<exists>f. objs s' b = Some f \<and> f_count f = 1" using assms(3) [OF f(1)] u by auto
  qed
qed

lemma inv_move:
  assumes inv: "tab_inv N (s, p, r) L" and t: "t < N"
    and same: "objs s' = objs s" "fh s' = fh s" "obj_brk s' = obj_brk s"
    and refs: "\<And>a. r' a + pcref c a = r a + pcref (p t) a"
    and rest: "apart c = apart (p t)" "locks_ok N s' (p(t := c))" "found s L c"
  shows "tab_inv N (s', p(t := c), r') L"
proof -
  have f: "found s' L = found s L"
  proof
    fix c show "found s' L c = found s L c" by (cases "(s, L, c)" rule: found.cases) (auto simp: same)
  qed
  have "counts_ok N s' (p(t := c)) r'"
  proof (rule counts_upd [OF _ t])
    show "counts_ok N s p r" using inv by (simp add: tab_inv_def)
    then show "case objs s b of None \<Rightarrow> objs s' b = None \<and> r' b + pcref c b = r b + pcref (p t) b
      | Some f \<Rightarrow> \<exists>f'. objs s' b = Some f' \<and> 1 \<le> f_count f' \<and>
          f_count f' + int (r b + pcref (p t) b) = f_count f + int (r' b + pcref c b)" for b
      using refs [of b] by (cases "objs s b") (auto simp: same dest: counted)
  qed (simp add: same)
  moreover have "apart_ok N s' (p(t := c)) L"
    using inv rest(1) by (intro apart_upd) (auto simp: tab_inv_def same)
  moreover have "lists_ok s' L" using inv by (simp add: tab_inv_def lists_ok_def same)
  ultimately show ?thesis using inv rest(2,3) by (simp add: tab_inv_def f)
qed

lemma refs_returned: "ref_obj c = Some a \<Longrightarrow> (r(a := r a + 1)) b + pcref Idle b = r b + pcref c b"
  by (simp add: pcref_def)

section \<open>Steps that change a count\<close>

lemma inv_count:
  assumes inv: "tab_inv N (s, p, r) L" and t: "t < N" and a: "objs s a = Some f" "1 \<le> f_count f + d"
    and same: "objs s' = objs (add_count a d s)" "fh s' = fh s" "obj_brk s' = obj_brk s"
    and refs: "\<And>b. int (r' b + pcref c b) = int (r b + pcref (p t) b) + (if b = a then d else 0)"
    and rest: "apart c = apart (p t)" "locks_ok N s' (p(t := c))" "found s L c"
    and alone: "\<And>u. u < N \<Longrightarrow> apart (p u) \<noteq> Some a"
  shows "tab_inv N (s', p(t := c), r') L"
proof -
  have o: "objs s' b = (if b = a then Some (f\<lparr>f_count := f_count f + d\<rparr>) else objs s b)" for b
    by (simp add: same add_count_def a)
  have f: "found s L c \<Longrightarrow> found s' L c" for c
    by (cases "(s, L, c)" rule: found.cases) (auto simp: o a)
  have "counts_ok N s' (p(t := c)) r'"
  proof (rule counts_upd [OF _ t])
    show "counts_ok N s p r" using inv by (simp add: tab_inv_def)
    show "obj_brk s \<le> obj_brk s'" by (simp add: same)
    fix b
    show "case objs s b of None \<Rightarrow> objs s' b = None \<and> r' b + pcref c b = r b + pcref (p t) b
      | Some f \<Rightarrow> \<exists>f'. objs s' b = Some f' \<and> 1 \<le> f_count f' \<and>
          f_count f' + int (r b + pcref (p t) b) = f_count f + int (r' b + pcref c b)"
      using inv refs [of b] a(2) o [of b] a(1)
      by (cases "objs s b") (auto simp: tab_inv_def counts_ok_def dest: spec [of _ b] split: if_splits)
  qed
  moreover have "apart_ok N s' (p(t := c)) L"
  proof (rule apart_upd)
    show "apart_ok N s p L" using inv by (simp add: tab_inv_def)
  qed (use rest(1) alone a(1) in \<open>auto simp: o\<close>)
  moreover have "lists_ok s' L" unfolding lists_ok_def
  proof (intro conjI allI impI)
    fix i
    show "chain (objs s') (fh s' i) (L i)" unfolding same(2)
      by (rule chain_frame [of "objs s"]) (use inv a in \<open>auto simp: tab_inv_def lists_ok_def o\<close>)
    show "distinct (L i)" using inv by (simp add: tab_inv_def lists_ok_def)
    show "\<exists>f. objs s' b = Some f \<and> HASH (f_id f) = i" if "b \<in> set (L i)" for b
      using inv that a by (fastforce simp: tab_inv_def lists_ok_def o)
  qed
  ultimately show ?thesis using inv rest(2,3) f by (simp add: tab_inv_def)
qed

lemma apart_listed:
  "tab_inv N (s, p, r) L \<Longrightarrow> objs s b \<noteq> None \<Longrightarrow> (\<exists>i. b \<in> set (L i)) = (\<forall>u<N. apart (p u) \<noteq> Some b)"
  unfolding tab_inv_def apart_ok_def by simp

lemma apart_alive:
  "tab_inv N (s, p, r) L \<Longrightarrow> u < N \<Longrightarrow> apart (p u) = Some a \<Longrightarrow> \<exists>f. objs s a = Some f \<and> f_count f = 1"
  unfolding tab_inv_def apart_ok_def by auto

text \<open>A second reference to an object shows that no thread has it for itself.\<close>

lemma not_apart:
  assumes inv: "tab_inv N (s, p, r) L" and t: "t < N" "ref_obj (p t) = Some a" "apart (p t) = None" and u: "u < N"
  shows "apart (p u) \<noteq> Some a"
proof
  assume ap: "apart (p u) = Some a"
  then obtain f where "objs s a = Some f" "f_count f = 1" using apart_alive [OF inv u] by blast
  then have "u = t" using sole_owner [of N s p r a f t u] inv t u apart_ref [OF ap] by (simp add: tab_inv_def)
  then show False using ap t(3) by simp
qed

end
