(* ===== verification/Foo_Steps.thy ===== *)
theory Foo_Steps
  imports Foo_Inv
begin

text \<open>
  The steps of the hash table that make, link, unlink and free an object, and with them
  the preservation of its invariant by every step of every thread.
\<close>

section \<open>Changing a list\<close>

lemma found_unlocked: "\<not> holds_hash c \<Longrightarrow> found s L c"
  by (cases c) auto

lemma inv_lists:
  assumes inv: "tab_inv N (s, p, r) L" and t: "t < N"
    and same: "\<And>b. rel_option (\<lambda>f f'. f_count f' = f_count f \<and> f_id f' = f_id f) (objs s b) (objs s' b)" "obj_brk s' = obj_brk s"
    and lists: "lists_ok s' L'" "\<And>b. b \<noteq> a \<Longrightarrow> (\<exists>i. b \<in> set (L' i)) = (\<exists>i. b \<in> set (L i))"
      "(\<exists>i. a \<in> set (L' i)) = (apart c \<noteq> Some a)"
    and a: "objs s a = Some f" "f_count f = 1" "ref_obj (p t) = Some a" "ref_obj c = Some a"
    and rest: "locks_ok N s' (p(t := c))" "found s' L' c" "\<And>u. u < N \<Longrightarrow> u \<noteq> t \<Longrightarrow> \<not> holds_hash (p u)"
  shows "tab_inv N (s', p(t := c), r) L'"
proof -
  have counts: "counts_ok N s p r" and ap: "apart_ok N s p L" using inv by (simp_all add: tab_inv_def)
  have other: "apart (p u) = Some a \<Longrightarrow> u < N \<Longrightarrow> u = t" for u
    using sole_owner [OF counts a(1,2) t a(3)] apart_ref by blast
  have only: "apart c = Some b \<Longrightarrow> b = a" "apart (p t) = Some b \<Longrightarrow> b = a" for b
    using apart_ref [of c b] apart_ref [of "p t" b] a(3,4) by auto
  have pr: "pcref c b = pcref (p t) b" for b using a(3,4) by (simp add: pcref_def)
  have "counts_ok N s' (p(t := c)) r"
  proof (rule counts_upd [OF counts t])
    show "case objs s b of None \<Rightarrow> objs s' b = None \<and> r b + pcref c b = r b + pcref (p t) b
      | Some f \<Rightarrow> \<exists>f'. objs s' b = Some f' \<and> 1 \<le> f_count f' \<and>
          f_count f' + int (r b + pcref (p t) b) = f_count f + int (r b + pcref c b)" for b
      using same(1) [of b] counted [OF counts, of b] pr [of b] by (cases "objs s b"; cases "objs s' b") auto
  qed (simp add: same)
  moreover have "apart_ok N s' (p(t := c)) L'" unfolding apart_ok_def
  proof (intro conjI allI impI)
    fix b assume "objs s' b \<noteq> None"
    then have b: "objs s b \<noteq> None" using same(1) [of b] by (cases "objs s b") auto
    show "(\<exists>i. b \<in> set (L' i)) = (\<forall>u<N. apart ((p(t := c)) u) \<noteq> Some b)"
    proof (cases "b = a")
      case True
      then show ?thesis using lists(3) t other by auto
    next
      case False
      then have "(\<forall>u<N. apart ((p(t := c)) u) \<noteq> Some b) = (\<forall>u<N. apart (p u) \<noteq> Some b)"
        using only by (intro apart_move) auto
      then show ?thesis using lists(2) [OF False] ap b unfolding apart_ok_def by blast
    qed
  next
    fix u b assume u: "u < N" "apart ((p(t := c)) u) = Some b"
    then have "\<exists>f. objs s b = Some f \<and> f_count f = 1"
    proof (cases "u = t")
      case False
      then show ?thesis using u ap unfolding apart_ok_def by auto
    qed (use u only(1) a(1,2) in auto)
    then show "\<exists>f. objs s' b = Some f \<and> f_count f = 1" using same(1) [of b] by (cases "objs s' b") auto
  qed
  ultimately show ?thesis using lists(1) rest by (auto simp: tab_inv_def intro: found_unlocked)
qed

lemma objs_set_next: "objs (set_next a n s) b = (if b = a then map_option (\<lambda>f. f\<lparr>f_next := n\<rparr>) (objs s a) else objs s b)"
  by (simp add: set_next_def)

lemma set_next_same [simp]:
  "fh (set_next a n s) = fh s" "obj_brk (set_next a n s) = obj_brk s" "hashlock (set_next a n s) = hashlock s"
  "f_lock (set_next a n s) = f_lock s"
  by (simp_all add: set_next_def)

lemma lists_link:
  assumes ok: "lists_ok s L" and a: "objs s a = Some f" "HASH (f_id f) = i" "\<And>j. a \<notin> set (L j)"
    and s': "objs s' = objs (set_next a (fh s i) s)" "fh s' = (fh s)(i := Some a)"
  shows "lists_ok s' (L(i := a # L i))"
proof -
  have old: "chain (objs s') (fh s j) (L j)" for j
    by (rule chain_frame [of "objs s"]) (use ok a(3) in \<open>auto simp: lists_ok_def s' objs_set_next\<close>)
  have "chain (objs s') (fh s' j) ((L(i := a # L i)) j)" for j
    using old [of j] a(1) by (auto simp: s' objs_set_next)
  moreover have "distinct ((L(i := a # L i)) j)" for j using ok a(3) by (simp add: lists_ok_def)
  moreover have "\<exists>f. objs s' b = Some f \<and> HASH (f_id f) = j" if "b \<in> set ((L(i := a # L i)) j)" for j b
    using that ok a by (fastforce simp: lists_ok_def s' objs_set_next split: if_splits)
  ultimately show ?thesis by (simp add: lists_ok_def)
qed

lemma inv_link:
  assumes inv: "tab_inv N (s, p, r) L" and t: "t < N" "p t = AllocLock a" and free: "hashlock s = None"
    and l: "link a s = Inr s1" and s': "s' = s1\<lparr>hashlock := Some t\<rparr>"
  shows "\<exists>L'. tab_inv N (s', p(t := AllocBoth a), r) L'"
proof -
  obtain f where f: "objs s a = Some f" "f_count f = 1"
    using apart_alive [OF inv t(1), of a] t(2) by auto
  define i where "i = HASH (f_id f)"
  have o: "objs s' = objs (set_next a (fh s i) s)" "fh s' = (fh s)(i := Some a)" "obj_brk s' = obj_brk s" "f_lock s' = f_lock s"
    using l f by (auto simp: link_def i_def s' Let_def)
  have "\<not> (\<forall>u<N. apart (p u) \<noteq> Some a)" using t by auto
  then have out: "a \<notin> set (L j)" for j using inv f unfolding tab_inv_def apart_ok_def by auto
  have nohash: "\<not> holds_hash (p u)" if "u < N" for u using inv free that by (auto simp: tab_inv_def locks_ok_def)
  have "tab_inv N (s', p(t := AllocBoth a), r) (L(i := a # L i))"
  proof (rule inv_lists [OF inv t(1), where a = a and f = f])
    show "lists_ok s' (L(i := a # L i))"
      using lists_link [where L = L, OF _ f(1) i_def [symmetric] out o(1,2)] inv by (simp add: tab_inv_def)
    show "rel_option (\<lambda>f f'. f_count f' = f_count f \<and> f_id f' = f_id f) (objs s b) (objs s' b)" for b
      by (cases "objs s b") (auto simp: o objs_set_next)
    show "locks_ok N s' (p(t := AllocBoth a))"
      by (rule locks_upd [of _ s]) (use inv t free in \<open>auto simp: tab_inv_def s' o(4) [unfolded s', simplified]\<close>)
    show "(\<exists>j. b \<in> set ((L(i := a # L i)) j)) = (\<exists>j. b \<in> set (L j))" if "b \<noteq> a" for b
      using that by (auto simp: fun_upd_def split: if_splits)
    show "(\<exists>j. a \<in> set ((L(i := a # L i)) j)) = (apart (AllocBoth a) \<noteq> Some a)"
      by (auto intro: exI [of _ i])
  qed (use f t nohash o in auto)
  then show ?thesis by blast
qed

lemma chain_append: "chain h p (xs @ a # ys) \<Longrightarrow> \<exists>f. h a = Some f \<and> chain h (f_next f) ys"
  by (induction xs arbitrary: p) auto

lemma chain_skip:
  assumes "chain h p (xs @ [q, a] @ ys)" and "h a = Some f" and "distinct (xs @ [q, a] @ ys)"
    and "h' q = map_option (\<lambda>g. g\<lparr>f_next := f_next f\<rparr>) (h q)" "\<And>b. b \<noteq> q \<Longrightarrow> h' b = h b"
  shows "chain h' p (xs @ q # ys)"
  using assms(1,3)
proof (induction xs arbitrary: p)
  case Nil
  then have "chain h (f_next f) ys" and q: "p = Some q" "\<exists>g. h q = Some g" using assms(2) by auto
  moreover have "b \<in> set ys \<Longrightarrow> h' b = h b" for b using Nil.prems(2) assms(5) [of b] by auto
  ultimately have "chain h' (f_next f) ys" by (auto intro: chain_frame [of h])
  then show ?case using q assms(4) by auto
next
  case (Cons b xs)
  then show ?case using assms(5) [of b] by auto
qed

lemma lists_remove:
  assumes ok: "lists_ok s L" and new: "chain (objs s') (fh s' i) xs" "distinct xs" "set xs \<subseteq> set (L i)"
    and old: "\<And>j. j \<noteq> i \<Longrightarrow> chain (objs s') (fh s' j) (L j)"
    and rel: "\<And>b. rel_option (\<lambda>f f'. f_count f' = f_count f \<and> f_id f' = f_id f) (objs s b) (objs s' b)"
  shows "lists_ok s' (L(i := xs))"
proof -
  have "\<exists>f. objs s' b = Some f \<and> HASH (f_id f) = j" if "b \<in> set (L j)" for b j
  proof -
    obtain f where "objs s b = Some f" "HASH (f_id f) = j" using listed [OF ok \<open>b \<in> set (L j)\<close>] by blast
    then show ?thesis using rel [of b] by (cases "objs s' b") auto
  qed
  then show ?thesis using new old ok by (auto simp: lists_ok_def)
qed

text \<open>The search of \<^verbatim>\<open>foo_rele\<close> finds the predecessor, and the object leaves its list.\<close>

lemma unlink_obj_lists:
  assumes ok: "lists_ok s L" and len: "length (L i) \<le> obj_brk s"
    and a: "objs s a = Some f" "HASH (f_id f) = i" "a \<in> set (L i)"
  obtains s' where "unlink_obj a s = Inr s'" and "lists_ok s' (L(i := remove1 a (L i)))"
    and "\<And>b. rel_option (\<lambda>f f'. f_count f' = f_count f \<and> f_id f' = f_id f) (objs s b) (objs s' b)"
    and "obj_brk s' = obj_brk s" "hashlock s' = hashlock s" "f_lock s' = f_lock s"
proof -
  obtain xs ys where l: "L i = xs @ a # ys" "a \<notin> set xs" using a(3) by (metis split_list_first)
  have rm: "remove1 a (L i) = xs @ ys" using l by (simp add: remove1_append)
  have "chain (objs s) (fh s i) (L i) \<and> distinct (L i)" using ok by (simp add: lists_ok_def)
  then have ch: "chain (objs s) (fh s i) (xs @ a # ys)" "distinct (xs @ a # ys)" using l(1) by simp_all
  have rel: "rel_option (\<lambda>f f'. f_count f' = f_count f \<and> f_id f' = f_id f) (objs s b) (objs (set_next q n s) b)" for q n b
    by (cases "objs s b") (auto simp: objs_set_next)
  have dist: "distinct (xs @ ys)" "set (xs @ ys) \<subseteq> set (L i)" using ch(2) l(1) by auto
  show ?thesis
  proof (cases xs rule: rev_cases)
    case Nil
    define s' where "s' = s\<lparr>fh := (fh s)(i := f_next f)\<rparr>"
    have "unlink_obj a s = Inr s'" using a ch Nil by (simp add: unlink_obj_def s'_def)
    moreover have "lists_ok s' (L(i := remove1 a (L i)))" unfolding rm
      by (rule lists_remove [OF ok _ dist]) (use ch Nil a ok in \<open>auto simp: s'_def lists_ok_def option.rel_refl\<close>)
    ultimately show ?thesis by (rule that) (auto simp: s'_def option.rel_refl)
  next
    case (snoc zs q)
    have ch': "chain (objs s) (fh s i) (zs @ [q, a] @ ys)" using ch(1) snoc by simp
    have "find_prev (obj_brk s) s a (fh s i) = Inr q"
      by (rule find_prev_chain [OF ch']) (use l snoc len in auto)
    moreover have "fh s i \<noteq> Some a" using ch' ch(2) snoc by (cases zs) auto
    ultimately have u: "unlink_obj a s = Inr (set_next q (f_next f) s)" using a by (simp add: unlink_obj_def)
    have "lists_ok (set_next q (f_next f) s) (L(i := remove1 a (L i)))" unfolding rm
    proof (rule lists_remove [OF ok _ dist])
      show "chain (objs (set_next q (f_next f) s)) (fh (set_next q (f_next f) s) i) (xs @ ys)"
        using chain_skip [OF ch' a(1), of "objs (set_next q (f_next f) s)"] ch(2) snoc by (simp add: objs_set_next)
      show "chain (objs (set_next q (f_next f) s)) (fh (set_next q (f_next f) s) j) (L j)" if "j \<noteq> i" for j
      proof (rule chain_frame [of "objs s"])
        have "q \<notin> set (L j)" using listed [OF ok, of q j] listed [OF ok, of q i] l snoc that by auto
        then show "b \<in> set (L j) \<Longrightarrow> objs s b = Some g \<Longrightarrow> \<exists>f'. objs (set_next q (f_next f) s) b = Some f' \<and> f_next f' = f_next g" for b g
          by (auto simp: objs_set_next)
      qed (use ok in \<open>simp add: lists_ok_def\<close>)
    qed (rule rel)
    then show ?thesis by (rule that [OF u _ rel]) simp_all
  qed
qed

lemma inv_unlink:
  assumes inv: "tab_inv N (s, p, r) L" and t: "t < N" "p t = ReleBoth a" and a: "objs s a = Some f" "f_count f = 1"
    and free: "f_lock s a = None"
  obtains s1 L' where "unlink_obj a s = Inr s1"
    and "tab_inv N (s1\<lparr>hashlock := None, f_lock := (f_lock s1)(a := Some t)\<rparr>, p(t := ReleFree a), r) L'"
proof -
  have ok: "lists_ok s L" "counts_ok N s p r" "locks_ok N s p" using inv by (simp_all add: tab_inv_def)
  have "apart (p u) \<noteq> Some a" if "u < N" for u using not_apart [OF inv t(1) _ _ that, of a] t(2) by simp
  then have "\<exists>j. a \<in> set (L j)" using apart_listed [OF inv, of a] a(1) by simp
  then obtain j where j: "a \<in> set (L j)" ..
  then have i: "HASH (f_id f) = j" using listed [OF ok(1) j] a(1) by simp
  have uniq: "a \<in> set (L k) \<Longrightarrow> k = j" for k using listed [OF ok(1), of a k] a(1) i by simp
  obtain s1 where s1: "unlink_obj a s = Inr s1" "lists_ok s1 (L(j := remove1 a (L j)))"
    "\<And>b. rel_option (\<lambda>f f'. f_count f' = f_count f \<and> f_id f' = f_id f) (objs s b) (objs s1 b)"
    "obj_brk s1 = obj_brk s" "hashlock s1 = hashlock s" "f_lock s1 = f_lock s"
    using unlink_obj_lists [OF ok(1) list_length [OF ok(1,2)] a(1) i j] by blast
  have dist: "distinct (L j)" using ok(1) by (simp add: lists_ok_def)
  have hash: "holds_hash (p u) \<Longrightarrow> u < N \<Longrightarrow> u = t" for u using hash_sole [OF ok(3) t(1), of u] t(2) by simp
  have "tab_inv N (s1\<lparr>hashlock := None, f_lock := (f_lock s1)(a := Some t)\<rparr>, p(t := ReleFree a), r) (L(j := remove1 a (L j)))"
  proof (rule inv_lists [OF inv t(1), where a = a and f = f])
    show "lists_ok (s1\<lparr>hashlock := None, f_lock := (f_lock s1)(a := Some t)\<rparr>) (L(j := remove1 a (L j)))"
      using s1(2) by (simp add: lists_ok_def)
    show "locks_ok N (s1\<lparr>hashlock := None, f_lock := (f_lock s1)(a := Some t)\<rparr>) (p(t := ReleFree a))"
      by (rule locks_upd [OF ok(3) t(1)]) (use t free s1 in auto)
    show "(\<exists>i. b \<in> set ((L(j := remove1 a (L j))) i)) = (\<exists>i. b \<in> set (L i))" if "b \<noteq> a" for b
      using that dist by (auto simp: fun_upd_def split: if_splits)
    have "a \<notin> set ((L(j := remove1 a (L j))) k)" for k using uniq [of k] dist by (cases "k = j") auto
    then show "(\<exists>i. a \<in> set ((L(j := remove1 a (L j))) i)) = (apart (ReleFree a) \<noteq> Some a)" by simp
    show "\<not> holds_hash (p u)" if "u < N" "u \<noteq> t" for u using hash [of u] that by blast
  qed (use a t s1 in simp_all)
  with s1(1) show ?thesis by (rule that)
qed

section \<open>Making and freeing an object\<close>

lemma inv_new:
  assumes inv: "tab_inv N (s, p, r) L" and t: "t < N" "p t = Idle" and a: "objs s a = None"
  shows "tab_inv N (foo_new a i s, p(t := AllocLock a), r) L"
proof -
  let ?s = "foo_new a i s" and ?p = "p(t := AllocLock a)"
  have ok: "lists_ok s L" "counts_ok N s p r" "locks_ok N s p" using inv by (simp_all add: tab_inv_def)
  have o: "objs ?s b = (if b = a then Some \<lparr>f_count = 1, f_id = i, f_next = None\<rparr> else objs s b)" for b
    by (simp add: foo_new_def)
  have dead: "u < N \<Longrightarrow> ref_obj (p u) \<noteq> Some a" for u using referenced_alive [OF ok(2)] a by fastforce
  have out: "a \<notin> set (L j)" for j using listed [OF ok(1), of a j] a by auto
  have al: "chain (objs s) x xs \<Longrightarrow> chain (objs ?s) x xs" for x xs by (erule chain_frame) (auto simp: o a)
  have "lists_ok ?s L" unfolding lists_ok_def
  proof (intro conjI allI impI)
    show "chain (objs ?s) (fh ?s j) (L j)" for j using ok(1) by (intro al) (simp add: lists_ok_def foo_new_def)
    show "distinct (L j)" for j using ok(1) by (simp add: lists_ok_def)
    show "\<exists>f. objs ?s b = Some f \<and> HASH (f_id f) = j" if "b \<in> set (L j)" for j b
      using listed [OF ok(1) that] a by (auto simp: o)
  qed
  moreover have "counts_ok N ?s ?p r" unfolding counts_ok_def
  proof
    fix b
    show "case objs ?s b of None \<Rightarrow> r b + total N ?p b = 0
      | Some f \<Rightarrow> b < obj_brk ?s \<and> f_count f = int (r b + total N ?p b) \<and> 1 \<le> f_count f"
      using ok(2) [unfolded counts_ok_def, rule_format, of b] a total_upd [OF t(1), of p "AllocLock a" b] t(2)
      by (cases "b = a"; cases "objs s b") (simp_all add: foo_new_def pcref_def less_max_iff_disj)
  qed
  moreover have "apart_ok N ?s ?p L" unfolding apart_ok_def
  proof (intro conjI allI impI)
    fix b assume b: "objs ?s b \<noteq> None"
    show "(\<exists>i. b \<in> set (L i)) = (\<forall>u<N. apart (?p u) \<noteq> Some b)"
    proof (cases "b = a")
      case False
      then have "(\<forall>u<N. apart (?p u) \<noteq> Some b) = (\<forall>u<N. apart (p u) \<noteq> Some b)"
        using t by (intro apart_move) auto
      then show ?thesis using inv b False unfolding tab_inv_def apart_ok_def by (simp add: o)
    qed (use out t in auto)
  next
    fix u b assume "u < N" "apart (?p u) = Some b"
    then show "\<exists>f. objs ?s b = Some f \<and> f_count f = 1"
      using apart_alive [OF inv, of u b] a by (auto simp: o split: if_splits)
  qed
  moreover have "locks_ok N ?s ?p"
  proof (rule locks_upd [OF ok(3) t(1)])
    have "f_lock s a = None"
    proof (cases "f_lock s a")
      case (Some u)
      then show ?thesis using ok(3) dead [of u] by (auto simp: locks_ok_def dest: lock_ref)
    qed
    then show "f_lock ?s b = (if lock_obj (AllocLock a) = Some b then Some t else if lock_obj (p t) = Some b then None else f_lock s b)" for b
      using t by (simp add: foo_new_def)
  qed (use t in \<open>auto simp: foo_new_def\<close>)
  moreover have "found s L c \<Longrightarrow> found ?s L c" for c
    by (cases "(s, L, c)" rule: found.cases) (auto simp: o a)
  ultimately show ?thesis using inv by (simp add: tab_inv_def)
qed

lemma inv_free:
  assumes inv: "tab_inv N (s, p, r) L" and t: "t < N" "p t = ReleFree a"
  shows "tab_inv N (s\<lparr>f_lock := (f_lock s)(a := None), objs := (objs s)(a := None)\<rparr>, p(t := Idle), r) L"
    (is "tab_inv N (?s, ?p, r) L")
proof -
  have ok: "lists_ok s L" "counts_ok N s p r" "locks_ok N s p" using inv by (simp_all add: tab_inv_def)
  obtain f where f: "objs s a = Some f" "f_count f = 1" using apart_alive [OF inv t(1), of a] t(2) by auto
  have "\<not> (\<forall>u<N. apart (p u) \<noteq> Some a)" using t by auto
  then have out: "a \<notin> set (L j)" for j using inv f unfolding tab_inv_def apart_ok_def by auto
  have only: "u < N \<Longrightarrow> ref_obj (p u) = Some a \<Longrightarrow> u = t" for u using sole_owner [OF ok(2) f t(1)] t(2) by simp
  have o: "objs ?s b = (if b = a then None else objs s b)" for b by simp
  have "lists_ok ?s L"
  proof -
    have "chain (objs ?s) (fh s j) (L j)" for j
      by (rule chain_frame [of "objs s"]) (use ok(1) out in \<open>auto simp: lists_ok_def\<close>)
    moreover have "\<exists>f. objs ?s b = Some f \<and> HASH (f_id f) = j" if "b \<in> set (L j)" for j b
      using listed [OF ok(1) that] out that by auto
    ultimately show ?thesis using ok(1) by (simp add: lists_ok_def)
  qed
  moreover have "counts_ok N ?s ?p r" unfolding counts_ok_def
  proof
    fix b
    show "case objs ?s b of None \<Rightarrow> r b + total N ?p b = 0
      | Some f \<Rightarrow> b < obj_brk ?s \<and> f_count f = int (r b + total N ?p b) \<and> 1 \<le> f_count f"
      using ok(2) [unfolded counts_ok_def, rule_format, of b] f total_upd [OF t(1), of p Idle b] t(2)
      by (cases "b = a"; cases "objs s b") (simp_all add: pcref_def)
  qed
  moreover have "apart_ok N ?s ?p L" unfolding apart_ok_def
  proof (intro conjI allI impI)
    fix b assume b: "objs ?s b \<noteq> None"
    then have "b \<noteq> a" by auto
    have m: "(\<forall>u<N. apart (?p u) \<noteq> Some b) = (\<forall>u<N. apart (p u) \<noteq> Some b)"
      by (rule apart_move) (use t \<open>b \<noteq> a\<close> in auto)
    show "(\<exists>i. b \<in> set (L i)) = (\<forall>u<N. apart (?p u) \<noteq> Some b)"
      unfolding m by (rule apart_listed [OF inv]) (use b \<open>b \<noteq> a\<close> in simp)
  next
    fix u b assume u: "u < N" "apart (?p u) = Some b"
    have ut: "u \<noteq> t" using u by auto
    then have ap: "apart (p u) = Some b" using u by simp
    have "b \<noteq> a" using only [OF u(1)] apart_ref [OF ap] ut by blast
    then show "\<exists>f. objs ?s b = Some f \<and> f_count f = 1" using apart_alive [OF inv u(1) ap] by simp
  qed
  moreover have "locks_ok N ?s ?p" by (rule locks_upd [OF ok(3) t(1)]) (use t in simp_all)
  moreover have "found ?s L (?p u)" if u: "u < N" for u
  proof (cases "u = t")
    case False
    have "found s L (p u)" using inv u by (simp add: tab_inv_def)
    moreover have "ref_obj (p u) \<noteq> Some a" using False only [OF u] by blast
    ultimately show ?thesis using out False by (cases "(s, L, p u)" rule: found.cases) auto
  qed simp
  ultimately show ?thesis by (simp add: tab_inv_def)
qed

end
