(* ===== verification/Foo_Safety.thy ===== *)
theory Foo_Safety
  imports Foo_Steps
begin

text \<open>
  The hash table as a whole: a step of a thread never follows a pointer to memory that
  was freed and keeps the invariant, and some thread can always go on.
\<close>

section \<open>Every step keeps the invariant\<close>

text \<open>What a step of thread \<open>t\<close> yields: no error, and a state with the invariant.\<close>

definition kept :: "nat \<Rightarrow> fsys \<Rightarrow> nat \<Rightarrow> tab_err + pc \<times> table \<Rightarrow> bool" where
  "kept N x t y \<longleftrightarrow>
     (case x of (s, p, r) \<Rightarrow> \<exists>c s' L. y = Inr (c, s') \<and> tab_inv N (s', p(t := c), if c = Idle then returns (p t) r else r) L)"

lemma keptI:
  "tab_inv N (s', p(t := c), r') L \<Longrightarrow> r' = (if c = Idle then returns (p t) r else r) \<Longrightarrow> kept N (s, p, r) t (Inr (c, s'))"
  by (auto simp: kept_def)

lemma kept_move:
  assumes "tab_inv N (s, p, r) L" and "t < N" and "objs s' = objs s" "fh s' = fh s" "obj_brk s' = obj_brk s"
    and "apart c = apart (p t)" "found s L c" "locks_ok N s' (p(t := c))"
    and "\<And>b. (if c = Idle then returns (p t) r else r) b + pcref c b = r b + pcref (p t) b"
  shows "kept N (s, p, r) t (Inr (c, s'))"
  using inv_move [OF assms(1-5) assms(9) assms(6,8,7)] by (rule keptI) simp

lemma own: "locks_ok N s p \<Longrightarrow> t < N \<Longrightarrow> (hashlock s = Some t) = holds_hash (p t)"
  by (simp add: locks_ok_def)

lemma hold_kept:
  assumes inv: "tab_inv N (s, p, r) L" and t: "t < N"
    and c: "p t = HoldLock a \<and> c = Idle \<or> (\<exists>i. p t = FindHold i a \<and> c = FindDone i (Some a))"
    and h: "hold_step a c s = Some y"
  shows "kept N (s, p, r) t y"
proof -
  have fo: "found s L (p t)" and lk: "locks_ok N s p" and cn: "counts_ok N s p r"
    using inv t by (simp_all add: tab_inv_def)
  have "\<exists>f. objs s a = Some f" using c referenced_alive [OF cn t, of a] fo by auto
  then obtain f where f: "objs s a = Some f" by blast
  have alone: "apart (p u) \<noteq> Some a" if "u < N" for u
  proof (cases "p t = HoldLock a")
    case True
    then show ?thesis using not_apart [OF inv t _ _ that, of a] by simp
  next
    case False
    then have "\<exists>k. a \<in> set (L k)" using c fo by auto
    then show ?thesis using apart_listed [OF inv, of a] f that by simp
  qed
  have y: "y = Inr (c, add_count a 1 s)" using h f by (auto simp: hold_step_def with_obj_def split: if_splits)
  show ?thesis unfolding y
  proof (rule keptI [where L = L], rule inv_count [OF inv t f, where d = 1])
    show "1 \<le> f_count f + 1" using counted [OF cn f] by simp
    show "locks_ok N (add_count a 1 s) (p(t := c))"
      by (rule locks_upd [OF lk t]) (use c own [OF lk t] in \<open>auto simp: add_count_def\<close>)
    show "int ((if c = Idle then returns (p t) r else r) b + pcref c b) = int (r b + pcref (p t) b) + (if b = a then 1 else 0)" for b
      using c by (auto simp: pcref_def)
    show "found s L c" "apart c = apart (p t)" using c fo by auto
  qed (use alone in \<open>simp_all add: add_count_def\<close>)
qed

lemma alloc_kept:
  assumes inv: "tab_inv N (s, p, r) L" and t: "t < N" and a: "p t \<in> {AllocLock a, AllocBoth a, AllocInit a}"
    and h: "alloc_step t (p t) s = Some y"
  shows "kept N (s, p, r) t y"
proof -
  have lk: "locks_ok N s p" and cn: "counts_ok N s p r" using inv by (simp_all add: tab_inv_def)
  obtain f where f: "objs s a = Some f" using referenced_alive [OF cn t, of a] a by auto
  from a consider "p t = AllocLock a" | "p t = AllocBoth a" | "p t = AllocInit a" by auto
  then show ?thesis
  proof cases
    case 1
    then obtain s1 where s1: "link a s = Inr s1" using f by (simp add: link_def Let_def)
    then have y: "y = Inr (AllocBoth a, s1\<lparr>hashlock := Some t\<rparr>)" "hashlock s = None" using h 1 by (auto split: if_splits)
    obtain L' where "tab_inv N (s1\<lparr>hashlock := Some t\<rparr>, p(t := AllocBoth a), r) L'"
      using inv_link [OF inv t 1 y(2) s1 refl] by blast
    then show ?thesis unfolding y(1) by (rule keptI) simp
  next
    case 2
    then have y: "y = Inr (AllocInit a, s\<lparr>f_lock := (f_lock s)(a := Some t), hashlock := None\<rparr>)" "f_lock s a = None"
      using h f by (auto simp: with_obj_def split: if_splits)
    have "locks_ok N (s\<lparr>f_lock := (f_lock s)(a := Some t), hashlock := None\<rparr>) (p(t := AllocInit a))"
      by (rule locks_upd [OF lk t]) (use 2 y(2) in auto)
    then show ?thesis unfolding y(1) using 2
      by (intro kept_move [OF inv t]) (simp_all add: pcref_def)
  next
    case 3
    then have y: "y = Inr (Idle, s\<lparr>f_lock := (f_lock s)(a := None)\<rparr>)" using h f by (simp add: with_obj_def)
    have "locks_ok N (s\<lparr>f_lock := (f_lock s)(a := None)\<rparr>) (p(t := Idle))"
      by (rule locks_upd [OF lk t]) (use 3 in auto)
    then show ?thesis unfolding y using 3
      by (intro kept_move [OF inv t]) (simp_all add: pcref_def)
  qed
qed

lemma find_kept:
  assumes inv: "tab_inv N (s, p, r) L" and t: "t < N" and i: "p t = FindLock i \<or> (\<exists>w. p t = FindDone i w)"
    and h: "find_step t (p t) s = Some y"
  shows "kept N (s, p, r) t y"
proof -
  have ok: "lists_ok s L" "counts_ok N s p r" "locks_ok N s p" using inv by (simp_all add: tab_inv_def)
  from i consider "p t = FindLock i" | w where "p t = FindDone i w" by auto
  then show ?thesis
  proof cases
    case 1
    then have free: "hashlock s = None" using h by (auto split: if_splits)
    have lk: "locks_ok N (s\<lparr>hashlock := Some t\<rparr>) (p(t := c))" if "holds_hash c" "lock_obj c = None" for c
      by (rule locks_upd [OF ok(3) t]) (use 1 that free in auto)
    have "chain (objs s) (fh s (HASH i)) (L (HASH i))" using ok(1) by (simp add: lists_ok_def)
    from scan_chain [OF this list_length [OF ok(1,2)], of i] consider "scan (obj_brk s) s i (fh s (HASH i)) = Inr None"
      | a f where "scan (obj_brk s) s i (fh s (HASH i)) = Inr (Some a)" "a \<in> set (L (HASH i))" "objs s a = Some f" "f_id f = i"
      by blast
    then show ?thesis
    proof cases
      case 1
      then have y: "y = Inr (FindDone i None, s\<lparr>hashlock := Some t\<rparr>)" using h \<open>p t = FindLock i\<close> free by simp
      show ?thesis unfolding y using \<open>p t = FindLock i\<close>
        by (intro kept_move [OF inv t] lk) (simp_all add: pcref_def)
    next
      case 2
      then have y: "y = Inr (FindHold i a, s\<lparr>hashlock := Some t\<rparr>)" using h \<open>p t = FindLock i\<close> free by simp
      have "found s L (FindHold i a)" using 2 by auto
      then show ?thesis unfolding y using \<open>p t = FindLock i\<close>
        by (intro kept_move [OF inv t] lk) (simp_all add: pcref_def)
    qed
  next
    case 2
    then have y: "y = Inr (Idle, s\<lparr>hashlock := None\<rparr>)" using h by simp
    have "locks_ok N (s\<lparr>hashlock := None\<rparr>) (p(t := Idle))"
      by (rule locks_upd [OF ok(3) t]) (use 2 in auto)
    then show ?thesis unfolding y using 2
      by (intro kept_move [OF inv t]) (cases w; simp add: pcref_def)+
  qed
qed

lemma drop_kept:
  assumes inv: "tab_inv N (s, p, r) L" and t: "t < N" and c: "p t = ReleLock a \<or> p t = ReleBoth a"
    and f: "objs s a = Some f" "f_count f \<noteq> 1"
    and s': "objs s' = objs (add_count a (-1) s)" "fh s' = fh s" "obj_brk s' = obj_brk s" and lk: "locks_ok N s' (p(t := Idle))"
  shows "kept N (s, p, r) t (Inr (Idle, s'))"
proof (rule keptI [where r' = r], rule inv_count [OF inv t f(1), where d = "-1"])
  show "1 \<le> f_count f + - 1" using counted [OF _ f(1), of N p r] inv f(2) by (simp add: tab_inv_def)
  show "apart (p u) \<noteq> Some a" if "u < N" for u using not_apart [OF inv t _ _ that, of a] c by auto
  show "int (r b + pcref Idle b) = int (r b + pcref (p t) b) + (if b = a then - 1 else 0)" for b
    using c by (auto simp: pcref_def)
qed (use c s' lk in auto)

lemma rele_kept:
  assumes inv: "tab_inv N (s, p, r) L" and t: "t < N" and a: "p t \<in> {ReleLock a, ReleHash a, ReleBoth a, ReleFree a}"
    and h: "rele_step t (p t) s = Some y"
  shows "kept N (s, p, r) t y"
proof -
  have lk: "locks_ok N s p" and cn: "counts_ok N s p r" using inv by (simp_all add: tab_inv_def)
  obtain f where f: "objs s a = Some f" using referenced_alive [OF cn t, of a] a by auto
  from a consider (lock) "p t = ReleLock a" | (hash) "p t = ReleHash a" | (both) "p t = ReleBoth a" | (free) "p t = ReleFree a" by auto
  then show ?thesis
  proof cases
    case lock
    show ?thesis
    proof (cases "f_count f = 1")
      case True
      then have y: "y = Inr (ReleHash a, s)" using h lock f by (auto simp: with_obj_def split: if_splits)
      have "locks_ok N s (p(t := ReleHash a))" by (rule locks_upd [OF lk t]) (use lock in auto)
      then show ?thesis unfolding y using lock by (intro kept_move [OF inv t]) (simp_all add: pcref_def)
    next
      case False
      then have y: "y = Inr (Idle, add_count a (-1) s)" using h lock f by (auto simp: with_obj_def split: if_splits)
      have "locks_ok N (add_count a (-1) s) (p(t := Idle))"
        by (rule locks_upd [OF lk t]) (use lock in \<open>auto simp: add_count_def\<close>)
      then show ?thesis unfolding y using lock by (intro drop_kept [OF inv t _ f False]) (simp_all add: add_count_def)
    qed
  next
    case hash
    then have y: "y = Inr (ReleBoth a, s\<lparr>hashlock := Some t\<rparr>)" "hashlock s = None" using h by (auto split: if_splits)
    have "locks_ok N (s\<lparr>hashlock := Some t\<rparr>) (p(t := ReleBoth a))"
      by (rule locks_upd [OF lk t]) (use hash y(2) in auto)
    then show ?thesis unfolding y(1) using hash by (intro kept_move [OF inv t]) (simp_all add: pcref_def)
  next
    case both
    then have unlocked: "f_lock s a = None" using h f by (auto simp: with_obj_def split: if_splits)
    show ?thesis
    proof (cases "f_count f = 1")
      case True
      obtain s1 L' where s1: "unlink_obj a s = Inr s1"
        "tab_inv N (s1\<lparr>hashlock := None, f_lock := (f_lock s1)(a := Some t)\<rparr>, p(t := ReleFree a), r) L'"
        using inv_unlink [OF inv t both f True unlocked] by blast
      then have "y = Inr (ReleFree a, s1\<lparr>hashlock := None, f_lock := (f_lock s1)(a := Some t)\<rparr>)"
        using h both f True unlocked by (simp add: with_obj_def)
      then show ?thesis using keptI [OF s1(2)] by simp
    next
      case False
      then have y: "y = Inr (Idle, (add_count a (-1) s)\<lparr>hashlock := None\<rparr>)" using h both f unlocked by (simp add: with_obj_def)
      have "locks_ok N ((add_count a (-1) s)\<lparr>hashlock := None\<rparr>) (p(t := Idle))"
        by (rule locks_upd [OF lk t]) (use both in \<open>auto simp: add_count_def\<close>)
      then show ?thesis unfolding y using both by (intro drop_kept [OF inv t _ f False]) (simp_all add: add_count_def)
    qed
  next
    case free
    then have "y = Inr (Idle, s\<lparr>f_lock := (f_lock s)(a := None), objs := (objs s)(a := None)\<rparr>)" using h f by (simp add: with_obj_def)
    then show ?thesis using keptI [OF inv_free [OF inv t free]] free by simp
  qed
qed

lemma step_kept:
  assumes "tab_inv N (s, p, r) L" and "t < N" and "foo_step t (p t) s = Some y"
  shows "kept N (s, p, r) t y"
proof (cases "p t")
  case (FindHold i a)
  then show ?thesis using assms hold_kept [OF assms(1,2), of a "FindDone i (Some a)"] by simp
qed (use assms hold_kept [OF assms(1,2), of _ Idle] alloc_kept [OF assms(1,2)] find_kept [OF assms(1,2)] rele_kept [OF assms(1,2)]
  in \<open>auto\<close>)

lemma inv_call:
  assumes inv: "tab_inv N (s, p, r) L" and t: "t < N" "p t = Idle" and a: "0 < r a"
    and c: "c = HoldLock a \<or> c = ReleLock a"
  shows "tab_inv N (s, p(t := c), r(a := r a - 1)) L"
proof (rule inv_move [OF inv t(1)])
  show "locks_ok N s (p(t := c))"
    by (rule locks_upd [of _ s]) (use inv t c in \<open>auto simp: tab_inv_def\<close>)
  show "(r(a := r a - 1)) b + pcref c b = r b + pcref (p t) b" for b
    using a t(2) c by (auto simp: pcref_def)
qed (use t c in auto)

lemma inv_step:
  assumes "tab_step N x y" and "tab_inv N x L"
  shows "\<exists>L'. tab_inv N y L'"
  using assms
proof cases
  case (call_alloc t p s a r i)
  then show ?thesis using inv_new [of N s p r L t a i] assms(2) by auto
next
  case (call_find t p s r i)
  have "tab_inv N (s, p(t := FindLock i), r) L"
  proof (rule inv_move [of _ s])
    show "locks_ok N s (p(t := FindLock i))"
      by (rule locks_upd [of _ s]) (use assms(2) call_find in \<open>auto simp: tab_inv_def\<close>)
  qed (use assms(2) call_find in \<open>auto simp: pcref_def\<close>)
  then show ?thesis using call_find by blast
next
  case (call_hold t p r a s)
  then show ?thesis using inv_call [of N s p r L t a] assms(2) by blast
next
  case (call_rele t p r a s)
  then show ?thesis using inv_call [of N s p r L t a] assms(2) by blast
next
  case (run t p s c s' r)
  then have "kept N (s, p, r) t (Inr (c, s'))" using step_kept [of N s p r L t] assms(2) by simp
  then show ?thesis using run(2) by (simp add: kept_def)
qed

lemma reach_inv: "tab_reach N x \<Longrightarrow> \<exists>L. tab_inv N x L"
proof (induction rule: tab_reach.induct)
  case empty
  have "tab_inv N (empty_tab, (\<lambda>_. Idle), (\<lambda>_. 0)) (\<lambda>_. [])"
    by (simp add: empty_tab_def tab_inv_def lists_ok_def counts_ok_def apart_ok_def locks_ok_def total_def pcref_def)
  then show ?case by blast
next
  case (step x y)
  then show ?case using inv_step by blast
qed

section \<open>Some thread can always go on\<close>

text \<open>A thread waits for a lock that it does not have.\<close>

lemma step_waits:
  assumes "foo_step t c s = None"
  shows "c = Idle \<or> lock_obj c = None \<and> ((\<exists>a. f_lock s a \<noteq> None) \<or> \<not> holds_hash c \<and> hashlock s \<noteq> None)"
  using assms by (cases c) (auto simp: hold_step_def with_obj_def split: if_splits option.splits sum.splits)

lemma no_deadlock:
  assumes inv: "tab_inv N (s, p, r) L" and busy: "u < N" "p u \<noteq> Idle"
  shows "\<exists>t<N. \<exists>c s'. foo_step t (p t) s = Some (Inr (c, s'))"
proof -
  have lk: "locks_ok N s p" using inv by (simp add: tab_inv_def)
  have "\<exists>t<N. foo_step t (p t) s \<noteq> None"
  proof (rule ccontr)
    assume "\<not> ?thesis"
    then have w: "foo_step t (p t) s = None" if "t < N" for t using that by blast
    have no: "f_lock s a = None" for a
    proof (rule ccontr)
      assume "f_lock s a \<noteq> None"
      then obtain t where "t < N" "lock_obj (p t) = Some a" using lk unfolding locks_ok_def by blast
      then show False using step_waits [OF w, of t] by auto
    qed
    have "hashlock s = None"
    proof (rule ccontr)
      assume "hashlock s \<noteq> None"
      then obtain t where "t < N" "holds_hash (p t)" using lk unfolding locks_ok_def by blast
      then show False using step_waits [OF w, of t] no by auto
    qed
    then show False using step_waits [OF w [OF busy(1)]] busy(2) no by simp
  qed
  then obtain t y where t: "t < N" "foo_step t (p t) s = Some y" by blast
  then show ?thesis using step_kept [OF inv t] by (auto simp: kept_def)
qed

section \<open>Every call returns\<close>

text \<open>The steps that a call has at most still to do.\<close>

fun left :: "pc \<Rightarrow> nat" where
  "left Idle = 0"
| "left (AllocLock a) = 3" | "left (AllocBoth a) = 2" | "left (AllocInit a) = 1"
| "left (HoldLock a) = 1"
| "left (FindLock i) = 3" | "left (FindHold i a) = 2" | "left (FindDone i r) = 1"
| "left (ReleLock a) = 4" | "left (ReleHash a) = 3" | "left (ReleBoth a) = 2" | "left (ReleFree a) = 1"

definition work :: "nat \<Rightarrow> (nat \<Rightarrow> pc) \<Rightarrow> nat" where
  "work N p = (\<Sum>t<N. left (p t))"

text \<open>\<open>k\<close> steps of the threads, with no new call.\<close>

inductive tab_run :: "nat \<Rightarrow> nat \<Rightarrow> fsys \<Rightarrow> fsys \<Rightarrow> bool" for N where
  stop: "tab_run N 0 x x"
| more: "tab_run N k x (s, p, r) \<Longrightarrow> t < N \<Longrightarrow> foo_step t (p t) s = Some (Inr (c, s')) \<Longrightarrow>
    tab_run N (Suc k) x (s', p(t := c), if c = Idle then returns (p t) r else r)"

lemma step_left: "foo_step t c s = Some (Inr (c', s')) \<Longrightarrow> left c' < left c"
  by (cases c) (auto simp: hold_step_def with_obj_def split: if_splits option.splits sum.splits)

lemma work_step:
  assumes "t < N" and "left c < left (p t)"
  shows "work N (p(t := c)) < work N p"
proof -
  have "work N (p(t := c)) = left c + (\<Sum>u\<in>{..<N} - {t}. left (p u))"
    using assms(1) by (simp add: work_def sum.remove [of _ t])
  moreover have "work N p = left (p t) + (\<Sum>u\<in>{..<N} - {t}. left (p u))"
    using assms(1) by (simp add: work_def sum.remove [of _ t])
  ultimately show ?thesis using assms(2) by simp
qed

lemma run_work: "tab_run N k x y \<Longrightarrow> k + work N (fst (snd y)) \<le> work N (fst (snd x))"
proof (induction rule: tab_run.induct)
  case (more k x s p r t c s')
  then show ?case using work_step [where p = p, OF more.hyps(2) step_left [OF more.hyps(3)]] by (simp add: fun_upd_def)
qed simp

lemma run_reach: "tab_run N k x y \<Longrightarrow> tab_reach N x \<Longrightarrow> tab_reach N y"
proof (induction rule: tab_run.induct)
  case (more k x s p r t c s')
  then show ?case using tab_reach.step [OF _ tab_step.run] by blast
qed

lemma find_none:
  assumes inv: "tab_inv N (s, p, r) L" and t: "p t = FindLock i" and h: "foo_step t (p t) s = Some (Inr (FindDone i None, s'))"
    and f: "objs s a = Some f" "f_id f = i"
  shows "\<exists>u<N. apart (p u) = Some a"
proof -
  have ok: "lists_ok s L" "counts_ok N s p r" using inv by (simp_all add: tab_inv_def)
  have "chain (objs s) (fh s (HASH i)) (L (HASH i))" using ok(1) by (simp add: lists_ok_def)
  moreover have "scan (obj_brk s) s i (fh s (HASH i)) = Inr None"
    using h t by (auto split: if_splits sum.splits option.splits)
  ultimately have "a \<notin> set (L (HASH i))" using scan_chain [OF _ list_length [OF ok], where i = i] f by fastforce
  moreover have "a \<in> set (L k) \<Longrightarrow> k = HASH i" for k using listed [OF ok(1), of a k] f by simp
  ultimately show ?thesis using apart_listed [OF inv, of a] f(1) by auto
qed

end
