(* ===== verification/Foo_Properties.thy ===== *)
theory Foo_Properties
  imports Foo_Safety
begin

text \<open>
  What the hash table of \<^verbatim>\<open>threads/mutex2.c\<close> promises to its callers, in every order in
  which the threads take their turns.
\<close>

text \<open>An object is allocated by one thread while another looks for it.\<close>

definition new_obj :: table where
  "new_obj = foo_new 0 7 empty_tab"

definition linked_obj :: table where
  "linked_obj = new_obj\<lparr>fh := (fh new_obj)(7 := Some 0), hashlock := Some 0\<rparr>"

lemma reach_new: "tab_reach 2 (new_obj, (\<lambda>_. Idle)(0 := AllocLock 0), (\<lambda>_. 0))"
  unfolding new_obj_def
  by (rule tab_reach.step [OF tab_reach.empty tab_step.call_alloc]) (simp_all add: empty_tab_def)

lemma reach_looking: "tab_reach 2 (new_obj, (\<lambda>_. Idle)(0 := AllocLock 0, Suc 0 := FindLock 7), (\<lambda>_. 0))"
  by (rule tab_reach.step [OF reach_new tab_step.call_find]) simp_all

lemma step_linked: "foo_step 0 (AllocLock 0) new_obj = Some (Inr (AllocBoth 0, linked_obj))"
  by (simp add: linked_obj_def new_obj_def foo_new_def empty_tab_def link_def set_next_def HASH_def Let_def)




text \<open>
  C35. Every call returns and there is no deadlock, as \<^verbatim>\<open>foo_rele\<close> gives up the object's
  lock before it takes the table's: from a reachable state the threads can take no more
  steps than their calls have left, four at most each, without a new call, and as long as a
  call has not returned some thread can take a step.
\<close>

theorem foo_calls_return:
  assumes "tab_reach N x" and "tab_run N k x (s, p, r)"
  shows "k + work N p \<le> work N (fst (snd x)) \<and>
    ((\<forall>t<N. p t = Idle) \<or> (\<exists>t<N. \<exists>c s'. foo_step t (p t) s = Some (Inr (c, s'))))"
proof -
  obtain L where "tab_inv N (s, p, r) L" using reach_inv [OF run_reach [OF assms(2,1)]] by blast
  then show ?thesis using run_work [OF assms(2)] no_deadlock [of N s p r L] by auto
qed

theorem foo_calls_return_witness:
  "work 2 ((\<lambda>_. Idle)(0 := AllocLock 0, Suc 0 := FindLock 7)) = 6 \<and>
   1 + work 2 ((\<lambda>_. Idle)(0 := AllocBoth 0, Suc 0 := FindLock 7)) \<le> 6"
proof -
  let ?x = "(new_obj, (\<lambda>_. Idle)(0 := AllocLock 0, Suc 0 := FindLock 7), (\<lambda>_. 0 :: nat))"
  have "tab_run 2 (Suc 0) ?x (linked_obj, (\<lambda>_. Idle)(0 := AllocBoth 0, Suc 0 := FindLock 7), (\<lambda>_. 0))"
    using tab_run.more [OF tab_run.stop [of 2 ?x], of 0 "AllocBoth 0" linked_obj] step_linked
    by (simp add: fun_upd_twist [of "Suc 0" 0])
  then show ?thesis using foo_calls_return [OF reach_looking]
    by (simp add: work_def numeral_2_eq_2)
qed

end
