(* ===== verification/Gai.thy ===== *)
theory Gai
  imports Inet_Addr
begin

text \<open>
  \<^verbatim>\<open>getaddrinfo\<close> and \<^verbatim>\<open>getnameinfo\<close> of \<^verbatim>\<open>unpv13e/libgai\<close>, compiled with
  \<^verbatim>\<open>IPv4\<close>, \<^verbatim>\<open>IPv6\<close> and \<^verbatim>\<open>UNIXdomain\<close> and without \<^verbatim>\<open>HAVE_SOCKADDR_SA_LEN\<close>. The linked
  list of results is a list of records; the state has it together with what decides which
  allocations succeed, the number of allocations that have not been freed, and the paths
  that were unlinked. The name service (\<^verbatim>\<open>gethostbyname\<close> and the like) is an argument;
  the address conversions are those of \<^verbatim>\<open>libfree\<close>.
\<close>

unbundle bit_operations_syntax

section \<open>Data\<close>

abbreviation (input) AF_UNSPEC :: family where "AF_UNSPEC \<equiv> AF_OTHER 0"
abbreviation (input) AF_LOCAL :: family where "AF_LOCAL \<equiv> AF_OTHER 1"

definition SOCK_STREAM :: int where "SOCK_STREAM = 1"
definition SOCK_DGRAM :: int where "SOCK_DGRAM = 2"
definition SOCK_RAW :: int where "SOCK_RAW = 3"

definition AI_PASSIVE :: "32 word" where "AI_PASSIVE = 1"
definition AI_CANONNAME :: "32 word" where "AI_CANONNAME = 2"
definition AI_CLONE :: "32 word" where "AI_CLONE = 4"

datatype eai =
    EAI_NONE | EAI_ADDRFAMILY | EAI_AGAIN | EAI_BADFLAGS | EAI_FAIL | EAI_FAMILY | EAI_MEMORY | EAI_NODATA
  | EAI_NONAME | EAI_SERVICE | EAI_SOCKTYPE | EAI_SYSTEM | EAI_UNKNOWN int

text \<open>Socket addresses; the port is in network byte order. The last kind has the number of another family.\<close>

datatype sockaddr = Sin "16 word" "8 word list" | Sin6 "16 word" "8 word list" | Sun string | Sa_other int

record addrinfo =
  ai_flags :: "32 word"
  ai_family :: family
  ai_socktype :: int
  ai_protocol :: int
  ai_addrlen :: nat
  ai_canonname :: "string option"
  ai_addr :: "sockaddr option"

datatype h_err = HOST_NOT_FOUND | TRY_AGAIN | NO_RECOVERY | NO_DATA | H_OTHER int

record hostent =
  h_name :: string
  h_addrtype :: family
  h_addr_list :: "8 word list list"

text \<open>
  The name service. The first argument of \<open>gethostbyname\<close> is the resolver's option
  \<^verbatim>\<open>RES_USE_INET6\<close>; ports are in network byte order.
\<close>

record netdb =
  gethostbyname :: "bool \<Rightarrow> string \<Rightarrow> h_err + hostent"
  gethostbyname2 :: "string \<Rightarrow> family \<Rightarrow> hostent option"
  getservbyname :: "string \<Rightarrow> string \<Rightarrow> 16 word option"
  gethostbyaddr :: "8 word list \<Rightarrow> family \<Rightarrow> string option"
  getservbyport :: "16 word \<Rightarrow> string option \<Rightarrow> string option"
  nodename :: "string option"

record gai =
  oks :: "bool list"
  live :: nat
  ais :: "addrinfo list"
  canon :: "string option"
  unlinked :: "string list"

text \<open>The process ends, or the code's behaviour is undefined.\<close>

datatype gai_stop = Quits string | Undef string

type_synonym 'a gam = "(gai, gai_stop, 'a) cm"

text \<open>An allocation: a list that is used up means success.\<close>

definition galloc :: "bool gam" where
  "galloc =
     (\<lambda>s. case oks s of
            [] \<Rightarrow> Inr (True, s\<lparr>live := live s + 1\<rparr>)
          | ok # rest \<Rightarrow> Inr (ok, s\<lparr>oks := rest, live := live s + (if ok then 1 else 0)\<rparr>))"

definition flag_set :: "32 word \<Rightarrow> 32 word \<Rightarrow> bool" where
  "flag_set fl m \<longleftrightarrow> fl AND m \<noteq> 0"

definition htons :: "16 word \<Rightarrow> 16 word" where
  "htons w = push_bit 8 w OR drop_bit 8 w"

definition isxdigit :: "char \<Rightarrow> bool" where
  "isxdigit c \<longleftrightarrow> xdigit c \<noteq> None"

text \<open>The first character of a string, the null character if it is empty.\<close>

definition char0 :: "string \<Rightarrow> char" where
  "char0 s = (case s of [] \<Rightarrow> NUL | c # _ \<Rightarrow> c)"

text \<open>A pointer that is null or to an empty string.\<close>

definition absent :: "string option \<Rightarrow> bool" where
  "absent s \<longleftrightarrow> s = None \<or> s = Some []"

section \<open>Checking and planning\<close>

definition ga_echeck :: "string option \<Rightarrow> string option \<Rightarrow> 32 word \<Rightarrow> family \<Rightarrow> int \<Rightarrow> eai" where
  "ga_echeck hostname servname flags fam socktype =
     (if flag_set flags (NOT (AI_PASSIVE OR AI_CANONNAME)) then EAI_BADFLAGS
      else if absent hostname \<and> absent servname then EAI_NONAME
      else case fam of
        AF_INET \<Rightarrow> if socktype \<noteq> 0 \<and> socktype \<noteq> SOCK_STREAM \<and> socktype \<noteq> SOCK_DGRAM \<and> socktype \<noteq> SOCK_RAW
                   then EAI_SOCKTYPE else EAI_NONE
      | AF_INET6 \<Rightarrow> if socktype \<noteq> 0 \<and> socktype \<noteq> SOCK_STREAM \<and> socktype \<noteq> SOCK_DGRAM \<and> socktype \<noteq> SOCK_RAW
                    then EAI_SOCKTYPE else EAI_NONE
      | AF_OTHER n \<Rightarrow>
          if n = 0 then EAI_NONE
          else if n = 1 then if socktype \<noteq> 0 \<and> socktype \<noteq> SOCK_STREAM \<and> socktype \<noteq> SOCK_DGRAM then EAI_SOCKTYPE else EAI_NONE
          else EAI_FAMILY)"

text \<open>The \<^verbatim>\<open>switch\<close> that occurs three times in \<^verbatim>\<open>ga_nsearch\<close>.\<close>

fun search_for :: "string \<Rightarrow> string \<Rightarrow> family \<Rightarrow> (string \<times> family) list" where
  "search_for host6 host4 AF_INET = [(host4, AF_INET)]"
| "search_for host6 host4 AF_INET6 = [(host6, AF_INET6)]"
| "search_for host6 host4 (AF_OTHER n) = (if n = 0 then [(host6, AF_INET6), (host4, AF_INET)] else [])"

definition ga_nsearch :: "string option \<Rightarrow> addrinfo \<Rightarrow> (string \<times> family) list gam" where
  "ga_nsearch hostname hints =
     (let search =
        (if absent hostname
         then if flag_set (ai_flags hints) AI_PASSIVE then search_for ''0::0'' ''0.0.0.0'' (ai_family hints)
              else search_for ''0::1'' ''localhost'' (ai_family hints)
         else search_for (the hostname) (the hostname) (ai_family hints))
      in if length search < 1 \<or> length search > 2 then fail_with (Quits ''nsearch'') else ret search)"

section \<open>Making an entry\<close>

datatype raw_addr = Raw "8 word list" | Path string

definition upd_last :: "(addrinfo \<Rightarrow> addrinfo) \<Rightarrow> gai \<Rightarrow> gai" where
  "upd_last f s = s\<lparr>ais := butlast (ais s) @ [f (last (ais s))]\<rparr>"

text \<open>\<^verbatim>\<open>calloc\<close> of the socket address, \<open>sa\<close>, and the fields that refer to it.\<close>

definition set_addr :: "sockaddr \<Rightarrow> nat \<Rightarrow> eai gam" where
  "set_addr sa len =
     bnd galloc (\<lambda>ok.
     if \<not> ok then ret EAI_MEMORY
     else thn (modify (upd_last (\<lambda>ai. ai\<lparr>ai_addr := Some sa, ai_addrlen := len\<rparr>))) (ret EAI_NONE))"

definition new_ai :: "addrinfo \<Rightarrow> family \<Rightarrow> addrinfo" where
  "new_ai hints fam =
     \<lparr>ai_flags = (if ai_socktype hints = 0 then AI_CLONE else 0), ai_family = fam, ai_socktype = ai_socktype hints,
      ai_protocol = ai_protocol hints, ai_addrlen = 0, ai_canonname = None, ai_addr = None\<rparr>"

text \<open>
  The \<^verbatim>\<open>switch\<close> of \<^verbatim>\<open>ga_aistruct\<close>. The path of a Unix domain socket has room for 108
  bytes.
\<close>

fun fill_addr :: "addrinfo \<Rightarrow> family \<Rightarrow> raw_addr \<Rightarrow> eai gam" where
  "fill_addr hints AF_INET (Raw bs) =
     (if length bs < 4 then fail_with (Undef ''sin_addr'') else set_addr (Sin 0 (take 4 bs)) 16)"
| "fill_addr hints AF_INET6 (Raw bs) =
     (if length bs < 16 then fail_with (Undef ''sin6_addr'') else set_addr (Sin6 0 (take 16 bs)) 28)"
| "fill_addr hints (AF_OTHER n) (Path p) =
     (if n \<noteq> 1 then ret EAI_NONE
      else if length p \<ge> 108 then ret EAI_SERVICE
      else bnd (set_addr (Sun p) 110) (\<lambda>rc.
           if rc = EAI_NONE \<and> flag_set (ai_flags hints) AI_PASSIVE
           then thn (modify (\<lambda>s. s\<lparr>unlinked := unlinked s @ [p]\<rparr>)) (ret rc) else ret rc))"
| "fill_addr hints (AF_OTHER n) (Raw bs) = (if n = 1 then fail_with (Undef ''sun_path'') else ret EAI_NONE)"
| "fill_addr hints fam addr = fail_with (Undef ''address'')"

definition ga_aistruct :: "addrinfo \<Rightarrow> raw_addr \<Rightarrow> family \<Rightarrow> eai gam" where
  "ga_aistruct hints addr fam =
     bnd galloc (\<lambda>ok.
     if \<not> ok then ret EAI_MEMORY
     else thn (modify (\<lambda>s. s\<lparr>ais := ais s @ [new_ai hints fam]\<rparr>)) (fill_addr hints fam addr))"

definition ga_unix :: "netdb \<Rightarrow> string \<Rightarrow> addrinfo \<Rightarrow> eai gam" where
  "ga_unix env path hints =
     (if ai_family hints \<noteq> AF_UNSPEC \<and> ai_family hints \<noteq> AF_LOCAL then ret EAI_ADDRFAMILY
      else
      let stream = hints\<lparr>ai_socktype := SOCK_STREAM\<rparr>;
          hints' = (if ai_socktype hints = 0 then hints\<lparr>ai_socktype := SOCK_DGRAM\<rparr> else hints)
      in bnd (if ai_socktype hints = 0 then ga_aistruct stream (Path path) AF_LOCAL else ret EAI_NONE) (\<lambda>rc.
      if rc \<noteq> EAI_NONE then ret rc else
      bnd (ga_aistruct hints' (Path path) AF_LOCAL) (\<lambda>rc.
      if rc \<noteq> EAI_NONE then ret rc
      else if flag_set (ai_flags hints) AI_CANONNAME
      then (case nodename env of
              None \<Rightarrow> ret EAI_SYSTEM
            | Some name \<Rightarrow>
                bnd galloc (\<lambda>ok.
                if \<not> ok then ret EAI_MEMORY
                else thn (modify (\<lambda>s. s\<lparr>ais := (hd (ais s))\<lparr>ai_canonname := Some name\<rparr> # tl (ais s)\<rparr>)) (ret EAI_NONE)))
      else ret EAI_NONE)))"

section \<open>The service\<close>

text \<open>
  \<^verbatim>\<open>ga_clone\<close>: whether it succeeded, and the new entry, which is linked in behind the old
  one as soon as it is allocated.
\<close>

definition ga_clone :: "addrinfo \<Rightarrow> (bool \<times> addrinfo list) gam" where
  "ga_clone ai =
     bnd galloc (\<lambda>ok.
     if \<not> ok then ret (False, [])
     else let new = ai\<lparr>ai_flags := 0, ai_canonname := None, ai_addr := None\<rparr>
       in bnd galloc (\<lambda>ok.
          if \<not> ok then ret (False, [new]) else ret (True, [new\<lparr>ai_addr := ai_addr ai\<rparr>])))"

text \<open>Storing the port; the number is what \<^verbatim>\<open>nfound\<close> grows by.\<close>

definition set_port :: "16 word \<Rightarrow> addrinfo \<Rightarrow> (nat \<times> addrinfo) gam" where
  "set_port port ai =
     (case (ai_family ai, ai_addr ai) of
        (AF_INET, Some (Sin _ a)) \<Rightarrow> ret (1, ai\<lparr>ai_addr := Some (Sin port a)\<rparr>)
      | (AF_INET6, Some (Sin6 _ a)) \<Rightarrow> ret (1, ai\<lparr>ai_addr := Some (Sin6 port a)\<rparr>)
      | (AF_OTHER _, _) \<Rightarrow> ret (0, ai)
      | _ \<Rightarrow> fail_with (Undef ''ai_addr''))"

text \<open>The loop of \<^verbatim>\<open>ga_port\<close>: the number found (\<open>None\<close> for -1) and the list it leaves.\<close>

fun port_loop :: "16 word \<Rightarrow> int \<Rightarrow> addrinfo list \<Rightarrow> (nat option \<times> addrinfo list) gam" where
  "port_loop port socktype [] = ret (Some 0, [])"
| "port_loop port socktype (ai # rest) =
     (if \<not> flag_set (ai_flags ai) AI_CLONE \<and> ai_socktype ai \<noteq> socktype
      then bnd (port_loop port socktype rest) (\<lambda>(n, xs). ret (n, ai # xs))
      else
      bnd (if flag_set (ai_flags ai) AI_CLONE \<and> ai_socktype ai \<noteq> 0
           then bnd (ga_clone ai) (\<lambda>(ok, new). ret (ok, [ai], new)) else ret (True, [], [ai])) (\<lambda>(ok, before, here).
      if \<not> ok then ret (None, before @ here @ rest)
      else bnd (set_port port ((hd here)\<lparr>ai_socktype := socktype\<rparr>)) (\<lambda>(k, new).
           bnd (port_loop port socktype rest) (\<lambda>(n, xs).
           ret (map_option ((+) k) n, before @ new # xs)))))"

definition ga_port :: "16 word \<Rightarrow> int \<Rightarrow> nat option gam" where
  "ga_port port socktype =
     bnd (gets ais) (\<lambda>aihead.
     bnd (port_loop port socktype aihead) (\<lambda>(n, xs).
     thn (modify (\<lambda>s. s\<lparr>ais := xs\<rparr>)) (ret n)))"

text \<open>\<^verbatim>\<open>atoi\<close> of a string that starts with a digit; beyond an \<^verbatim>\<open>int\<close> it is undefined.\<close>

definition atoi_port :: "string \<Rightarrow> 16 word gam" where
  "atoi_port serv =
     (let n = digits_val 0 (takeWhile isdigit serv)
      in if n \<ge> 2147483648 then fail_with (Undef ''atoi'') else ret (htons (of_nat n)))"

text \<open>\<^verbatim>\<open>nfound += rc\<close> behind a call of \<^verbatim>\<open>ga_port\<close>, or the return for -1.\<close>

definition add_found :: "nat option gam \<Rightarrow> (nat \<Rightarrow> eai gam) \<Rightarrow> nat \<Rightarrow> eai gam" where
  "add_found call k nfound = bnd call (\<lambda>rc. case rc of None \<Rightarrow> ret EAI_MEMORY | Some n \<Rightarrow> k (nfound + n))"

definition serv_end :: "addrinfo \<Rightarrow> nat \<Rightarrow> eai gam" where
  "serv_end hints nfound =
     ret (if nfound = 0 then if ai_socktype hints = 0 then EAI_NONAME else EAI_SERVICE else EAI_NONE)"

definition serv_udp :: "netdb \<Rightarrow> addrinfo \<Rightarrow> string \<Rightarrow> nat \<Rightarrow> eai gam" where
  "serv_udp env hints serv nfound =
     (if ai_socktype hints = 0 \<or> ai_socktype hints = SOCK_DGRAM
      then case getservbyname env serv ''udp'' of
             Some port \<Rightarrow> add_found (ga_port port SOCK_DGRAM) (serv_end hints) nfound
           | None \<Rightarrow> serv_end hints nfound
      else serv_end hints nfound)"

definition ga_serv :: "netdb \<Rightarrow> addrinfo \<Rightarrow> string \<Rightarrow> eai gam" where
  "ga_serv env hints serv =
     (if isdigit (char0 serv)
      then bnd (atoi_port serv) (\<lambda>port.
           if ai_socktype hints \<noteq> 0 then add_found (ga_port port (ai_socktype hints)) (serv_end hints) 0
           else add_found (ga_port port SOCK_STREAM) (add_found (ga_port port SOCK_DGRAM) (serv_end hints)) 0)
      else if ai_socktype hints = 0 \<or> ai_socktype hints = SOCK_STREAM
      then case getservbyname env serv ''tcp'' of
             Some port \<Rightarrow> add_found (ga_port port SOCK_STREAM) (serv_udp env hints serv) 0
           | None \<Rightarrow> serv_udp env hints serv 0
      else serv_udp env hints serv 0)"

section \<open>The lookup\<close>

definition h_error :: "h_err \<Rightarrow> eai" where
  "h_error e =
     (case e of HOST_NOT_FOUND \<Rightarrow> EAI_NONAME | TRY_AGAIN \<Rightarrow> EAI_AGAIN | NO_RECOVERY \<Rightarrow> EAI_FAIL
      | NO_DATA \<Rightarrow> EAI_NODATA | H_OTHER _ \<Rightarrow> EAI_NONAME)"

text \<open>One entry for each address that the name service returned.\<close>

fun addr_loop :: "addrinfo \<Rightarrow> family \<Rightarrow> 8 word list list \<Rightarrow> eai gam" where
  "addr_loop hints fam [] = ret EAI_NONE"
| "addr_loop hints fam (a # as) =
     bnd (ga_aistruct hints (Raw a) fam) (\<lambda>rc. if rc \<noteq> EAI_NONE then ret rc else addr_loop hints fam as)"

definition lookup :: "netdb \<Rightarrow> nat \<Rightarrow> string \<Rightarrow> family \<Rightarrow> h_err + hostent" where
  "lookup env nsearch host fam =
     (if nsearch = 2 then (case gethostbyname2 env host fam of Some h \<Rightarrow> Inr h | None \<Rightarrow> Inl HOST_NOT_FOUND)
      else gethostbyname env (fam = AF_INET6) host)"

text \<open>The first canonical name is kept.\<close>

definition save_canon :: "string option \<Rightarrow> addrinfo \<Rightarrow> string \<Rightarrow> bool gam" where
  "save_canon hostname hints name =
     bnd (gets canon) (\<lambda>c.
     if \<not> absent hostname \<and> flag_set (ai_flags hints) AI_CANONNAME \<and> c = None
     then bnd galloc (\<lambda>ok. if ok then thn (modify (\<lambda>s. s\<lparr>canon := Some name\<rparr>)) (ret True) else ret False)
     else ret True)"

text \<open>The body of the loop over \<^verbatim>\<open>search[]\<close>, behind the checks for address strings.\<close>

definition search_name :: "netdb \<Rightarrow> string option \<Rightarrow> addrinfo \<Rightarrow> nat \<Rightarrow> string \<Rightarrow> family \<Rightarrow> eai gam" where
  "search_name env hostname hints nsearch host fam =
     (case lookup env nsearch host fam of
        Inl e \<Rightarrow> ret (if nsearch = 2 then EAI_NONE else h_error e)
      | Inr h \<Rightarrow>
          if ai_family hints \<noteq> AF_UNSPEC \<and> ai_family hints \<noteq> h_addrtype h then ret EAI_ADDRFAMILY
          else
          bnd (save_canon hostname hints (h_name h)) (\<lambda>ok.
          if \<not> ok then ret EAI_MEMORY else addr_loop hints (h_addrtype h) (h_addr_list h)))"

definition numeric :: "addrinfo \<Rightarrow> family \<Rightarrow> family \<Rightarrow> 8 word list \<Rightarrow> eai gam" where
  "numeric hints fam kind bs =
     (if ai_family hints \<noteq> AF_UNSPEC \<and> ai_family hints \<noteq> kind then ret EAI_ADDRFAMILY
      else if fam \<noteq> kind then ret EAI_NONE
      else ga_aistruct hints (Raw bs) kind)"

definition search_one :: "netdb \<Rightarrow> string option \<Rightarrow> addrinfo \<Rightarrow> nat \<Rightarrow> string \<times> family \<Rightarrow> eai gam" where
  "search_one env hostname hints nsearch sp =
     (case sp of (host, fam) \<Rightarrow>
      case (if isdigit (char0 host) then inet_pton AF_INET host else (0, None)) of
        (_, Some bs) \<Rightarrow> numeric hints fam AF_INET bs
      | _ \<Rightarrow>
      (case (if (isxdigit (char0 host) \<or> char0 host = CHR '':'') \<and> CHR '':'' \<in> set host then inet_pton AF_INET6 host else (0, None)) of
        (_, Some bs) \<Rightarrow> numeric hints fam AF_INET6 bs
      | _ \<Rightarrow> search_name env hostname hints nsearch host fam))"

fun search_loop :: "netdb \<Rightarrow> string option \<Rightarrow> addrinfo \<Rightarrow> nat \<Rightarrow> (string \<times> family) list \<Rightarrow> eai gam" where
  "search_loop env hostname hints nsearch [] = ret EAI_NONE"
| "search_loop env hostname hints nsearch (sp # sps) =
     bnd (search_one env hostname hints nsearch sp) (\<lambda>rc.
     if rc \<noteq> EAI_NONE then ret rc else search_loop env hostname hints nsearch sps)"

definition ai_cost :: "addrinfo \<Rightarrow> nat" where
  "ai_cost ai = 1 + (if ai_addr ai = None then 0 else 1) + (if ai_canonname ai = None then 0 else 1)"

definition freeaddrinfo :: "addrinfo list \<Rightarrow> gai \<Rightarrow> gai" where
  "freeaddrinfo aihead s = s\<lparr>live := live s - sum_list (map ai_cost aihead)\<rparr>"

text \<open>
  From the loop on; an entry of the list of results is a structure that the caller frees.
  The result is the value returned and, for 0, the list.
\<close>

definition ga_canon :: "string option \<Rightarrow> addrinfo \<Rightarrow> string \<Rightarrow> eai gam" where
  "ga_canon hostname hints host0 =
     (if \<not> absent hostname \<and> flag_set (ai_flags hints) AI_CANONNAME
      then bnd (gets canon) (\<lambda>c.
           bnd (case c of Some _ \<Rightarrow> ret True | None \<Rightarrow> galloc) (\<lambda>ok.
           if \<not> ok then ret EAI_MEMORY
           else thn (modify (\<lambda>s. s\<lparr>ais := (hd (ais s))\<lparr>ai_canonname := Some (case c of Some n \<Rightarrow> n | None \<Rightarrow> host0)\<rparr> # tl (ais s)\<rparr>))
                (ret EAI_NONE)))
      else ret EAI_NONE)"

definition ga_inet :: "netdb \<Rightarrow> string option \<Rightarrow> string option \<Rightarrow> addrinfo \<Rightarrow> eai gam" where
  "ga_inet env hostname servname hints =
     bnd (ga_nsearch hostname hints) (\<lambda>search.
     bnd (search_loop env hostname hints (length search) search) (\<lambda>rc.
     if rc \<noteq> EAI_NONE then ret rc else
     bnd (gets ais) (\<lambda>l.
     if l = [] then ret EAI_NONAME else
     bnd (ga_canon hostname hints (fst (hd search))) (\<lambda>rc.
     if rc \<noteq> EAI_NONE then ret rc
     else if absent servname then ret EAI_NONE else ga_serv env hints (the servname)))))"

definition unix_name :: "string option \<Rightarrow> string option \<Rightarrow> bool" where
  "unix_name hostname servname \<longleftrightarrow>
     (hostname = Some ''/local'' \<or> hostname = Some ''/unix'') \<and> (\<exists>p \<in> set_option servname. char0 p = CHR ''/'')"

definition default_hints :: addrinfo where
  "default_hints = \<lparr>ai_flags = 0, ai_family = AF_UNSPEC, ai_socktype = 0, ai_protocol = 0, ai_addrlen = 0,
     ai_canonname = None, ai_addr = None\<rparr>"

definition getaddrinfo ::
  "netdb \<Rightarrow> string option \<Rightarrow> string option \<Rightarrow> addrinfo option \<Rightarrow> (eai \<times> addrinfo list) gam" where
  "getaddrinfo env hostname servname hintsp =
     (let hints = (case hintsp of None \<Rightarrow> default_hints | Some h \<Rightarrow> h);
          rc = ga_echeck hostname servname (ai_flags hints) (ai_family hints) (ai_socktype hints)
      in thn (modify (\<lambda>s. s\<lparr>ais := [], canon := None\<rparr>)) (
      if rc \<noteq> EAI_NONE then ret (rc, [])
      else if unix_name hostname servname
      then bnd (ga_unix env (the servname) hints) (\<lambda>rc.
           bnd (gets ais) (\<lambda>l. ret (rc, if rc = EAI_NONE then l else [])))
      else
      bnd (ga_inet env hostname servname hints) (\<lambda>rc.
      bnd (gets ais) (\<lambda>l.
      if rc = EAI_NONE then ret (rc, l)
      else thn (modify (freeaddrinfo l)) (ret (rc, []))))))"

text \<open>\<^verbatim>\<open>gai_strerror\<close>.\<close>

fun gai_strerror :: "eai \<Rightarrow> string" where
  "gai_strerror EAI_ADDRFAMILY = ''address family for host not supported''"
| "gai_strerror EAI_AGAIN = ''temporary failure in name resolution''"
| "gai_strerror EAI_BADFLAGS = ''invalid flags value''"
| "gai_strerror EAI_FAIL = ''non-recoverable failure in name resolution''"
| "gai_strerror EAI_FAMILY = ''address family not supported''"
| "gai_strerror EAI_MEMORY = ''memory allocation failure''"
| "gai_strerror EAI_NODATA = ''no address associated with host''"
| "gai_strerror EAI_NONAME = ''host nor service provided, or not known''"
| "gai_strerror EAI_SERVICE = ''service not supported for socket type''"
| "gai_strerror EAI_SOCKTYPE = ''socket type not supported''"
| "gai_strerror EAI_SYSTEM = ''system error''"
| "gai_strerror _ = ''unknown getaddrinfo() error''"

section \<open>Names for an address\<close>

definition NI_NOFQDN :: "32 word" where "NI_NOFQDN = 1"
definition NI_NUMERICHOST :: "32 word" where "NI_NUMERICHOST = 2"
definition NI_NAMEREQD :: "32 word" where "NI_NAMEREQD = 4"
definition NI_NUMERICSERV :: "32 word" where "NI_NUMERICSERV = 8"
definition NI_DGRAM :: "32 word" where "NI_DGRAM = 16"

text \<open>\<^verbatim>\<open>snprintf (buf, len, "%s", t)\<close> with \<open>len > 0\<close>.\<close>

definition snprintf_s :: "nat \<Rightarrow> string \<Rightarrow> string" where
  "snprintf_s len t = take (len - 1) t"

text \<open>The numeric form of the address: the text, or the value returned.\<close>

definition numeric_host :: "family \<Rightarrow> 8 word list \<Rightarrow> nat \<Rightarrow> gai_stop + int + string" where
  "numeric_host fam a hostlen =
     (case inet_ntop fam a hostlen of
        Text t \<Rightarrow> Inr (Inr t) | Overrun \<Rightarrow> Inl (Undef ''host'') | Enospc \<Rightarrow> Inr (Inl 1) | Eafnosupport \<Rightarrow> Inr (Inl 1))"

definition gn_host :: "netdb \<Rightarrow> nat \<Rightarrow> 8 word list \<Rightarrow> family \<Rightarrow> 32 word \<Rightarrow> gai_stop + int + string" where
  "gn_host env hostlen a fam flags =
     (if flag_set flags NI_NUMERICHOST then numeric_host fam a hostlen
      else case gethostbyaddr env a fam of
        Some name \<Rightarrow>
          Inr (Inr (snprintf_s hostlen (if flag_set flags NI_NOFQDN then takeWhile (\<lambda>c. c \<noteq> CHR ''.'') name else name)))
      | None \<Rightarrow> if flag_set flags NI_NAMEREQD then Inr (Inl 1) else numeric_host fam a hostlen)"

definition gn_serv :: "netdb \<Rightarrow> nat \<Rightarrow> 16 word \<Rightarrow> 32 word \<Rightarrow> string" where
  "gn_serv env servlen port flags =
     snprintf_s servlen
       (if flag_set flags NI_NUMERICSERV then dec (unat (htons port))
        else case getservbyport env port (if flag_set flags NI_DGRAM then Some ''udp'' else None) of
          Some name \<Rightarrow> name | None \<Rightarrow> dec (unat (htons port)))"

text \<open>The value returned and what is written to the two buffers, if anything.\<close>

definition gn_ipv46 ::
  "netdb \<Rightarrow> nat \<Rightarrow> nat \<Rightarrow> 8 word list \<Rightarrow> family \<Rightarrow> 16 word \<Rightarrow> 32 word \<Rightarrow> gai_stop + int \<times> string option \<times> string option" where
  "gn_ipv46 env hostlen servlen a fam port flags =
     (case (if hostlen > 0 then gn_host env hostlen a fam flags else Inr (Inr [])) of
        Inl e \<Rightarrow> Inl e
      | Inr (Inl rc) \<Rightarrow> Inr (rc, None, None)
      | Inr (Inr t) \<Rightarrow>
          Inr (0, if hostlen > 0 then Some t else None,
               if servlen > 0 then Some (gn_serv env servlen port flags) else None))"

fun getnameinfo :: "netdb \<Rightarrow> sockaddr \<Rightarrow> nat \<Rightarrow> nat \<Rightarrow> 32 word \<Rightarrow> gai_stop + int \<times> string option \<times> string option" where
  "getnameinfo env (Sin port a) hostlen servlen flags = gn_ipv46 env hostlen servlen a AF_INET port flags"
| "getnameinfo env (Sin6 port a) hostlen servlen flags = gn_ipv46 env hostlen servlen a AF_INET6 port flags"
| "getnameinfo env (Sun path) hostlen servlen flags =
     Inr (0, if hostlen > 0 then Some (snprintf_s hostlen ''/local'') else None,
          if servlen > 0 then Some (snprintf_s servlen path) else None)"
| "getnameinfo env (Sa_other fam) hostlen servlen flags = Inr (1, None, None)"

end
