(* ===== verification/Gai_Props.thy ===== *)
theory Gai_Props
  imports Gai Inet_Props
begin

text \<open>
  Lemmas on the memory of \<^verbatim>\<open>getaddrinfo\<close>: what each part allocates is on the list of results
  or is the saved canonical name, and the entries of a result are well formed.
\<close>

lemma bndE:
  assumes "bnd m f s = Inr r"
  obtains x s' where "m s = Inr (x, s')" and "f x s' = Inr r"
  using assms by (auto simp: bnd_eq_Inr)

section \<open>Memory\<close>

text \<open>
  What is allocated and neither on the list nor the saved canonical name; every step of the
  lookup keeps it.
\<close>

definition cost :: "addrinfo list \<Rightarrow> nat" where
  "cost l = sum_list (map ai_cost l)"

lemma cost_simps [simp]: "cost [] = 0" "cost (ai # l) = ai_cost ai + cost l" "cost (l @ l') = cost l + cost l'"
  by (simp_all add: cost_def)

definition balance :: "gai \<Rightarrow> int" where
  "balance s = int (live s) - int (cost (ais s))"

definition balanced :: "'a gam \<Rightarrow> bool" where
  "balanced m \<longleftrightarrow> (\<forall>s x s'. m s = Inr (x, s') \<longrightarrow> balance s' = balance s \<and> canon s' = canon s)"

lemma balancedI: "(\<And>s x s'. m s = Inr (x, s') \<Longrightarrow> balance s' = balance s \<and> canon s' = canon s) \<Longrightarrow> balanced m"
  by (simp add: balanced_def)

lemma balanced_ret: "balanced (ret x)"
  by (auto intro: balancedI)

lemma balanced_fail: "balanced (fail_with e)"
  by (auto intro: balancedI)

lemma balanced_gets: "balanced (gets f)"
  by (auto intro: balancedI)

lemma balanced_bnd: "balanced m \<Longrightarrow> (\<And>x. balanced (f x)) \<Longrightarrow> balanced (bnd m f)"
proof (rule balancedI)
  fix s y s'
  assume m: "balanced m" and f: "\<And>x. balanced (f x)" and "bnd m f s = Inr (y, s')"
  then obtain x s1 where x: "m s = Inr (x, s1)" "f x s1 = Inr (y, s')" by (auto simp: bnd_eq_Inr)
  have "balance s1 = balance s \<and> canon s1 = canon s" using m x(1) unfolding balanced_def by blast
  moreover have "balance s' = balance s1 \<and> canon s' = canon s1" using f [of x] x(2) unfolding balanced_def by blast
  ultimately show "balance s' = balance s \<and> canon s' = canon s" by simp
qed

lemma balanced_if: "balanced m \<Longrightarrow> balanced n \<Longrightarrow> balanced (if b then m else n)"
  by simp

lemma ai_cost_upd:
  "ai_cost (ai\<lparr>ai_flags := a\<rparr>) = ai_cost ai" "ai_cost (ai\<lparr>ai_socktype := b\<rparr>) = ai_cost ai"
  "ai_cost (ai\<lparr>ai_addrlen := n\<rparr>) = ai_cost ai"
  by (simp_all add: ai_cost_def)

text \<open>A structure is linked in, then gets its address; until then it costs one allocation.\<close>

lemma galloc_total: "\<exists>ok s'. galloc s = Inr (ok, s')"
  by (cases "oks s") (auto simp: galloc_def)

lemma galloc_balance:
  "galloc s = Inr (ok, s') \<Longrightarrow> balance s' = balance s + (if ok then 1 else 0) \<and> canon s' = canon s \<and> ais s' = ais s"
  by (auto simp: galloc_def balance_def split: list.splits)

lemma set_addr_balance:
  assumes "set_addr sa len s = Inr (rc, s')" and "ais s = l @ [ai]" and "ai_addr ai = None"
  shows "balance s' = balance s \<and> canon s' = canon s"
proof -
  obtain ok s1 where g: "galloc s = Inr (ok, s1)" using assms(1) by (auto simp: set_addr_def bnd_eq_Inr)
  note b = galloc_balance [OF g]
  show ?thesis
  proof (cases ok)
    case True
    then have "s' = upd_last (\<lambda>ai. ai\<lparr>ai_addr := Some sa, ai_addrlen := len\<rparr>) s1"
      using assms(1) g by (simp add: set_addr_def cm_simps)
    then show ?thesis using b True assms(2,3) by (auto simp: upd_last_def balance_def ai_cost_def)
  next
    case False
    then have "s' = s1" using assms(1) g by (simp add: set_addr_def cm_simps)
    then show ?thesis using b False by simp
  qed
qed

lemma fill_addr_balance:
  assumes "fill_addr hints fam addr s = Inr (rc, s')" and "ais s = l @ [ai]" and "ai_addr ai = None"
  shows "balance s' = balance s \<and> canon s' = canon s"
proof (cases "(hints, fam, addr)" rule: fill_addr.cases)
  case (3 hints n p)
  show ?thesis
  proof (cases "n = 1 \<and> length p < 108")
    case True
    then obtain rc' s1 where "set_addr (Sun p) 110 s = Inr (rc', s1)" "s' = s1 \<or> s' = s1\<lparr>unlinked := unlinked s1 @ [p]\<rparr>"
      using assms(1) 3 by (auto simp: bnd_eq_Inr thn_eq_Inr split: if_splits)
    then show ?thesis using set_addr_balance [OF _ assms(2,3)] by (auto simp: balance_def)
  qed (use assms(1) 3 in \<open>auto split: if_splits\<close>)
qed (use assms set_addr_balance [OF _ assms(2,3)] in \<open>auto split: if_splits\<close>)

lemma balanced_aistruct: "balanced (ga_aistruct hints addr fam)"
proof (rule balancedI)
  fix s rc s'
  assume run: "ga_aistruct hints addr fam s = Inr (rc, s')"
  then obtain ok s1 where g: "galloc s = Inr (ok, s1)" by (auto simp: ga_aistruct_def bnd_eq_Inr)
  note b = galloc_balance [OF g]
  show "balance s' = balance s \<and> canon s' = canon s"
  proof (cases ok)
    case False
    then show ?thesis using run g b by (simp add: ga_aistruct_def cm_simps)
  next
    case True
    let ?s = "s1\<lparr>ais := ais s1 @ [new_ai hints fam]\<rparr>"
    have "fill_addr hints fam addr ?s = Inr (rc, s')" using run g True by (simp add: ga_aistruct_def cm_simps)
    from fill_addr_balance [OF this, of "ais s1" "new_ai hints fam"]
    have "balance s' = balance ?s \<and> canon s' = canon ?s" by (simp add: new_ai_def)
    then show ?thesis using b True by (auto simp: balance_def new_ai_def ai_cost_def)
  qed
qed

lemma balanced_addr_loop: "balanced (addr_loop hints fam as)"
proof (induction as)
  case Nil
  show ?case unfolding addr_loop.simps by (rule balanced_ret)
next
  case (Cons a as)
  show ?case unfolding addr_loop.simps by (intro balanced_bnd balanced_if balanced_aistruct balanced_ret Cons.IH)
qed

lemma balanced_numeric: "balanced (numeric hints fam kind bs)"
  unfolding numeric_def by (intro balanced_if balanced_ret balanced_aistruct)

text \<open>The lookup of a name may also save the canonical name, one more allocation.\<close>

definition spare :: "gai \<Rightarrow> int" where
  "spare s = balance s - (if canon s = None then 0 else 1)"

definition spared :: "bool \<Rightarrow> 'a gam \<Rightarrow> bool" where
  "spared C m \<longleftrightarrow> (\<forall>s x s'. m s = Inr (x, s') \<longrightarrow> spare s' = spare s \<and> (canon s' = canon s \<or> C))"

lemma sparedI: "(\<And>s x s'. m s = Inr (x, s') \<Longrightarrow> spare s' = spare s \<and> (canon s' = canon s \<or> C)) \<Longrightarrow> spared C m"
  by (simp add: spared_def)

lemma sparedD: "spared C m \<Longrightarrow> m s = Inr (x, s') \<Longrightarrow> spare s' = spare s \<and> (canon s' = canon s \<or> C)"
  by (simp add: spared_def)

lemma balanced_spared: "balanced m \<Longrightarrow> spared C m"
  by (auto simp: spared_def balanced_def spare_def)

lemma spared_bnd: "spared C m \<Longrightarrow> (\<And>x. spared C (f x)) \<Longrightarrow> spared C (bnd m f)"
proof (rule sparedI)
  fix s y s'
  assume m: "spared C m" and f: "\<And>x. spared C (f x)" and "bnd m f s = Inr (y, s')"
  then obtain x s1 where x: "m s = Inr (x, s1)" "f x s1 = Inr (y, s')" by (auto simp: bnd_eq_Inr)
  show "spare s' = spare s \<and> (canon s' = canon s \<or> C)" using sparedD [OF m x(1)] sparedD [OF f x(2)] by auto
qed

lemma spared_if: "(b \<Longrightarrow> spared C m) \<Longrightarrow> (\<not> b \<Longrightarrow> spared C n) \<Longrightarrow> spared C (if b then m else n)"
  by simp

lemmas spared_ret = balanced_spared [OF balanced_ret]

definition wants_canon :: "string option \<Rightarrow> addrinfo \<Rightarrow> bool" where
  "wants_canon hostname hints \<longleftrightarrow> \<not> absent hostname \<and> flag_set (ai_flags hints) AI_CANONNAME"

lemma save_canon_spared: "spared (wants_canon hostname hints) (save_canon hostname hints n)"
proof (rule sparedI)
  fix s ok s'
  assume run: "save_canon hostname hints n s = Inr (ok, s')"
  show "spare s' = spare s \<and> (canon s' = canon s \<or> wants_canon hostname hints)"
  proof (cases "wants_canon hostname hints \<and> canon s = None")
    case True
    then have "bnd galloc (\<lambda>ok. if ok then thn (modify (\<lambda>s. s\<lparr>canon := Some n\<rparr>)) (ret True) else ret False) s = Inr (ok, s')"
      using run by (simp add: save_canon_def wants_canon_def bnd_Inr [OF gets_apply])
    then obtain ok' s1 where g: "galloc s = Inr (ok', s1)" and
      r: "(if ok' then thn (modify (\<lambda>s. s\<lparr>canon := Some n\<rparr>)) (ret True) else ret False :: bool gam) s1 = Inr (ok, s')"
      by (rule bndE)
    from r have "s' = (if ok' then s1\<lparr>canon := Some n\<rparr> else s1)" by (cases ok') (simp_all add: cm_simps)
    then show ?thesis using True galloc_balance [OF g] by (auto simp: spare_def balance_def)
  next
    case False
    then have "s' = s" using run by (auto simp: save_canon_def wants_canon_def bnd_Inr [OF gets_apply] split: if_splits)
    then show ?thesis by simp
  qed
qed

lemma search_name_spared: "spared (wants_canon hostname hints) (search_name env hostname hints nsearch host fam)"
proof (cases "lookup env nsearch host fam")
  case (Inr h)
  show ?thesis unfolding search_name_def Inr sum.case
    by (intro spared_if spared_bnd spared_ret save_canon_spared balanced_spared [OF balanced_addr_loop])
qed (simp add: search_name_def spared_ret)

lemma search_one_spared: "spared (wants_canon hostname hints) (search_one env hostname hints nsearch sp)"
  unfolding search_one_def
  by (auto split: prod.splits option.splits intro: search_name_spared balanced_spared [OF balanced_numeric])

lemma search_loop_spared: "spared (wants_canon hostname hints) (search_loop env hostname hints nsearch sps)"
proof (induction sps)
  case Nil
  show ?case unfolding search_loop.simps by (rule spared_ret)
next
  case (Cons sp sps)
  show ?case unfolding search_loop.simps by (intro spared_bnd spared_if spared_ret search_one_spared Cons.IH)
qed

text \<open>Storing the ports.\<close>

lemma set_port_cost: "set_port port ai s = Inr ((k, ai'), s') \<Longrightarrow> s' = s \<and> ai_cost ai' = ai_cost ai"
  by (auto simp: set_port_def ai_cost_def split: family.splits option.splits sockaddr.splits)

lemma ga_clone_cost:
  assumes "ga_clone ai s = Inr ((ok, new), s')"
  shows "int (live s') = int (live s) + int (cost new) \<and> canon s' = canon s \<and> ais s' = ais s \<or> ai_addr ai = None"
proof -
  obtain ok1 s1 where g: "galloc s = Inr (ok1, s1)" using assms by (auto simp: ga_clone_def bnd_eq_Inr)
  show ?thesis
  proof (cases ok1)
    case True
    then obtain ok2 s2 where g2: "galloc s1 = Inr (ok2, s2)"
      using assms g by (auto simp: ga_clone_def cm_simps g bnd_eq_Inr Let_def)
    then show ?thesis
      using assms True galloc_balance [OF g] galloc_balance [OF g2]
      by (auto simp: ga_clone_def cm_simps g g2 Let_def balance_def ai_cost_def split: if_splits)
  next
    case False
    then show ?thesis using assms galloc_balance [OF g] by (auto simp: ga_clone_def cm_simps g balance_def)
  qed
qed

lemma port_loop_cost:
  assumes "port_loop port st l s = Inr ((n, xs), s')" and "\<forall>ai \<in> set l. ai_addr ai \<noteq> None"
  shows "int (live s') - int (cost xs) = int (live s) - int (cost l) \<and> canon s' = canon s"
  using assms
proof (induction l arbitrary: s n xs s')
  case (Cons ai l)
  show ?case
  proof (cases "\<not> flag_set (ai_flags ai) AI_CLONE \<and> ai_socktype ai \<noteq> st")
    case True
    then have "bnd (port_loop port st l) (\<lambda>(n, xs). ret (n, ai # xs)) s = Inr ((n, xs), s')" using Cons.prems(1) by simp
    then obtain y where "port_loop port st l s = Inr ((n, y), s')" "xs = ai # y"
      by (rule bndE) (auto split: prod.splits)
    then show ?thesis using Cons.IH [of s n y s'] Cons.prems(2) by simp
  next
    case False
    let ?first = "if flag_set (ai_flags ai) AI_CLONE \<and> ai_socktype ai \<noteq> 0
      then bnd (ga_clone ai) (\<lambda>(ok, new). ret (ok, [ai], new)) else ret (True, [], [ai])"
    from False Cons.prems(1) obtain ok before here s1 where f: "?first s = Inr ((ok, before, here), s1)"
      and r: "(if \<not> ok then ret (None, before @ here @ l)
        else bnd (set_port port ((hd here)\<lparr>ai_socktype := st\<rparr>)) (\<lambda>(k, new).
           bnd (port_loop port st l) (\<lambda>(n, xs). ret (map_option ((+) k) n, before @ new # xs)))) s1 = Inr ((n, xs), s')"
      by (auto elim!: bndE split: prod.splits simp del: ret_apply)
    have one: "int (live s1) = int (live s) + int (cost (before @ here)) - int (ai_cost ai) \<and> canon s1 = canon s \<and>
      (ok \<longrightarrow> (\<exists>h. here = [h]))"
    proof (cases "flag_set (ai_flags ai) AI_CLONE \<and> ai_socktype ai \<noteq> 0")
      case True
      then have "bnd (ga_clone ai) (\<lambda>(ok, new). ret (ok, [ai], new)) s = Inr ((ok, before, here), s1)" using f by simp
      then have c: "ga_clone ai s = Inr ((ok, here), s1)" "before = [ai]" by (auto elim!: bndE split: prod.splits)
      have "ok \<longrightarrow> (\<exists>h. here = [h])" using c(1) by (auto simp: ga_clone_def Let_def elim!: bndE split: if_splits)
      then show ?thesis using ga_clone_cost [OF c(1)] c(2) Cons.prems(2) by auto
    qed (use f in auto)
    show ?thesis
    proof (cases ok)
      case True
      then obtain h where h: "here = [h]" using one by blast
      from r True obtain new y m where p: "port_loop port st l s1 = Inr ((m, y), s')" "xs = before @ new # y" "ai_cost new = ai_cost h"
        using h by (auto elim!: bndE split: prod.splits dest!: set_port_cost simp: ai_cost_upd)
      then show ?thesis using Cons.IH [OF p(1)] Cons.prems(2) one h by auto
    next
      case False
      then show ?thesis using r one by auto
    qed
  qed
qed simp

section \<open>Well-formed results\<close>

definition ai_ok :: "addrinfo \<Rightarrow> bool" where
  "ai_ok ai \<longleftrightarrow>
     (case (ai_family ai, ai_addr ai) of
        (AF_INET, Some (Sin _ a)) \<Rightarrow> length a = 4 \<and> ai_addrlen ai = 16
      | (AF_INET6, Some (Sin6 _ a)) \<Rightarrow> length a = 16 \<and> ai_addrlen ai = 28
      | _ \<Rightarrow> False)"

text \<open>What is known of the name service: it returns addresses of its two families in their lengths.\<close>

definition host_ok :: "hostent \<Rightarrow> bool" where
  "host_ok h \<longleftrightarrow>
     (h_addrtype h = AF_INET \<and> (\<forall>a \<in> set (h_addr_list h). length a = 4) \<or>
      h_addrtype h = AF_INET6 \<and> (\<forall>a \<in> set (h_addr_list h). length a = 16))"

definition netdb_ok :: "netdb \<Rightarrow> bool" where
  "netdb_ok env \<longleftrightarrow>
     (\<forall>b n h. gethostbyname env b n = Inr h \<longrightarrow> host_ok h) \<and> (\<forall>n f h. gethostbyname2 env n f = Some h \<longrightarrow> host_ok h)"

lemma lookup_ok: "netdb_ok env \<Longrightarrow> lookup env nsearch host fam = Inr h \<Longrightarrow> host_ok h"
  by (auto simp: netdb_ok_def lookup_def split: if_splits option.splits)

lemma ai_ok_addr: "ai_ok ai \<Longrightarrow> ai_addr ai \<noteq> None"
  by (cases "ai_addr ai") (auto simp: ai_ok_def split: family.splits)

text \<open>The entries of a list stay well formed when a step succeeds.\<close>

definition entry_of :: "addrinfo \<Rightarrow> family \<Rightarrow> 8 word list \<Rightarrow> addrinfo" where
  "entry_of hints fam a =
     (new_ai hints fam)\<lparr>ai_addr := Some (if fam = AF_INET then Sin 0 (take 4 a) else Sin6 0 (take 16 a)),
       ai_addrlen := (if fam = AF_INET then 16 else 28)\<rparr>"

definition fresh_ai :: "addrinfo \<Rightarrow> bool" where
  "fresh_ai ai \<longleftrightarrow> ai_ok ai \<and> ai_canonname ai = None"

lemma entry_of_ok:
  "fam = AF_INET \<and> 4 \<le> length a \<or> fam = AF_INET6 \<and> 16 \<le> length a \<Longrightarrow> fresh_ai (entry_of hints fam a)"
  by (auto simp: entry_of_def fresh_ai_def ai_ok_def new_ai_def)

lemma set_addr_done:
  assumes "set_addr sa len s = Inr (EAI_NONE, s')"
  shows "ais s' = butlast (ais s) @ [(last (ais s))\<lparr>ai_addr := Some sa, ai_addrlen := len\<rparr>]"
proof -
  obtain ok s1 where g: "galloc s = Inr (ok, s1)" using assms by (auto simp: set_addr_def bnd_eq_Inr)
  then show ?thesis using assms galloc_balance [OF g] by (cases ok) (auto simp: set_addr_def cm_simps upd_last_def)
qed

lemma aistruct_done:
  assumes run: "ga_aistruct hints (Raw a) fam s = Inr (EAI_NONE, s')" and fam: "fam = AF_INET \<or> fam = AF_INET6"
  shows "ais s' = ais s @ [entry_of hints fam a] \<and> fresh_ai (entry_of hints fam a)"
proof -
  obtain ok s1 where g: "galloc s = Inr (ok, s1)" using run by (auto simp: ga_aistruct_def bnd_eq_Inr)
  then have ok: "ok" using run by (cases ok) (simp_all add: ga_aistruct_def cm_simps)
  then have "fill_addr hints fam (Raw a) (s1\<lparr>ais := ais s1 @ [new_ai hints fam]\<rparr>) = Inr (EAI_NONE, s')"
    using run g by (simp add: ga_aistruct_def cm_simps)
  then show ?thesis using fam galloc_balance [OF g]
    by (auto dest!: set_addr_done simp: entry_of_def fresh_ai_def ai_ok_def new_ai_def split: if_splits)
qed

lemma addr_loop_done:
  assumes "addr_loop hints fam as s = Inr (EAI_NONE, s')" and "fam = AF_INET \<or> fam = AF_INET6"
  shows "ais s' = ais s @ map (entry_of hints fam) as \<and> list_all fresh_ai (map (entry_of hints fam) as)"
  using assms
proof (induction as arbitrary: s)
  case (Cons a as)
  then have "bnd (ga_aistruct hints (Raw a) fam) (\<lambda>rc. if rc \<noteq> EAI_NONE then ret rc else addr_loop hints fam as) s = Inr (EAI_NONE, s')"
    by simp
  then obtain s1 where "ga_aistruct hints (Raw a) fam s = Inr (EAI_NONE, s1)" "addr_loop hints fam as s1 = Inr (EAI_NONE, s')"
    by (rule bndE) (auto split: if_splits)
  then show ?case using aistruct_done [of hints a fam s s1] Cons.IH [of s1] Cons.prems(2) by simp
qed simp

lemma save_canon_ais: "save_canon hostname hints n s = Inr (ok, s') \<Longrightarrow> ais s' = ais s"
  by (auto simp: save_canon_def thn_eq_Inr elim!: bndE split: if_splits dest!: galloc_balance)

lemma search_name_ok:
  assumes run: "search_name env hostname hints nsearch host fam s = Inr (EAI_NONE, s')" and db: "netdb_ok env"
    and ok: "list_all fresh_ai (ais s)"
  shows "list_all fresh_ai (ais s')"
proof (cases "lookup env nsearch host fam")
  case (Inl e)
  then show ?thesis using run ok by (simp add: search_name_def)
next
  case (Inr h)
  have "ai_family hints = AF_UNSPEC \<or> ai_family hints = h_addrtype h"
    using run Inr by (auto simp: search_name_def split: if_splits)
  then have "bnd (save_canon hostname hints (h_name h)) (\<lambda>ok.
      if \<not> ok then ret EAI_MEMORY else addr_loop hints (h_addrtype h) (h_addr_list h)) s = Inr (EAI_NONE, s')"
    using run Inr by (auto simp: search_name_def)
  then obtain s1 where s1: "ais s1 = ais s" "addr_loop hints (h_addrtype h) (h_addr_list h) s1 = Inr (EAI_NONE, s')"
    by (rule bndE) (auto split: if_splits dest: save_canon_ais)
  have "h_addrtype h = AF_INET \<or> h_addrtype h = AF_INET6" using lookup_ok [OF db Inr] by (auto simp: host_ok_def)
  then show ?thesis using addr_loop_done [OF s1(2)] s1(1) ok by simp
qed

lemma numeric_ok:
  assumes "numeric hints fam kind bs s = Inr (EAI_NONE, s')" and "kind = AF_INET \<or> kind = AF_INET6" and "list_all fresh_ai (ais s)"
  shows "list_all fresh_ai (ais s')"
  using assms aistruct_done [of hints bs kind s s'] by (auto simp: numeric_def split: if_splits)

lemma search_one_ok:
  assumes "search_one env hostname hints nsearch sp s = Inr (EAI_NONE, s')" and "netdb_ok env" and "list_all fresh_ai (ais s)"
  shows "list_all fresh_ai (ais s')"
  using assms numeric_ok [of hints _ _ _ s s'] search_name_ok [of env hostname hints nsearch _ _ s s']
  by (auto simp: search_one_def split: prod.splits option.splits)

lemma search_loop_ok:
  assumes "search_loop env hostname hints nsearch sps s = Inr (EAI_NONE, s')" and "netdb_ok env" and "list_all fresh_ai (ais s)"
  shows "list_all fresh_ai (ais s')"
  using assms
proof (induction sps arbitrary: s)
  case (Cons sp sps)
  then have "bnd (search_one env hostname hints nsearch sp)
      (\<lambda>rc. if rc \<noteq> EAI_NONE then ret rc else search_loop env hostname hints nsearch sps) s = Inr (EAI_NONE, s')" by simp
  then obtain s1 where "search_one env hostname hints nsearch sp s = Inr (EAI_NONE, s1)"
    "search_loop env hostname hints nsearch sps s1 = Inr (EAI_NONE, s')"
    by (rule bndE) (auto split: if_splits)
  then show ?case using search_one_ok [of env hostname hints nsearch sp s s1] Cons.IH [of s1] Cons.prems(2,3) by blast
qed simp

lemma set_port_ok: "set_port port ai s = Inr ((k, ai'), s') \<Longrightarrow> ai_ok ai \<Longrightarrow> ai_ok ai'"
  by (auto simp: set_port_def ai_ok_def split: family.splits option.splits sockaddr.splits)

lemma ai_ok_upd: "ai_ok (ai\<lparr>ai_flags := a\<rparr>) = ai_ok ai" "ai_ok (ai\<lparr>ai_socktype := b\<rparr>) = ai_ok ai" "ai_ok (ai\<lparr>ai_canonname := c\<rparr>) = ai_ok ai"
  by (auto simp: ai_ok_def split: family.splits option.splits sockaddr.splits)

lemma ga_clone_ok: "ga_clone ai s = Inr ((True, new), s') \<Longrightarrow> new = [ai\<lparr>ai_flags := 0, ai_canonname := None\<rparr>]"
  by (auto simp: ga_clone_def Let_def elim!: bndE split: if_splits)

lemma port_loop_ok:
  assumes "port_loop port st l s = Inr ((Some n, xs), s')" and "list_all ai_ok l"
  shows "list_all ai_ok xs \<and> length l \<le> length xs"
  using assms
proof (induction l arbitrary: s n xs s')
  case (Cons ai l)
  show ?case
  proof (cases "\<not> flag_set (ai_flags ai) AI_CLONE \<and> ai_socktype ai \<noteq> st")
    case True
    then have "bnd (port_loop port st l) (\<lambda>(n, xs). ret (n, ai # xs)) s = Inr ((Some n, xs), s')" using Cons.prems(1) by simp
    then obtain y where "port_loop port st l s = Inr ((Some n, y), s')" "xs = ai # y"
      by (rule bndE) (auto split: prod.splits)
    then show ?thesis using Cons.IH [of s n y s'] Cons.prems(2) by simp
  next
    case False
    let ?first = "if flag_set (ai_flags ai) AI_CLONE \<and> ai_socktype ai \<noteq> 0
      then bnd (ga_clone ai) (\<lambda>(ok, new). ret (ok, [ai], new)) else ret (True, [], [ai])"
    from False Cons.prems(1) obtain ok before here s1 where f: "?first s = Inr ((ok, before, here), s1)"
      and r: "(if \<not> ok then ret (None, before @ here @ l)
        else bnd (set_port port ((hd here)\<lparr>ai_socktype := st\<rparr>)) (\<lambda>(k, new).
           bnd (port_loop port st l) (\<lambda>(n, xs). ret (map_option ((+) k) n, before @ new # xs)))) s1 = Inr ((Some n, xs), s')"
      by (auto elim!: bndE split: prod.splits simp del: ret_apply)
    then have ok: "ok" by (cases ok) auto
    have here: "\<exists>h. here = [h] \<and> ai_ok h" "list_all ai_ok before"
      using f ok Cons.prems(2) by (auto elim!: bndE split: if_splits prod.splits dest!: ga_clone_ok simp: ai_ok_upd)
    then obtain new y m s2 where "port_loop port st l s2 = Inr ((Some m, y), s')" "xs = before @ new # y" "ai_ok new"
      using r ok by (auto elim!: bndE split: prod.splits dest!: set_port_ok simp: ai_ok_upd)
    then show ?thesis using Cons.IH [of s2 m y s'] Cons.prems(2) here(2) by auto
  qed
qed simp

section \<open>The service\<close>

text \<open>What \<^verbatim>\<open>ga_port\<close> and \<^verbatim>\<open>ga_serv\<close> keep of the memory and, if they succeed, of the list.\<close>

definition serves :: "eai gam \<Rightarrow> bool" where
  "serves m \<longleftrightarrow>
     (\<forall>s rc s'. m s = Inr (rc, s') \<longrightarrow> list_all ai_ok (ais s) \<longrightarrow>
        balance s' = balance s \<and> canon s' = canon s \<and> (rc = EAI_NONE \<longrightarrow> list_all ai_ok (ais s') \<and> length (ais s) \<le> length (ais s')))"

lemma servesD:
  "serves m \<Longrightarrow> m s = Inr (rc, s') \<Longrightarrow> list_all ai_ok (ais s) \<Longrightarrow>
    balance s' = balance s \<and> canon s' = canon s \<and> (rc = EAI_NONE \<longrightarrow> list_all ai_ok (ais s') \<and> length (ais s) \<le> length (ais s'))"
  by (simp add: serves_def)

lemma serves_ret: "serves (ret rc)"
  by (simp add: serves_def)

lemma ga_port_serves:
  assumes "ga_port port st s = Inr (n, s')" and "list_all ai_ok (ais s)"
  shows "balance s' = balance s \<and> canon s' = canon s \<and> (n \<noteq> None \<longrightarrow> list_all ai_ok (ais s') \<and> length (ais s) \<le> length (ais s'))"
proof -
  obtain xs s1 where p: "port_loop port st (ais s) s = Inr ((n, xs), s1)" "s' = s1\<lparr>ais := xs\<rparr>"
    using assms(1) by (auto simp: ga_port_def cm_simps thn_eq_Inr elim!: bndE split: prod.splits)
  have "\<forall>ai \<in> set (ais s). ai_addr ai \<noteq> None" using assms(2) ai_ok_addr by (auto simp: list_all_iff)
  then show ?thesis using port_loop_cost [OF p(1)] port_loop_ok [of port st "ais s" s "the n" xs s1] p assms(2)
    by (cases n) (auto simp: balance_def)
qed

lemma add_found_serves:
  assumes "\<And>k. serves (f k)"
  shows "serves (add_found (ga_port port st) f n)"
  unfolding serves_def
proof (intro allI impI)
  fix s rc s'
  assume run: "add_found (ga_port port st) f n s = Inr (rc, s')" and ok: "list_all ai_ok (ais s)"
  from run obtain m s1 where g: "ga_port port st s = Inr (m, s1)"
    and r: "(case m of None \<Rightarrow> ret EAI_MEMORY | Some k \<Rightarrow> f (n + k)) s1 = Inr (rc, s')"
    unfolding add_found_def by (rule bndE)
  note one = ga_port_serves [OF g ok]
  show "balance s' = balance s \<and> canon s' = canon s \<and> (rc = EAI_NONE \<longrightarrow> list_all ai_ok (ais s') \<and> length (ais s) \<le> length (ais s'))"
  proof (cases m)
    case None
    then show ?thesis using r one by auto
  next
    case (Some k)
    then have "f (n + k) s1 = Inr (rc, s')" using r by simp
    from servesD [OF assms this] one Some show ?thesis by auto
  qed
qed

lemma serves_bnd_same:
  assumes "\<And>s x s'. m s = Inr (x, s') \<Longrightarrow> s' = s" and "\<And>x. serves (f x)"
  shows "serves (bnd m f)"
  using assms unfolding serves_def bnd_eq_Inr by blast

lemma serves_if: "serves m \<Longrightarrow> serves n \<Longrightarrow> serves (if b then m else n)"
  by simp

lemma serves_option: "serves m \<Longrightarrow> (\<And>x. serves (f x)) \<Longrightarrow> serves (case v of None \<Rightarrow> m | Some x \<Rightarrow> f x)"
  by (cases v) auto

lemma ga_serv_serves: "serves (ga_serv env hints serv)"
proof -
  have "atoi_port serv s = Inr (x, s') \<Longrightarrow> s' = s" for s x s' by (auto simp: atoi_port_def Let_def split: if_splits)
  then show ?thesis unfolding ga_serv_def serv_udp_def serv_end_def
    by (intro serves_if serves_bnd_same add_found_serves serves_option serves_ret)
qed

section \<open>The whole call\<close>

lemma ga_canon_done:
  assumes run: "ga_canon hostname hints host0 s = Inr (rc, s')" and l: "ais s \<noteq> []" "list_all fresh_ai (ais s)"
    and c: "canon s = None \<or> wants_canon hostname hints"
  shows "rc = EAI_NONE \<and> balance s' = spare s \<and> list_all ai_ok (ais s') \<and> ais s' \<noteq> [] \<or>
    rc \<noteq> EAI_NONE \<and> balance s' = spare s"
proof (cases "wants_canon hostname hints")
  case True
  let ?name = "\<lambda>n s. s\<lparr>ais := (hd (ais s))\<lparr>ai_canonname := Some n\<rparr> # tl (ais s)\<rparr>"
  obtain ai rest where ais: "ais s = ai # rest" using l(1) by (cases "ais s") auto
  have named: "balance (?name n t) = balance t - 1 \<and> list_all ai_ok (ais (?name n t)) \<and> ais (?name n t) \<noteq> []"
    if "ais t = ais s" for n t
    using ais l(2) that by (auto simp: balance_def ai_cost_def fresh_ai_def ai_ok_upd list_all_iff)
  show ?thesis
  proof (cases "canon s")
    case None
    obtain ok s1 where g: "galloc s = Inr (ok, s1)" using galloc_total by blast
    then show ?thesis using run True None galloc_balance [OF g] named [of s1]
      by (cases ok) (auto simp: ga_canon_def wants_canon_def cm_simps spare_def)
  next
    case (Some n)
    then show ?thesis using run True named [of s] by (auto simp: ga_canon_def wants_canon_def cm_simps spare_def)
  qed
next
  case False
  then have "rc = EAI_NONE" "s' = s" using run by (auto simp: ga_canon_def wants_canon_def split: if_splits)
  then show ?thesis using False c l by (auto simp: spare_def fresh_ai_def list_all_iff)
qed

lemma ga_inet_done:
  assumes run: "ga_inet env hostname servname hints s = Inr (rc, s')" and db: "netdb_ok env"
    and s: "ais s = []" "canon s = None"
  shows "if rc = EAI_NONE then balance s' = balance s \<and> list_all ai_ok (ais s') \<and> ais s' \<noteq> []
    else balance s' = balance s \<or> wants_canon hostname hints \<and> balance s' = balance s + 1"
proof -
  obtain search s0 where "ga_nsearch hostname hints s = Inr (search, s0)" and
    r0: "bnd (search_loop env hostname hints (length search) search) (\<lambda>rc.
      if rc \<noteq> EAI_NONE then ret rc else
      bnd (gets ais) (\<lambda>l.
      if l = [] then ret EAI_NONAME else
      bnd (ga_canon hostname hints (fst (hd search))) (\<lambda>rc.
      if rc \<noteq> EAI_NONE then ret rc
      else if absent servname then ret EAI_NONE else ga_serv env hints (the servname)))) s0 = Inr (rc, s')"
    using run unfolding ga_inet_def by (rule bndE)
  then have s0: "s0 = s" by (auto simp: ga_nsearch_def Let_def split: if_splits)
  from r0 obtain rc1 s1 where search: "search_loop env hostname hints (length search) search s = Inr (rc1, s1)"
    and r1: "(if rc1 \<noteq> EAI_NONE then ret rc1 else
      bnd (gets ais) (\<lambda>l.
      if l = [] then ret EAI_NONAME else
      bnd (ga_canon hostname hints (fst (hd search))) (\<lambda>rc.
      if rc \<noteq> EAI_NONE then ret rc
      else if absent servname then ret EAI_NONE else ga_serv env hints (the servname)))) s1 = Inr (rc, s')"
    unfolding s0 by (rule bndE)
  have sp: "spare s1 = balance s" "canon s1 = None \<or> wants_canon hostname hints"
    using sparedD [OF search_loop_spared search] s(2) by (auto simp: spare_def)
  then have early: "balance s1 = balance s \<or> wants_canon hostname hints \<and> balance s1 = balance s + 1"
    by (auto simp: spare_def split: if_splits)
  consider "rc \<noteq> EAI_NONE" "s' = s1" | "rc1 = EAI_NONE" "ais s1 \<noteq> []"
    using r1 by (auto simp: cm_simps split: if_splits)
  then show ?thesis
  proof cases
    case 1
    then show ?thesis using early by simp
  next
    case 2
    have fr: "list_all fresh_ai (ais s1)" using search_loop_ok [OF search [unfolded 2] db] s(1) by simp
    from r1 2 have "bnd (ga_canon hostname hints (fst (hd search))) (\<lambda>rc.
      if rc \<noteq> EAI_NONE then ret rc
      else if absent servname then ret EAI_NONE else ga_serv env hints (the servname)) s1 = Inr (rc, s')" by (simp add: cm_simps)
    then obtain rc2 s2 where c: "ga_canon hostname hints (fst (hd search)) s1 = Inr (rc2, s2)" and
      r2: "(if rc2 \<noteq> EAI_NONE then ret rc2
        else if absent servname then ret EAI_NONE else ga_serv env hints (the servname)) s2 = Inr (rc, s')"
      by (rule bndE)
    note d = ga_canon_done [OF c 2(2) fr sp(2)]
    show ?thesis
    proof (cases "rc2 = EAI_NONE \<and> \<not> absent servname")
      case True
      then have "ga_serv env hints (the servname) s2 = Inr (rc, s')" using r2 by simp
      from servesD [OF ga_serv_serves this] d True sp(1) show ?thesis by auto
    next
      case False
      then have "s' = s2" "rc = rc2" using r2 by (auto split: if_splits)
      then show ?thesis using d sp(1) by auto
    qed
  qed
qed

lemma getaddrinfo_memory:
  assumes run: "getaddrinfo env hostname servname hintsp s = Inr ((rc, res), s')" and db: "netdb_ok env"
    and unix: "\<not> unix_name hostname servname"
  shows "if rc = EAI_NONE then live s' = live s + cost res \<and> list_all ai_ok res \<and> res \<noteq> []
    else res = [] \<and> (live s' = live s \<or> wants_canon hostname (case hintsp of None \<Rightarrow> default_hints | Some h \<Rightarrow> h) \<and> live s' = live s + 1)"
proof -
  let ?h = "case hintsp of None \<Rightarrow> default_hints | Some h \<Rightarrow> h"
  let ?s = "s\<lparr>ais := [], canon := None\<rparr>"
  show ?thesis
  proof (cases "ga_echeck hostname servname (ai_flags ?h) (ai_family ?h) (ai_socktype ?h) = EAI_NONE")
    case True
    then have r0: "bnd (ga_inet env hostname servname ?h) (\<lambda>rc.
      bnd (gets ais) (\<lambda>l. if rc = EAI_NONE then ret (rc, l) else thn (modify (freeaddrinfo l)) (ret (rc, [])))) ?s = Inr ((rc, res), s')"
      using run unix by (simp add: getaddrinfo_def Let_def cm_simps)
    then obtain rc1 s1 where i: "ga_inet env hostname servname ?h ?s = Inr (rc1, s1)" and
      r1: "(bnd (gets ais) (\<lambda>l. if rc1 = EAI_NONE then ret (rc1, l) else thn (modify (freeaddrinfo l)) (ret (rc1, []))) ::
        (eai \<times> addrinfo list) gam) s1 = Inr ((rc, res), s')"
      by (rule bndE)
    have d: "if rc1 = EAI_NONE then balance s1 = balance ?s \<and> list_all ai_ok (ais s1) \<and> ais s1 \<noteq> []
      else balance s1 = balance ?s \<or> wants_canon hostname ?h \<and> balance s1 = balance ?s + 1"
      by (rule ga_inet_done [OF i db]) simp_all
    show ?thesis using r1 d by (auto simp: cm_simps balance_def freeaddrinfo_def cost_def split: if_splits)
  next
    case False
    then have "res = []" "rc \<noteq> EAI_NONE" "s' = ?s" using run by (auto simp: getaddrinfo_def Let_def cm_simps)
    then show ?thesis by simp
  qed
qed

end
