(* ===== verification/Gai_Spec.thy ===== *)
theory Gai_Spec
  imports Gai_Props
begin

text \<open>
  What \<^verbatim>\<open>getaddrinfo\<close> returns when memory suffices: every address of the host with every
  port of the service.
\<close>

section \<open>Ports\<close>

fun with_port :: "16 word \<Rightarrow> sockaddr \<Rightarrow> sockaddr" where
  "with_port p (Sin _ a) = Sin p a"
| "with_port p (Sin6 _ a) = Sin6 p a"
| "with_port p (Sun x) = Sun x"
| "with_port p (Sa_other f) = Sa_other f"

definition put_port :: "16 word \<Rightarrow> addrinfo \<Rightarrow> addrinfo" where
  "put_port p ai = ai\<lparr>ai_addr := map_option (with_port p) (ai_addr ai)\<rparr>"

text \<open>What becomes of one entry in a pass of \<^verbatim>\<open>ga_port\<close>.\<close>

definition stamp :: "16 word \<Rightarrow> int \<Rightarrow> addrinfo \<Rightarrow> addrinfo list" where
  "stamp p st ai =
     (if flag_set (ai_flags ai) AI_CLONE
      then if ai_socktype ai = 0 then [put_port p (ai\<lparr>ai_socktype := st\<rparr>)]
           else [ai, put_port p (ai\<lparr>ai_flags := 0, ai_canonname := None, ai_socktype := st\<rparr>)]
      else if ai_socktype ai = st then [put_port p (ai\<lparr>ai_socktype := st\<rparr>)] else [ai])"

definition stamped :: "int \<Rightarrow> addrinfo \<Rightarrow> bool" where
  "stamped st ai \<longleftrightarrow> flag_set (ai_flags ai) AI_CLONE \<or> ai_socktype ai = st"

lemma galloc_plenty: "oks s = [] \<Longrightarrow> galloc s = Inr (True, s\<lparr>live := live s + 1\<rparr>)"
  by (simp add: galloc_def)

lemma set_port_put: "ai_ok ai \<Longrightarrow> set_port p ai s = Inr ((1, put_port p ai), s)"
  by (auto simp: ai_ok_def set_port_def put_port_def split: family.splits option.splits sockaddr.splits)

lemma ga_clone_plenty:
  "oks s = [] \<Longrightarrow> ga_clone ai s = Inr ((True, [ai\<lparr>ai_flags := 0, ai_canonname := None\<rparr>]), s\<lparr>live := live s + 2\<rparr>)"
  by (simp add: ga_clone_def Let_def cm_simps galloc_plenty)

lemma port_loop_stamp:
  assumes "oks s = []" and "list_all ai_ok l"
  shows "\<exists>n. port_loop p st l s = Inr ((Some (length (filter (stamped st) l)), concat (map (stamp p st) l)), s\<lparr>live := n\<rparr>)"
  using assms
proof (induction l arbitrary: s)
  case Nil
  show ?case by (simp add: exI [of _ "live s"])
next
  case (Cons ai l)
  show ?case
  proof (cases "flag_set (ai_flags ai) AI_CLONE \<and> ai_socktype ai \<noteq> 0")
    case True
    obtain n where n: "port_loop p st l (s\<lparr>live := live s + 2\<rparr>) =
      Inr ((Some (length (filter (stamped st) l)), concat (map (stamp p st) l)), s\<lparr>live := n\<rparr>)"
      using Cons.IH [of "s\<lparr>live := live s + 2\<rparr>"] Cons.prems by auto
    have "ai_ok (ai\<lparr>ai_flags := 0, ai_canonname := None, ai_socktype := st\<rparr>)" using Cons.prems(2) by (simp add: ai_ok_upd)
    then show ?thesis using True n Cons.prems
      by (simp add: cm_simps ga_clone_plenty set_port_put stamp_def [of p st ai] stamped_def [of st ai] exI [of _ n])
  next
    case False
    obtain n where n: "port_loop p st l s = Inr ((Some (length (filter (stamped st) l)), concat (map (stamp p st) l)), s\<lparr>live := n\<rparr>)"
      using Cons.IH [of s] Cons.prems by auto
    have "ai_ok (ai\<lparr>ai_socktype := st\<rparr>)" using Cons.prems(2) by (simp add: ai_ok_upd)
    then show ?thesis using False n
      by (auto simp: cm_simps set_port_put stamp_def [of p st ai] stamped_def [of st ai] exI [of _ n])
  qed
qed

lemma ga_port_stamp:
  assumes "oks s = []" and "list_all ai_ok (ais s)"
  shows "\<exists>n. ga_port p st s = Inr (Some (length (filter (stamped st) (ais s))), s\<lparr>live := n, ais := concat (map (stamp p st) (ais s))\<rparr>)"
proof -
  obtain n where n: "port_loop p st (ais s) s =
      Inr ((Some (length (filter (stamped st) (ais s))), concat (map (stamp p st) (ais s))), s\<lparr>live := n\<rparr>)"
    using port_loop_stamp [OF assms] by blast
  show ?thesis by (simp add: ga_port_def cm_simps n exI [of _ n])
qed

lemma put_port_ok: "ai_ok ai \<Longrightarrow> ai_ok (put_port p ai)"
  by (auto simp: put_port_def ai_ok_def split: family.splits option.splits sockaddr.splits)

section \<open>Services\<close>

definition service_ports :: "netdb \<Rightarrow> int \<Rightarrow> string \<Rightarrow> (int \<times> 16 word) list" where
  "service_ports env st serv =
     (if isdigit (char0 serv)
      then let p = htons (of_nat (digits_val 0 (takeWhile isdigit serv)))
           in if st \<noteq> 0 then [(st, p)] else [(SOCK_STREAM, p), (SOCK_DGRAM, p)]
      else
        (if st = 0 \<or> st = SOCK_STREAM then map (Pair SOCK_STREAM) (case getservbyname env serv ''tcp'' of Some p \<Rightarrow> [p] | None \<Rightarrow> []) else []) @
        (if st = 0 \<or> st = SOCK_DGRAM then map (Pair SOCK_DGRAM) (case getservbyname env serv ''udp'' of Some p \<Rightarrow> [p] | None \<Rightarrow> []) else []))"

text \<open>What a caller sees of an entry: family, socket type, address and port.\<close>

definition view :: "addrinfo \<Rightarrow> family \<times> int \<times> sockaddr option" where
  "view ai = (ai_family ai, ai_socktype ai, ai_addr ai)"

definition offer :: "(int \<times> 16 word) list \<Rightarrow> addrinfo \<Rightarrow> (family \<times> int \<times> sockaddr option) list" where
  "offer ports ai = map (\<lambda>(st, p). (ai_family ai, st, map_option (with_port p) (ai_addr ai))) ports"

text \<open>The entries as the host lookup leaves them.\<close>

definition plain :: "int \<Rightarrow> addrinfo \<Rightarrow> bool" where
  "plain st ai \<longleftrightarrow> ai_ok ai \<and> ai_socktype ai = st \<and> ai_flags ai = (if st = 0 then AI_CLONE else 0)"

lemma clone_flag [simp]: "flag_set AI_CLONE AI_CLONE" "\<not> flag_set 0 m"
  by (simp_all add: flag_set_def AI_CLONE_def)

lemma with_port_twice [simp]: "map_option (with_port p) (map_option (with_port q) a) = map_option (with_port p) a"
proof (cases a)
  case (Some sa)
  then show ?thesis by (cases sa) auto
qed simp

lemma put_port_fields [simp]:
  "ai_family (put_port p ai) = ai_family ai" "ai_socktype (put_port p ai) = ai_socktype ai"
  "ai_flags (put_port p ai) = ai_flags ai" "ai_addr (put_port p ai) = map_option (with_port p) (ai_addr ai)"
  by (simp_all add: put_port_def)

text \<open>One pass over plain entries.\<close>

lemma stamp_plain:
  assumes "plain st0 ai" and "st0 = 0 \<or> st0 = st"
  shows "\<exists>ai'. stamp p st ai = [ai'] \<and> stamped st ai \<and> view ai' = (ai_family ai, st, map_option (with_port p) (ai_addr ai)) \<and>
    ai_ok ai' \<and> ai_flags ai' = ai_flags ai"
  using assms by (auto simp: plain_def stamp_def stamped_def view_def put_port_ok ai_ok_upd)

text \<open>A second pass, over entries that have a socket type and the flag.\<close>

lemma stamp_again:
  assumes "flag_set (ai_flags ai) AI_CLONE" and "ai_socktype ai \<noteq> 0"
  shows "\<exists>ai'. stamp p st ai = [ai, ai'] \<and> stamped st ai \<and> view ai' = (ai_family ai, st, map_option (with_port p) (ai_addr ai))"
  using assms by (auto simp: stamp_def stamped_def view_def)

lemma pass_plain:
  assumes "list_all (plain st0) l" and "st0 = 0 \<or> st0 = st"
  shows "map view (concat (map (stamp p st) l)) = concat (map (offer [(st, p)]) l) \<and> filter (stamped st) l = l \<and>
    list_all ai_ok (concat (map (stamp p st) l)) \<and>
    (st0 = 0 \<longrightarrow> st \<noteq> 0 \<longrightarrow> list_all (\<lambda>ai. flag_set (ai_flags ai) AI_CLONE \<and> ai_socktype ai \<noteq> 0) (concat (map (stamp p st) l)))"
  using assms(1)
proof (induction l)
  case (Cons ai l)
  obtain ai' where "stamp p st ai = [ai']" "stamped st ai" "view ai' = (ai_family ai, st, map_option (with_port p) (ai_addr ai))"
    "ai_ok ai'" "ai_flags ai' = ai_flags ai"
    using stamp_plain [of st0 ai st p] Cons.prems assms(2) by auto
  then show ?case using Cons by (auto simp: offer_def plain_def view_def)
qed simp

lemma pass_again:
  assumes "list_all (\<lambda>ai. flag_set (ai_flags ai) AI_CLONE \<and> ai_socktype ai \<noteq> 0) l"
  shows "map view (concat (map (stamp p st) l)) = concat (map (\<lambda>ai. [view ai, (ai_family ai, st, map_option (with_port p) (ai_addr ai))]) l) \<and>
    filter (stamped st) l = l"
  using assms
proof (induction l)
  case (Cons ai l)
  obtain ai' where "stamp p st ai = [ai, ai']" "stamped st ai" "view ai' = (ai_family ai, st, map_option (with_port p) (ai_addr ai))"
    using stamp_again [of ai p st] Cons.prems by auto
  then show ?case using Cons by auto
qed simp

lemma two_passes:
  assumes "list_all (plain 0) l" and "st \<noteq> 0"
  shows "map view (concat (map (stamp p' st') (concat (map (stamp p st) l)))) = concat (map (offer [(st, p), (st', p')]) l)"
  using assms(1)
proof (induction l)
  case (Cons ai l)
  obtain ai' where 1: "stamp p st ai = [ai']" "view ai' = (ai_family ai, st, map_option (with_port p) (ai_addr ai))" "ai_flags ai' = ai_flags ai"
    using stamp_plain [of 0 ai st p] Cons.prems by auto
  then have "flag_set (ai_flags ai') AI_CLONE" "ai_socktype ai' \<noteq> 0" using Cons.prems assms(2) by (auto simp: plain_def view_def)
  from stamp_again [OF this, of p' st'] 1 show ?case using Cons by (auto simp: offer_def view_def)
qed simp

text \<open>A step returns \<open>rc\<close> and changes nothing but memory and the list, which it leaves with \<open>Q\<close>.\<close>

definition leads :: "'a gam \<Rightarrow> gai \<Rightarrow> 'a \<Rightarrow> (addrinfo list \<Rightarrow> bool) \<Rightarrow> bool" where
  "leads m s rc Q \<longleftrightarrow> (\<exists>n l'. m s = Inr (rc, s\<lparr>live := n, ais := l'\<rparr>) \<and> Q l')"

lemma leadsI: "m s = Inr (rc, s\<lparr>live := n, ais := l'\<rparr>) \<Longrightarrow> Q l' \<Longrightarrow> leads m s rc Q"
  by (auto simp: leads_def)

lemma leads_weaken: "leads m s rc Q \<Longrightarrow> (\<And>l. Q l \<Longrightarrow> Q' l) \<Longrightarrow> leads m s rc Q'"
  by (auto simp: leads_def)

text \<open>\<^verbatim>\<open>ga_serv\<close> on the entries of a lookup.\<close>

lemma found_one:
  assumes "oks s = []" and "list_all (plain st0) (ais s)" and "st0 = 0 \<or> st0 = st"
  shows "\<exists>n. add_found (ga_port p st) f k s = f (k + length (ais s)) (s\<lparr>live := n, ais := concat (map (stamp p st) (ais s))\<rparr>)"
proof -
  have "list_all ai_ok (ais s)" using assms(2) by (auto simp: list_all_iff plain_def)
  from ga_port_stamp [OF assms(1) this] obtain n where
    "ga_port p st s = Inr (Some (length (filter (stamped st) (ais s))), s\<lparr>live := n, ais := concat (map (stamp p st) (ais s))\<rparr>)" by blast
  then show ?thesis using pass_plain [OF assms(2,3), of p] by (auto simp: add_found_def cm_simps)
qed

lemma found_two:
  assumes "oks s = []" and "list_all (plain 0) (ais s)" and "st \<noteq> 0"
  shows "\<exists>n. add_found (ga_port p st) (add_found (ga_port p' st') f) k s =
    f (k + length (ais s) + length (ais s)) (s\<lparr>live := n, ais := concat (map (stamp p' st') (concat (map (stamp p st) (ais s))))\<rparr>)"
proof -
  let ?l = "concat (map (stamp p st) (ais s))"
  obtain n where n: "add_found (ga_port p st) (add_found (ga_port p' st') f) k s =
      add_found (ga_port p' st') f (k + length (ais s)) (s\<lparr>live := n, ais := ?l\<rparr>)"
    using found_one [OF assms(1,2), of st p "add_found (ga_port p' st') f" k] by auto
  note one = pass_plain [OF assms(2), of st p, simplified assms(3), simplified]
  have len: "length ?l = length (ais s)"
    using arg_cong [OF conjunct1 [OF one], of length] by (simp add: length_concat offer_def comp_def sum_list_triv)
  obtain m where m: "ga_port p' st' (s\<lparr>live := n, ais := ?l\<rparr>) =
      Inr (Some (length (filter (stamped st') ?l)), s\<lparr>live := m, ais := concat (map (stamp p' st') ?l)\<rparr>)"
    using ga_port_stamp [of "s\<lparr>live := n, ais := ?l\<rparr>" p' st'] assms(1) one by auto
  have "filter (stamped st') ?l = ?l" using pass_again [of ?l p' st'] one by blast
  then show ?thesis using n m len by (auto simp: add_found_def cm_simps)
qed

lemma ga_serv_spec:
  assumes mem: "oks s = []" and l: "list_all (plain (ai_socktype hints)) (ais s)" "ais s \<noteq> []"
    and port: "isdigit (char0 serv) \<Longrightarrow> digits_val 0 (takeWhile isdigit serv) < 2147483648"
  shows "leads (ga_serv env hints serv) s
      (if service_ports env (ai_socktype hints) serv = [] then if ai_socktype hints = 0 then EAI_NONAME else EAI_SERVICE else EAI_NONE)
      (\<lambda>l'. service_ports env (ai_socktype hints) serv \<noteq> [] \<longrightarrow>
        map view l' = concat (map (offer (service_ports env (ai_socktype hints) serv)) (ais s)))"
proof -
  let ?st = "ai_socktype hints"
  let ?fin = "serv_end hints"
  have pos: "?fin k t = Inr (EAI_NONE, t)" if "0 < k" for k t using that by (simp add: serv_end_def)
  have len: "0 < length (ais s)" using l(2) by simp
  have one: "leads (add_found (ga_port p st) ?fin 0) s EAI_NONE (\<lambda>l'. map view l' = concat (map (offer [(st, p)]) (ais s)))"
    if st: "?st = 0 \<or> ?st = st" for p st
  proof -
    obtain n where "add_found (ga_port p st) ?fin 0 s = Inr (EAI_NONE, s\<lparr>live := n, ais := concat (map (stamp p st) (ais s))\<rparr>)"
      using found_one [OF mem l(1) st, of p ?fin 0] pos len by auto
    then show ?thesis using pass_plain [OF l(1) st, of p] by (intro leadsI) auto
  qed
  have two: "leads (add_found (ga_port p SOCK_STREAM) (add_found (ga_port p' SOCK_DGRAM) ?fin) 0) s EAI_NONE
    (\<lambda>l'. map view l' = concat (map (offer [(SOCK_STREAM, p), (SOCK_DGRAM, p')]) (ais s)))" if st: "?st = 0" for p p'
  proof -
    have l0: "list_all (plain 0) (ais s)" and s1: "SOCK_STREAM \<noteq> 0" using l(1) st by (simp_all add: SOCK_STREAM_def)
    obtain n where "add_found (ga_port p SOCK_STREAM) (add_found (ga_port p' SOCK_DGRAM) ?fin) 0 s =
      Inr (EAI_NONE, s\<lparr>live := n, ais := concat (map (stamp p' SOCK_DGRAM) (concat (map (stamp p SOCK_STREAM) (ais s))))\<rparr>)"
      using found_two [OF mem l0 s1, of p p' SOCK_DGRAM ?fin 0] pos len by auto
    then show ?thesis using two_passes [OF l0 s1, of p' SOCK_DGRAM p] by (intro leadsI) auto
  qed
  have none: "leads (?fin 0) s (if ?st = 0 then EAI_NONAME else EAI_SERVICE) (\<lambda>_. True)"
    by (rule leadsI [where n = "live s" and l' = "ais s"]) (simp_all add: serv_end_def)
  show ?thesis
  proof (cases "isdigit (char0 serv)")
    case True
    let ?p = "htons (of_nat (digits_val 0 (takeWhile isdigit serv)))"
    have "ga_serv env hints serv s =
      (if ?st \<noteq> 0 then add_found (ga_port ?p ?st) ?fin else add_found (ga_port ?p SOCK_STREAM) (add_found (ga_port ?p SOCK_DGRAM) ?fin)) 0 s"
      using True port by (simp add: ga_serv_def atoi_port_def Let_def cm_simps)
    then show ?thesis using True one [of ?st ?p] two [of ?p ?p]
      by (cases "?st = 0") (simp_all add: service_ports_def Let_def leads_def)
  next
    case False
    let ?tcp = "getservbyname env serv ''tcp''" and ?udp = "getservbyname env serv ''udp''"
    have udp: "?udp = Some p \<Longrightarrow> ?st = 0 \<Longrightarrow> serv_udp env hints serv = add_found (ga_port p SOCK_DGRAM) ?fin"
      "?udp = None \<Longrightarrow> serv_udp env hints serv = ?fin" "?st \<noteq> 0 \<and> ?st \<noteq> SOCK_DGRAM \<Longrightarrow> serv_udp env hints serv = ?fin" for p
      by (auto simp: serv_udp_def fun_eq_iff)
    consider "?st = 0" | "?st = SOCK_STREAM" "?st \<noteq> 0" "?st \<noteq> SOCK_DGRAM" | "?st = SOCK_DGRAM" "?st \<noteq> 0" "?st \<noteq> SOCK_STREAM"
      | "?st \<noteq> 0" "?st \<noteq> SOCK_STREAM" "?st \<noteq> SOCK_DGRAM"
      by (auto simp: SOCK_STREAM_def SOCK_DGRAM_def)
    then show ?thesis
    proof cases
      case 1
      then show ?thesis using False one [of SOCK_STREAM] one [of SOCK_DGRAM] two leads_weaken [OF none] udp
        by (cases ?tcp; cases ?udp) (simp_all add: service_ports_def ga_serv_def)
    next
      case 2
      then show ?thesis using False one [of SOCK_STREAM] leads_weaken [OF none] udp
        by (cases ?tcp) (simp_all add: service_ports_def ga_serv_def)
    next
      case 3
      then show ?thesis using False one [of SOCK_DGRAM] leads_weaken [OF none]
        by (cases ?udp) (simp_all add: service_ports_def ga_serv_def serv_udp_def)
    next
      case 4
      then show ?thesis using False leads_weaken [OF none] udp by (simp add: service_ports_def ga_serv_def)
    qed
  qed
qed

section \<open>Hosts\<close>

text \<open>Like \<open>leads\<close>, for the steps that may also save a canonical name.\<close>

definition finds :: "'a gam \<Rightarrow> gai \<Rightarrow> 'a \<Rightarrow> (addrinfo list \<Rightarrow> bool) \<Rightarrow> bool" where
  "finds m s rc Q \<longleftrightarrow> (\<exists>n l' c. m s = Inr (rc, s\<lparr>live := n, ais := l', canon := c\<rparr>) \<and> Q l')"

lemma findsI: "m s = Inr (rc, s\<lparr>live := n, ais := l', canon := c\<rparr>) \<Longrightarrow> Q l' \<Longrightarrow> finds m s rc Q"
  by (auto simp: finds_def)

lemma findsE:
  assumes "finds m s rc Q"
  obtains s' where "m s = Inr (rc, s')" and "oks s' = oks s" and "Q (ais s')"
    and "\<forall>n l' c. s'\<lparr>live := n, ais := l', canon := c\<rparr> = s\<lparr>live := n, ais := l', canon := c\<rparr>"
proof -
  obtain n l' c where "m s = Inr (rc, s\<lparr>live := n, ais := l', canon := c\<rparr>)" "Q l'" using assms by (auto simp: finds_def)
  then show ?thesis by (intro that [of "s\<lparr>live := n, ais := l', canon := c\<rparr>"]) simp_all
qed

lemma leads_finds: "leads m s rc Q \<Longrightarrow> finds m s rc Q"
proof -
  assume "leads m s rc Q"
  then obtain n l' where "m s = Inr (rc, s\<lparr>live := n, ais := l'\<rparr>)" "Q l'" by (auto simp: leads_def)
  moreover have "s\<lparr>live := n, ais := l'\<rparr> = s\<lparr>live := n, ais := l', canon := canon s\<rparr>" by simp
  ultimately show ?thesis by (metis findsI)
qed

lemma finds_bnd:
  assumes "finds m s x Q" and "\<And>s'. oks s' = oks s \<Longrightarrow> Q (ais s') \<Longrightarrow> finds (f x) s' rc Q'"
  shows "finds (bnd m f) s rc Q'"
proof -
  obtain s1 where s1: "m s = Inr (x, s1)" "oks s1 = oks s" "Q (ais s1)"
    "\<forall>n l' c. s1\<lparr>live := n, ais := l', canon := c\<rparr> = s\<lparr>live := n, ais := l', canon := c\<rparr>"
    using assms(1) by (rule findsE)
  from assms(2) [OF s1(2,3)] obtain n l' c where "f x s1 = Inr (rc, s1\<lparr>live := n, ais := l', canon := c\<rparr>)" "Q' l'"
    by (auto simp: finds_def)
  then show ?thesis using s1(1,4) by (intro findsI [where n = n and l' = l' and c = c]) (simp_all add: cm_simps)
qed

lemma finds_then:
  assumes "finds m s EAI_NONE Q" and "\<And>s'. oks s' = oks s \<Longrightarrow> Q (ais s') \<Longrightarrow> finds k s' rc Q'"
  shows "finds (bnd m (\<lambda>rc. if rc \<noteq> EAI_NONE then ret rc else k)) s rc Q'"
  by (rule finds_bnd [OF assms(1)]) (simp add: assms(2))

lemma finds_ret: "Q (ais s) \<Longrightarrow> finds (ret x) s x Q"
  by (rule findsI [where n = "live s" and l' = "ais s" and c = "canon s"]) simp_all

lemma finds_gets: "Q (ais s) \<Longrightarrow> finds (gets f) s (f s) Q"
  by (rule findsI [where n = "live s" and l' = "ais s" and c = "canon s"]) simp_all

definition addr_ok :: "family \<Rightarrow> 8 word list \<Rightarrow> bool" where
  "addr_ok fam a \<longleftrightarrow> fam = AF_INET \<and> length a = 4 \<or> fam = AF_INET6 \<and> length a = 16"

lemma aistruct_plenty:
  assumes "oks s = []" and "addr_ok fam a"
  shows "finds (ga_aistruct hints (Raw a) fam) s EAI_NONE (\<lambda>l. l = ais s @ [entry_of hints fam a])"
proof -
  have "ga_aistruct hints (Raw a) fam s =
    Inr (EAI_NONE, s\<lparr>live := live s + 2, ais := ais s @ [entry_of hints fam a], canon := canon s\<rparr>)"
    using assms by (auto simp: addr_ok_def ga_aistruct_def set_addr_def cm_simps galloc_plenty upd_last_def entry_of_def)
  then show ?thesis by (rule findsI) simp
qed

lemma addr_loop_plenty:
  assumes "oks s = []" and "\<forall>a \<in> set as. addr_ok fam a"
  shows "finds (addr_loop hints fam as) s EAI_NONE (\<lambda>l. l = ais s @ map (entry_of hints fam) as)"
  using assms
proof (induction as arbitrary: s)
  case Nil
  show ?case unfolding addr_loop.simps by (rule finds_ret) simp
next
  case (Cons a as)
  show ?case unfolding addr_loop.simps
  proof (rule finds_bnd [OF aistruct_plenty])
    fix s' :: gai assume "oks s' = oks s" "ais s' = ais s @ [entry_of hints fam a]"
    then show "finds (if EAI_NONE \<noteq> EAI_NONE then ret EAI_NONE else addr_loop hints fam as) s' EAI_NONE
      (\<lambda>l. l = ais s @ map (entry_of hints fam) (a # as))"
      using Cons.IH [of s'] Cons.prems by simp
  qed (use Cons.prems in auto)
qed

lemma save_canon_plenty:
  assumes "oks s = []"
  shows "finds (save_canon hostname hints n) s True (\<lambda>l. l = ais s)"
proof (cases "wants_canon hostname hints \<and> canon s = None")
  case True
  then have "save_canon hostname hints n s = Inr (True, s\<lparr>live := live s + 1, ais := ais s, canon := Some n\<rparr>)"
    using assms by (simp add: save_canon_def wants_canon_def cm_simps galloc_plenty)
  then show ?thesis by (rule findsI) simp
next
  case False
  then have "save_canon hostname hints n s = Inr (True, s\<lparr>live := live s, ais := ais s, canon := canon s\<rparr>)"
    by (auto simp: save_canon_def wants_canon_def cm_simps)
  then show ?thesis by (rule findsI) simp
qed

lemma host_ok_addrs: "host_ok h \<Longrightarrow> \<forall>a \<in> set (h_addr_list h). addr_ok (h_addrtype h) a"
  by (auto simp: host_ok_def addr_ok_def)

text \<open>The addresses the name service has for a host in one of the two searches.\<close>

definition hosts :: "netdb \<Rightarrow> string \<Rightarrow> family \<Rightarrow> (family \<times> 8 word list) list" where
  "hosts env host fam =
     (case gethostbyname2 env host fam of None \<Rightarrow> [] | Some h \<Rightarrow> map (Pair (h_addrtype h)) (h_addr_list h))"

lemma hosts_ok:
  assumes "netdb_ok env"
  shows "\<forall>(f, a) \<in> set (hosts env host fam). addr_ok f a"
proof (cases "gethostbyname2 env host fam")
  case (Some h)
  then have "host_ok h" using assms by (simp add: netdb_ok_def)
  then show ?thesis using host_ok_addrs [of h] Some by (auto simp: hosts_def)
qed (simp add: hosts_def)

lemma search_name_plenty:
  assumes "oks s = []" and db: "netdb_ok env" and fam: "ai_family hints = AF_UNSPEC"
  shows "finds (search_name env hostname hints 2 host f) s EAI_NONE (\<lambda>l. l = ais s @ map (\<lambda>(f, a). entry_of hints f a) (hosts env host f))"
proof (cases "gethostbyname2 env host f")
  case None
  then show ?thesis unfolding search_name_def by (simp add: lookup_def hosts_def finds_ret)
next
  case (Some h)
  then have l: "lookup env 2 host f = Inr h" by (simp add: lookup_def)
  have "finds (bnd (save_canon hostname hints (h_name h)) (\<lambda>ok. if \<not> ok then ret EAI_MEMORY else addr_loop hints (h_addrtype h) (h_addr_list h)))
    s EAI_NONE (\<lambda>l. l = ais s @ map (\<lambda>(f, a). entry_of hints f a) (hosts env host f))"
  proof (rule finds_bnd [OF save_canon_plenty [OF assms(1)]])
    fix s' :: gai assume s': "oks s' = oks s" "ais s' = ais s"
    show "finds (if \<not> True then ret EAI_MEMORY else addr_loop hints (h_addrtype h) (h_addr_list h)) s' EAI_NONE
      (\<lambda>l. l = ais s @ map (\<lambda>(f, a). entry_of hints f a) (hosts env host f))"
      using addr_loop_plenty [of s' "h_addr_list h" "h_addrtype h" hints] host_ok_addrs [OF lookup_ok [OF db l]] s' assms(1) Some
      by (simp add: hosts_def comp_def)
  qed
  then show ?thesis using fam by (simp add: search_name_def l)
qed

section \<open>The whole call with enough memory\<close>

lemma search_one_name:
  assumes "inet_pton AF_INET host = (0, None)" and "inet_pton AF_INET6 host = (0, None)"
  shows "search_one env hostname hints nsearch (host, fam) = search_name env hostname hints nsearch host fam"
  using assms by (simp add: search_one_def)

lemma search_loop_names:
  assumes "oks s = []" "ais s = []" and "netdb_ok env" "ai_family hints = AF_UNSPEC"
    and "inet_pton AF_INET host = (0, None)" and "inet_pton AF_INET6 host = (0, None)"
  shows "finds (search_loop env hostname hints 2 [(host, AF_INET6), (host, AF_INET)]) s EAI_NONE
    (\<lambda>l. l = map (\<lambda>(f, a). entry_of hints f a) (hosts env host AF_INET6 @ hosts env host AF_INET))"
  unfolding search_loop.simps search_one_name [OF assms(5,6)]
proof (rule finds_then [OF search_name_plenty [OF assms(1,3,4)]])
  fix s' :: gai
  assume s': "oks s' = oks s" "ais s' = ais s @ map (\<lambda>(f, a). entry_of hints f a) (hosts env host AF_INET6)"
  show "finds (bnd (search_name env hostname hints 2 host AF_INET) (\<lambda>rc. if rc \<noteq> EAI_NONE then ret rc else ret EAI_NONE)) s' EAI_NONE
    (\<lambda>l. l = map (\<lambda>(f, a). entry_of hints f a) (hosts env host AF_INET6 @ hosts env host AF_INET))"
  proof (rule finds_then [OF search_name_plenty])
    fix s'' :: gai
    assume "ais s'' = ais s' @ map (\<lambda>(f, a). entry_of hints f a) (hosts env host AF_INET)"
    then show "finds (ret EAI_NONE) s'' EAI_NONE
      (\<lambda>l. l = map (\<lambda>(f, a). entry_of hints f a) (hosts env host AF_INET6 @ hosts env host AF_INET))"
      using s'(2) assms(2) by (intro finds_ret) simp
  qed (use s' assms in auto)
qed

text \<open>The canonical name goes to the first entry; what the caller sees of it otherwise is the same.\<close>

lemma ga_canon_plenty:
  assumes "oks s = []" and "ais s = ai # l"
  shows "finds (ga_canon hostname hints host0) s EAI_NONE (\<lambda>l'. \<exists>c. l' = ai\<lparr>ai_canonname := c\<rparr> # l)"
proof (cases "wants_canon hostname hints")
  case True
  let ?name = "Some (case canon s of Some n \<Rightarrow> n | None \<Rightarrow> host0)"
  have "ga_canon hostname hints host0 s =
    Inr (EAI_NONE, s\<lparr>live := (if canon s = None then live s + 1 else live s), ais := ai\<lparr>ai_canonname := ?name\<rparr> # l, canon := canon s\<rparr>)"
    using True assms by (cases "canon s") (simp_all add: ga_canon_def wants_canon_def cm_simps galloc_plenty)
  then show ?thesis by (rule findsI) blast
next
  case False
  then have "ga_canon hostname hints host0 = ret EAI_NONE" by (auto simp: ga_canon_def wants_canon_def)
  moreover have "finds (ret EAI_NONE) s EAI_NONE (\<lambda>l'. \<exists>c. l' = ai\<lparr>ai_canonname := c\<rparr> # l)"
    by (intro finds_ret exI [of _ "ai_canonname ai"]) (simp add: assms(2))
  ultimately show ?thesis by simp
qed

lemma plain_entry: "addr_ok f a \<Longrightarrow> plain (ai_socktype hints) (entry_of hints f a)"
  by (auto simp: plain_def entry_of_def new_ai_def ai_ok_def addr_ok_def)

lemma plain_canon: "plain st (ai\<lparr>ai_canonname := c\<rparr>) = plain st ai"
  by (simp add: plain_def ai_ok_upd)

definition sock_of :: "family \<Rightarrow> 16 word \<Rightarrow> 8 word list \<Rightarrow> sockaddr" where
  "sock_of f p a = (if f = AF_INET then Sin p a else Sin6 p a)"

text \<open>What the caller should get: every address with every port.\<close>

definition answers_for :: "(int \<times> 16 word) list \<Rightarrow> (family \<times> 8 word list) list \<Rightarrow> (family \<times> int \<times> sockaddr option) list" where
  "answers_for ports addrs = concat (map (\<lambda>(f, a). map (\<lambda>(st, p). (f, st, Some (sock_of f p a))) ports) addrs)"

lemma offer_entry: "addr_ok f a \<Longrightarrow> offer ports (entry_of hints f a) = map (\<lambda>(st, p). (f, st, Some (sock_of f p a))) ports"
  by (auto simp: offer_def entry_of_def new_ai_def addr_ok_def sock_of_def)

lemma offer_entries:
  assumes "\<forall>(f, a) \<in> set addrs. addr_ok f a"
  shows "concat (map (offer ports) (map (\<lambda>(f, a). entry_of hints f a) addrs)) = answers_for ports addrs"
proof -
  have "map (offer ports \<circ> (\<lambda>(f, a). entry_of hints f a)) addrs = map (\<lambda>(f, a). map (\<lambda>(st, p). (f, st, Some (sock_of f p a))) ports) addrs"
    using assms by (auto simp: offer_entry)
  then have "concat (map (offer ports \<circ> (\<lambda>(f, a). entry_of hints f a)) addrs) =
      concat (map (\<lambda>(f, a). map (\<lambda>(st, p). (f, st, Some (sock_of f p a))) ports) addrs)" by (rule arg_cong)
  then show ?thesis by (simp only: answers_for_def map_map)
qed

text \<open>From the entries of the lookup to the result.\<close>

lemma serve_entries:
  assumes "oks s = []" and l: "ais s = map (\<lambda>(f, a). entry_of hints f a) addrs" and ok: "\<forall>(f, a) \<in> set addrs. addr_ok f a" "addrs \<noteq> []"
    and port: "isdigit (char0 serv) \<Longrightarrow> digits_val 0 (takeWhile isdigit serv) < 2147483648"
    and ports: "ports = service_ports env (ai_socktype hints) serv"
  shows "finds (bnd (ga_canon hostname hints host0) (\<lambda>rc. if rc \<noteq> EAI_NONE then ret rc else ga_serv env hints serv)) s
    (if ports = [] then if ai_socktype hints = 0 then EAI_NONAME else EAI_SERVICE else EAI_NONE)
    (\<lambda>l. ports \<noteq> [] \<longrightarrow> map view l = answers_for ports addrs)"
proof -
  obtain f a rest where ad: "addrs = (f, a) # rest" using ok(2) by (cases addrs) auto
  let ?rest = "map (\<lambda>(f, a). entry_of hints f a) rest"
  have "finds (ga_canon hostname hints host0) s EAI_NONE (\<lambda>l'. \<exists>c. l' = (entry_of hints f a)\<lparr>ai_canonname := c\<rparr> # ?rest)"
    using ga_canon_plenty [OF assms(1)] l ad by simp
  then show ?thesis
  proof (rule finds_then)
    fix s' :: gai
    assume s': "oks s' = oks s" "\<exists>c. ais s' = (entry_of hints f a)\<lparr>ai_canonname := c\<rparr> # ?rest"
    then obtain c where c: "ais s' = (entry_of hints f a)\<lparr>ai_canonname := c\<rparr> # ?rest" by blast
    have "\<forall>(f, a) \<in> set rest. addr_ok f a" "addr_ok f a" using ok(1) ad by auto
    then have "list_all (plain (ai_socktype hints)) (ais s')" using c
      by (auto simp: plain_canon plain_entry list_all_iff)
    moreover have "concat (map (offer ports) (ais s')) = answers_for ports addrs"
    proof -
      have "offer ports ((entry_of hints f a)\<lparr>ai_canonname := c\<rparr>) = offer ports (entry_of hints f a)" by (simp add: offer_def)
      then show ?thesis using c offer_entries [OF ok(1), of ports hints] ad by simp
    qed
    ultimately have "leads (ga_serv env hints serv) s'
      (if ports = [] then if ai_socktype hints = 0 then EAI_NONAME else EAI_SERVICE else EAI_NONE)
      (\<lambda>l. ports \<noteq> [] \<longrightarrow> map view l = answers_for ports addrs)"
      using ga_serv_spec [of s' hints serv env] s'(1) assms(1) c port unfolding ports by simp
    then show "finds (ga_serv env hints serv) s'
      (if ports = [] then if ai_socktype hints = 0 then EAI_NONAME else EAI_SERVICE else EAI_NONE)
      (\<lambda>l. ports \<noteq> [] \<longrightarrow> map view l = answers_for ports addrs)"
      by (rule leads_finds)
  qed
qed

lemma bnd_ret: "bnd (ret x) f = f x"
  by (simp add: fun_eq_iff cm_simps)

definition final_rc :: "int \<Rightarrow> 'a list \<Rightarrow> 'b list \<Rightarrow> eai" where
  "final_rc st addrs ports =
     (if addrs = [] then EAI_NONAME else if ports = [] then if st = 0 then EAI_NONAME else EAI_SERVICE else EAI_NONE)"

lemma getaddrinfo_from:
  assumes mem: "oks s = []" and chk: "ga_echeck hostname (Some serv) (ai_flags hints) (ai_family hints) (ai_socktype hints) = EAI_NONE"
    and unix: "\<not> unix_name hostname (Some serv)" and serv: "serv \<noteq> []"
    and plan: "ga_nsearch hostname hints = ret search"
    and found: "finds (search_loop env hostname hints (length search) search) (s\<lparr>ais := [], canon := None\<rparr>) EAI_NONE
      (\<lambda>l. l = map (\<lambda>(f, a). entry_of hints f a) addrs)"
    and ok: "\<forall>(f, a) \<in> set addrs. addr_ok f a"
    and port: "isdigit (char0 serv) \<Longrightarrow> digits_val 0 (takeWhile isdigit serv) < 2147483648"
    and ports: "ports = service_ports env (ai_socktype hints) serv"
  shows "\<exists>res s'. getaddrinfo env hostname (Some serv) (Some hints) s = Inr ((final_rc (ai_socktype hints) addrs ports, res), s') \<and>
    map view res = answers_for ports addrs"
proof -
  let ?s = "s\<lparr>ais := [], canon := None\<rparr>" and ?rc = "final_rc (ai_socktype hints) addrs ports"
  have "finds (ga_inet env hostname (Some serv) hints) ?s ?rc (\<lambda>l. ?rc = EAI_NONE \<longrightarrow> map view l = answers_for ports addrs)"
    unfolding ga_inet_def plan bnd_ret
  proof (rule finds_then [OF found])
    fix s' :: gai
    assume s': "oks s' = oks ?s" "ais s' = map (\<lambda>(f, a). entry_of hints f a) addrs"
    have g: "bnd (gets ais) f s' = f (ais s') s'" for f :: "addrinfo list \<Rightarrow> eai gam" by (simp add: cm_simps)
    have k: "(if absent (Some serv) then ret EAI_NONE else ga_serv env hints (the (Some serv))) = ga_serv env hints serv"
      using serv by (simp add: absent_def)
    have "finds (bnd (gets ais) (\<lambda>l.
       if l = [] then ret EAI_NONAME else
       bnd (ga_canon hostname hints (fst (hd search))) (\<lambda>rc. if rc \<noteq> EAI_NONE then ret rc else ga_serv env hints serv))) s' ?rc
       (\<lambda>l. ?rc = EAI_NONE \<longrightarrow> map view l = answers_for ports addrs)"
    proof (cases "addrs = []")
      case True
      then show ?thesis using s' finds_ret [of "\<lambda>_. True" s' EAI_NONAME] by (simp add: finds_def g final_rc_def)
    next
      case False
      then show ?thesis using serve_entries [OF _ s'(2) ok False port ports, of hostname "fst (hd search)"] s'(1) mem serv s'(2)
        by (cases "ports = []"; cases "ai_socktype hints = 0") (simp_all add: finds_def g final_rc_def)
    qed
    then show "finds (bnd (gets ais) (\<lambda>l.
       if l = [] then ret EAI_NONAME else
       bnd (ga_canon hostname hints (fst (hd search))) (\<lambda>rc.
       if rc \<noteq> EAI_NONE then ret rc
       else if absent (Some serv) then ret EAI_NONE else ga_serv env hints (the (Some serv))))) s' ?rc
       (\<lambda>l. ?rc = EAI_NONE \<longrightarrow> map view l = answers_for ports addrs)"
      unfolding k .
  qed
  then obtain s1 where s1: "ga_inet env hostname (Some serv) hints ?s = Inr (?rc, s1)"
    "?rc = EAI_NONE \<longrightarrow> map view (ais s1) = answers_for ports addrs" by (auto simp: finds_def)
  have empty: "?rc \<noteq> EAI_NONE \<Longrightarrow> answers_for ports addrs = []" by (auto simp: final_rc_def answers_for_def split: if_splits)
  show ?thesis using s1 chk unix empty by (simp add: getaddrinfo_def Let_def cm_simps)
qed

section \<open>Numeric addresses\<close>

lemma pton4_chars: "pton4_loop saw octets tmp src = Some bs \<Longrightarrow> c \<in> set src \<Longrightarrow> c \<in> set digits \<or> c = CHR ''.''"
proof (induction saw octets tmp src rule: pton4_loop.induct)
  case (2 saw octets tmp ch src)
  show ?case
  proof (cases "strchr_pos digits ch")
    case None
    then show ?thesis using 2 by (auto split: if_splits)
  next
    case (Some d)
    then have "ch \<in> set digits" by (auto simp: strchr_pos_def split: if_splits)
    then show ?thesis using 2 Some by (auto simp: Let_def split: if_splits)
  qed
qed simp

lemma pton6_loop_no_colon:
  "pton6_loop tmp tp colonp curtok saw val src = Some (tmp', tp', colonp', saw', val') \<Longrightarrow> CHR '':'' \<notin> set src \<Longrightarrow>
    colonp' = colonp \<and> tp' \<le> tp + 4"
proof (induction tmp tp colonp curtok saw val src rule: pton6_loop.induct)
  case (2 tmp tp colonp curtok saw val ch src)
  show ?case
  proof (cases "xdigit ch")
    case None
    then show ?thesis using 2 by (auto split: if_splits option.splits)
  next
    case (Some d)
    then show ?thesis using 2 by (auto simp: Let_def split: if_splits)
  qed
qed simp

lemma pton6_colon:
  assumes "inet_pton6 t = Some bs"
  shows "CHR '':'' \<in> set t"
proof (rule ccontr)
  assume no: "CHR '':'' \<notin> set t"
  then have "take 1 t \<noteq> '':''" by (cases t) auto
  then obtain tmp tp colonp saw val where l: "pton6_loop (replicate 16 0) 0 None t False 0 t = Some (tmp, tp, colonp, saw, val)"
    using assms by (auto simp: inet_pton6_def Let_def split: option.splits)
  from pton6_loop_no_colon [OF l no] show False
    using assms l \<open>take 1 t \<noteq> '':''\<close> by (auto simp: inet_pton6_def Let_def split: if_splits)
qed

lemma pton6_first:
  assumes "inet_pton6 t = Some bs"
  shows "isxdigit (char0 t) \<or> char0 t = CHR '':''"
proof (cases t)
  case Nil
  then show ?thesis using assms by (simp add: inet_pton6_def Let_def)
next
  case (Cons c cs)
  show ?thesis
  proof (rule ccontr)
    assume "\<not> ?thesis"
    then have c: "xdigit c = None" "c \<noteq> CHR '':''" using Cons by (auto simp: isxdigit_def char0_def)
    have "inet_pton4 (CHR ''.'' # cs) = None" by (simp add: inet_pton4_def digits_def strchr_pos_def)
    then have "pton6_loop (replicate 16 0) 0 None t False 0 t = None" using c Cons by auto
    then show False using assms c Cons by (simp add: inet_pton6_def Let_def)
  qed
qed

lemma pton4_refuses: "c \<in> set t \<Longrightarrow> c \<notin> set digits \<Longrightarrow> c \<noteq> CHR ''.'' \<Longrightarrow> inet_pton AF_INET t = (0, None)"
  using pton4_chars [of False 0 "[0]" t _ c] by (cases "inet_pton4 t") (auto simp: pton_ret_def inet_pton4_def)

lemma pton6_refuses: "CHR '':'' \<notin> set t \<Longrightarrow> inet_pton AF_INET6 t = (0, None)"
  using pton6_colon [of t] by (cases "inet_pton6 t") (auto simp: pton_ret_def)

lemma search_one_inet:
  assumes "inet_pton AF_INET t = (1, Some a)" and "isdigit (char0 t)"
  shows "search_one env hostname hints nsearch (t, fam) = numeric hints fam AF_INET a"
  using assms by (simp add: search_one_def)

lemma search_one_inet6:
  assumes "inet_pton AF_INET6 t = (1, Some a)"
  shows "search_one env hostname hints nsearch (t, fam) = numeric hints fam AF_INET6 a"
proof -
  have p: "inet_pton6 t = Some a" using assms by (cases "inet_pton6 t") (auto simp: pton_ret_def)
  show ?thesis using pton6_colon [OF p] pton6_first [OF p] pton4_refuses [OF pton6_colon [OF p]] assms
    by (simp add: search_one_def digits_def)
qed

text \<open>The lookup of an address finds that address alone.\<close>

lemma search_loop_numeric:
  assumes mem: "oks s = []" and s: "ais s = []" and a: "addr_ok kind a" and fam: "ai_family hints = AF_UNSPEC \<or> ai_family hints = kind"
    and one: "\<And>fam nsearch. search_one env hostname hints nsearch (t, fam) = numeric hints fam kind a"
  shows "finds (search_loop env hostname hints n (search_for t t (ai_family hints))) s EAI_NONE (\<lambda>l. l = [entry_of hints kind a])"
proof -
  have kind: "kind = AF_INET \<or> kind = AF_INET6" using a by (auto simp: addr_ok_def)
  have hit: "numeric hints kind kind a = ga_aistruct hints (Raw a) kind" using fam by (auto simp: numeric_def)
  have miss: "fam' \<noteq> kind \<Longrightarrow> numeric hints fam' kind a = ret EAI_NONE" for fam' using fam by (auto simp: numeric_def)
  have add: "finds (bnd (ga_aistruct hints (Raw a) kind) (\<lambda>rc. if rc \<noteq> EAI_NONE then ret rc else k)) s EAI_NONE
    (\<lambda>l. l = [entry_of hints kind a])" if "k = ret EAI_NONE" for k
    unfolding that by (rule finds_then [OF aistruct_plenty [OF mem a]]) (rule finds_ret, simp add: s)
  have loop: "search_loop env hostname hints n ((t, kind) # sps) =
      bnd (ga_aistruct hints (Raw a) kind) (\<lambda>rc. if rc \<noteq> EAI_NONE then ret rc else search_loop env hostname hints n sps)"
    "fam' \<noteq> kind \<Longrightarrow> search_loop env hostname hints n ((t, fam') # sps) = search_loop env hostname hints n sps" for sps fam'
    by (simp_all add: one hit miss bnd_ret)
  consider "ai_family hints = AF_UNSPEC" "kind = AF_INET" | "ai_family hints = AF_UNSPEC" "kind = AF_INET6"
    | "search_for t t (ai_family hints) = [(t, kind)]"
    using fam kind by auto
  then show ?thesis
  proof cases
    case 1
    then show ?thesis using add [of "search_loop env hostname hints n []"] loop by simp
  next
    case 2
    then show ?thesis using add [of "search_loop env hostname hints n [(t, AF_INET)]"] loop by simp
  next
    case 3
    then show ?thesis unfolding 3 loop(1) by (intro add) simp
  qed
qed

end
