(* ===== verification/Gai_Properties.thy ===== *)
theory Gai_Properties
  imports Gai_Spec
begin

text \<open>The properties of \<^verbatim>\<open>getaddrinfo\<close> and \<^verbatim>\<open>getnameinfo\<close>.\<close>

section \<open>An example\<close>

text \<open>A host with one address of each family, and a service for both protocols.\<close>

definition demo_host :: "family \<Rightarrow> hostent" where
  "demo_host fam = \<lparr>h_name = ''demo'', h_addrtype = fam, h_addr_list = [if fam = AF_INET then [192, 0, 2, 7] else replicate 15 0 @ [1]]\<rparr>"

definition demo_db :: netdb where
  "demo_db =
     \<lparr>gethostbyname = (\<lambda>_ _. Inl TRY_AGAIN),
      gethostbyname2 = (\<lambda>n f. if n = ''demo'' \<and> (f = AF_INET \<or> f = AF_INET6) then Some (demo_host f) else None),
      getservbyname = (\<lambda>n p. if n = ''daytime'' then Some (htons 13) else None),
      gethostbyaddr = (\<lambda>_ _. None), getservbyport = (\<lambda>_ _. None), nodename = None\<rparr>"

definition start :: "bool list \<Rightarrow> gai" where
  "start l = \<lparr>oks = l, live = 0, ais = [], canon = None, unlinked = []\<rparr>"

lemma demo_ok: "netdb_ok demo_db"
  by (auto simp: netdb_ok_def demo_db_def host_ok_def demo_host_def split: if_splits)

section \<open>Properties\<close>

text \<open>
  C12. With enough memory and no family asked for, \<^verbatim>\<open>getaddrinfo\<close> of a host name (no
  address text, no Unix domain name) and a service returns one entry for every address that
  the name service has, the IPv6 addresses first, combined with every port of the service:
  for each address first the stream and then the datagram entry, as the comment in
  \<^verbatim>\<open>ga_port.c\<close> promises. Without an address or without a port the result is an error and
  no entry.
\<close>

theorem getaddrinfo_lists_all:
  assumes "oks s = []" and "netdb_ok env" and "ai_family hints = AF_UNSPEC"
    and "\<not> flag_set (ai_flags hints) (NOT (AI_PASSIVE OR AI_CANONNAME))"
    and "host \<noteq> []" "inet_pton AF_INET host = (0, None)" "inet_pton AF_INET6 host = (0, None)"
    and "serv \<noteq> []" "\<not> unix_name (Some host) (Some serv)"
    and "isdigit (char0 serv) \<Longrightarrow> digits_val 0 (takeWhile isdigit serv) < 2147483648"
  shows "\<exists>res s'. getaddrinfo env (Some host) (Some serv) (Some hints) s =
      Inr ((final_rc (ai_socktype hints) (hosts env host AF_INET6 @ hosts env host AF_INET)
              (service_ports env (ai_socktype hints) serv), res), s') \<and>
    map view res = answers_for (service_ports env (ai_socktype hints) serv) (hosts env host AF_INET6 @ hosts env host AF_INET)"
proof (rule getaddrinfo_from)
  show "ga_nsearch (Some host) hints = ret [(host, AF_INET6), (host, AF_INET)]"
    using assms(3,5) by (simp add: ga_nsearch_def absent_def Let_def)
  show "\<forall>(f, a) \<in> set (hosts env host AF_INET6 @ hosts env host AF_INET). addr_ok f a"
    using hosts_ok [OF assms(2), of host AF_INET6] hosts_ok [OF assms(2), of host AF_INET] by auto
  show "finds (search_loop env (Some host) hints (length [(host, AF_INET6), (host, AF_INET)]) [(host, AF_INET6), (host, AF_INET)])
    (s\<lparr>ais := [], canon := None\<rparr>) EAI_NONE (\<lambda>l. l = map (\<lambda>(f, a). entry_of hints f a) (hosts env host AF_INET6 @ hosts env host AF_INET))"
    using search_loop_names [of "s\<lparr>ais := [], canon := None\<rparr>" env hints host "Some host"] assms(1-3,6,7) by (simp add: numeral_2_eq_2)
  show "ga_echeck (Some host) (Some serv) (ai_flags hints) (ai_family hints) (ai_socktype hints) = EAI_NONE"
    using assms(3-5) by (simp add: ga_echeck_def absent_def)
qed (use assms(1,8-10) in simp_all)

theorem getaddrinfo_lists_all_witness:
  "\<exists>res s'. getaddrinfo demo_db (Some ''demo'') (Some ''daytime'') (Some default_hints) (start []) = Inr ((EAI_NONE, res), s') \<and>
     map view res =
       [(AF_INET6, SOCK_STREAM, Some (Sin6 (htons 13) (replicate 15 0 @ [1]))), (AF_INET6, SOCK_DGRAM, Some (Sin6 (htons 13) (replicate 15 0 @ [1]))),
        (AF_INET, SOCK_STREAM, Some (Sin (htons 13) [192, 0, 2, 7])), (AF_INET, SOCK_DGRAM, Some (Sin (htons 13) [192, 0, 2, 7]))]"
proof -
  have p: "inet_pton AF_INET ''demo'' = (0, None)" "inet_pton AF_INET6 ''demo'' = (0, None)"
    using pton4_refuses [of "CHR ''d''" "''demo''"] pton6_refuses [of "''demo''"] by (simp_all add: digits_def)
  have d: "\<not> isdigit (char0 ''daytime'')" by (simp add: char0_def isdigit_def)
  have ports: "service_ports demo_db (ai_socktype default_hints) ''daytime'' = [(SOCK_STREAM, htons 13), (SOCK_DGRAM, htons 13)]"
    using d by (simp add: service_ports_def demo_db_def default_hints_def)
  have addrs: "hosts demo_db ''demo'' AF_INET6 @ hosts demo_db ''demo'' AF_INET = [(AF_INET6, replicate 15 0 @ [1]), (AF_INET, [192, 0, 2, 7])]"
    by (simp add: hosts_def demo_db_def demo_host_def)
  have "\<exists>res s'. getaddrinfo demo_db (Some ''demo'') (Some ''daytime'') (Some default_hints) (start []) =
      Inr ((final_rc (ai_socktype default_hints) (hosts demo_db ''demo'' AF_INET6 @ hosts demo_db ''demo'' AF_INET)
              (service_ports demo_db (ai_socktype default_hints) ''daytime''), res), s') \<and>
    map view res = answers_for (service_ports demo_db (ai_socktype default_hints) ''daytime'') (hosts demo_db ''demo'' AF_INET6 @ hosts demo_db ''demo'' AF_INET)"
    by (rule getaddrinfo_lists_all) (use p d in \<open>simp_all add: demo_ok start_def default_hints_def unix_name_def\<close>)
  then show ?thesis unfolding ports addrs by (simp add: final_rc_def answers_for_def sock_of_def)
qed

lemma htons_htons [simp]: "htons (htons w) = w"
  by (rule bit_word_eqI) (auto simp: htons_def bit_simps)

lemma port_text:
  assumes "6 \<le> servlen"
  shows "gn_serv env servlen port (NI_NUMERICHOST OR NI_NUMERICSERV) = dec (unat (htons port))"
    and "service_ports env st (dec (unat (htons port))) = (if st \<noteq> 0 then [(st, port)] else [(SOCK_STREAM, port), (SOCK_DGRAM, port)])"
    and "digits_val 0 (takeWhile isdigit (dec (unat (htons port)))) < 2147483648"
proof -
  have n: "unat (htons port) < 65536" using unsigned_less [of "htons port", where 'a = nat] by simp
  then have "unat (htons port) < 10 ^ Suc 4" by simp
  from length_dec_le [OF this] have "length (dec (unat (htons port))) \<le> 5" by simp
  then show "gn_serv env servlen port (NI_NUMERICHOST OR NI_NUMERICSERV) = dec (unat (htons port))"
    using assms by (simp add: gn_serv_def flag_set_def NI_NUMERICHOST_def NI_NUMERICSERV_def snprintf_s_def)
  have "char0 (dec m) \<in> set (dec m)" for m by (cases "dec m") (auto simp: char0_def)
  then have "isdigit (char0 (dec m))" for m using isdigit_dec by blast
  then show "service_ports env st (dec (unat (htons port))) = (if st \<noteq> 0 then [(st, port)] else [(SOCK_STREAM, port), (SOCK_DGRAM, port)])"
    by (simp add: service_ports_def Let_def)
  show "digits_val 0 (takeWhile isdigit (dec (unat (htons port)))) < 2147483648" using n by simp
qed

lemma quad_first: "isdigit (char0 (fmt_quad [a, b, c, d]))"
proof -
  have "char0 (dec m @ xs) \<in> set (dec m)" for m xs by (cases "dec m") (auto simp: char0_def)
  then show ?thesis using isdigit_dec unfolding fmt_quad_def append.simps by (metis append_assoc)
qed

text \<open>The numeric text of an address, and how \<^verbatim>\<open>getaddrinfo\<close> takes it.\<close>

lemma host_text:
  assumes "addr_ok kind a" and "46 \<le> hostlen"
  obtains t where "numeric_host kind a hostlen = Inr (Inr t)" and "t \<noteq> []" and "t \<noteq> ''/local''" "t \<noteq> ''/unix''"
    and "\<And>hostname hints nsearch fam. search_one env hostname hints nsearch (t, fam) = numeric hints fam kind a"
proof (cases "kind = AF_INET")
  case True
  then obtain w x y z where a: "a = [w, x, y, z]" using assms(1) by (auto simp: addr_ok_def numeral_eq_Suc length_Suc_conv)
  have p: "inet_pton AF_INET (fmt_quad a) = (1, Some a)" using pton4_quad [of w x y z] a by (simp add: pton_ret_def)
  have d: "isdigit (char0 (fmt_quad a))" using quad_first a by simp
  then have ne: "fmt_quad a \<noteq> []" "fmt_quad a \<noteq> ''/local''" "fmt_quad a \<noteq> ''/unix''" by (auto simp: char0_def isdigit_def)
  have "numeric_host kind a hostlen = Inr (Inr (fmt_quad a))"
    using True length_fmt_quad [of a] assms(2) by (simp add: numeric_host_def inet_ntop4_def Let_def)
  then show ?thesis using that ne search_one_inet [OF p d] True by blast
next
  case False
  then have k: "kind = AF_INET6" "length a = 16" using assms(1) by (auto simp: addr_ok_def)
  let ?t = "ntop6_text a"
  have p: "inet_pton AF_INET6 ?t = (1, Some a)" "inet_pton6 ?t = Some a" using pton6_ntop6_text [OF k(2)] by (simp_all add: pton_ret_def)
  have ne: "?t \<noteq> []" "?t \<noteq> ''/local''" "?t \<noteq> ''/unix''" using pton6_colon [OF p(2)] by auto
  have "numeric_host kind a hostlen = Inr (Inr ?t)"
    using k length_ntop6_text [OF k(2)] assms(2) by (simp add: numeric_host_def inet_ntop6_text)
  then show ?thesis using that ne search_one_inet6 [OF p(1)] k(1) by blast
qed

text \<open>
  C15. Numeric names are round trips: what \<^verbatim>\<open>getnameinfo\<close> writes for an IPv4 or IPv6
  socket address with the flags for numeric host and service, into buffers of at least 46
  and 6 bytes, \<^verbatim>\<open>getaddrinfo\<close> turns back into exactly that socket address, for every
  socket type and whether the caller gives its family or none. It rests on the round trips
  of \<^verbatim>\<open>inet_ntop\<close> and \<^verbatim>\<open>inet_pton\<close>.
\<close>

theorem numeric_names_round_trip:
  assumes "oks s = []" and "addr_ok kind a" and "ai_family hints = AF_UNSPEC \<or> ai_family hints = kind"
    and "\<not> flag_set (ai_flags hints) (NOT (AI_PASSIVE OR AI_CANONNAME))"
    and "ai_socktype hints \<in> {SOCK_STREAM, SOCK_DGRAM, SOCK_RAW}" and "46 \<le> hostlen" "6 \<le> servlen"
  shows "\<exists>host serv res s'. getnameinfo env (sock_of kind port a) hostlen servlen (NI_NUMERICHOST OR NI_NUMERICSERV) = Inr (0, Some host, Some serv) \<and>
    getaddrinfo env (Some host) (Some serv) (Some hints) s = Inr ((EAI_NONE, res), s') \<and>
    map view res = [(kind, ai_socktype hints, Some (sock_of kind port a))]"
proof -
  obtain t where t: "numeric_host kind a hostlen = Inr (Inr t)" "t \<noteq> []" "t \<noteq> ''/local''" "t \<noteq> ''/unix''"
    "\<And>hostname hints nsearch fam. search_one env hostname hints nsearch (t, fam) = numeric hints fam kind a"
    using host_text [OF assms(2,6), of env] by blast
  let ?serv = "dec (unat (htons port))"
  have st: "ai_socktype hints \<noteq> 0" using assms(5) by (auto simp: SOCK_STREAM_def SOCK_DGRAM_def SOCK_RAW_def)
  have name: "getnameinfo env (sock_of kind port a) hostlen servlen (NI_NUMERICHOST OR NI_NUMERICSERV) = Inr (0, Some t, Some ?serv)"
    using t(1) assms(2,6,7) port_text(1) [OF assms(7), of env port]
    by (auto simp: addr_ok_def sock_of_def gn_ipv46_def gn_host_def flag_set_def NI_NUMERICHOST_def NI_NUMERICSERV_def)
  have "\<exists>res s'. getaddrinfo env (Some t) (Some ?serv) (Some hints) s =
      Inr ((final_rc (ai_socktype hints) [(kind, a)] [(ai_socktype hints, port)], res), s') \<and>
    map view res = answers_for [(ai_socktype hints, port)] [(kind, a)]"
  proof (rule getaddrinfo_from [OF assms(1)])
    show "ga_nsearch (Some t) hints = ret (search_for t t (ai_family hints))"
      using t(2) assms(2,3) by (auto simp: ga_nsearch_def absent_def Let_def addr_ok_def)
    show "finds (search_loop env (Some t) hints (length (search_for t t (ai_family hints))) (search_for t t (ai_family hints)))
      (s\<lparr>ais := [], canon := None\<rparr>) EAI_NONE (\<lambda>l. l = map (\<lambda>(f, a). entry_of hints f a) [(kind, a)])"
      using search_loop_numeric [of "s\<lparr>ais := [], canon := None\<rparr>" kind a hints env "Some t" t] assms(1-3) t(5) by simp
    show "ga_echeck (Some t) (Some ?serv) (ai_flags hints) (ai_family hints) (ai_socktype hints) = EAI_NONE"
      using assms(2-5) t(2) by (auto simp: ga_echeck_def absent_def addr_ok_def)
  qed (use t assms(2) port_text [OF assms(7)] st in \<open>auto simp: unix_name_def\<close>)
  then show ?thesis using name by (auto simp: final_rc_def answers_for_def)
qed

theorem numeric_names_round_trip_witness:
  "\<exists>host serv res s'. getnameinfo demo_db (Sin (htons 8080) [192, 0, 2, 7]) 46 6 (NI_NUMERICHOST OR NI_NUMERICSERV) = Inr (0, Some host, Some serv) \<and>
    getaddrinfo demo_db (Some host) (Some serv) (Some (default_hints\<lparr>ai_socktype := SOCK_STREAM\<rparr>)) (start []) = Inr ((EAI_NONE, res), s') \<and>
    map view res = [(AF_INET, SOCK_STREAM, Some (Sin (htons 8080) [192, 0, 2, 7]))]"
  using numeric_names_round_trip [of "start []" AF_INET "[192, 0, 2, 7]" "default_hints\<lparr>ai_socktype := SOCK_STREAM\<rparr>" 46 6 demo_db "htons 8080"]
  by (simp add: start_def addr_ok_def default_hints_def sock_of_def)

text \<open>
  C27. Whatever allocations fail and whatever the name service answers (addresses of the two
  families in their lengths), a call of \<^verbatim>\<open>getaddrinfo\<close> that returns 0 returns at least one
  entry, all of them with a socket address of their family and its length, and has allocated
  exactly what \<^verbatim>\<open>freeaddrinfo\<close> will free. A call that fails has freed all it allocated,
  except that it may lose the string with the canonical name, which is saved before the
  entries are made and not freed at the label \<^verbatim>\<open>bad\<close>. (Unix domain names are not part of
  this: there \<^verbatim>\<open>ga_unix\<close> returns from its failures without freeing anything.)
\<close>

theorem getaddrinfo_frees:
  assumes "getaddrinfo env hostname servname hintsp s = Inr ((rc, res), s')" and "netdb_ok env" and "\<not> unix_name hostname servname"
  shows "if rc = EAI_NONE then res \<noteq> [] \<and> list_all ai_ok res \<and> live (freeaddrinfo res s') = live s
    else res = [] \<and> (live s' = live s \<or>
      \<not> absent hostname \<and> (\<exists>h. hintsp = Some h \<and> flag_set (ai_flags h) AI_CANONNAME) \<and> live s' = live s + 1)"
  using getaddrinfo_memory [OF assms]
  by (auto simp: freeaddrinfo_def cost_def wants_canon_def default_hints_def split: if_splits option.splits)

lemma galloc_apply:
  "galloc s = (case oks s of [] \<Rightarrow> Inr (True, s\<lparr>live := live s + 1\<rparr>)
     | ok # rest \<Rightarrow> Inr (ok, s\<lparr>oks := rest, live := live s + (if ok then 1 else 0)\<rparr>))"
  by (simp add: galloc_def)

lemma aistruct_runs_out:
  "oks s = [True, False] \<Longrightarrow> addr_ok AF_INET6 a \<Longrightarrow> ga_aistruct hints (Raw a) AF_INET6 s =
    Inr (EAI_MEMORY, s\<lparr>oks := [], live := live s + 1, ais := ais s @ [new_ai hints AF_INET6]\<rparr>)"
  by (simp add: ga_aistruct_def set_addr_def thn_def bnd_def galloc_apply addr_ok_def)

text \<open>The allocations of the name and of the first entry succeed, the next one fails: the name is lost.\<close>

theorem getaddrinfo_frees_witness:
  "\<exists>rc res s'. getaddrinfo demo_db (Some ''demo'') None (Some (default_hints\<lparr>ai_flags := AI_CANONNAME\<rparr>)) (start [True, True, False]) =
      Inr ((rc, res), s') \<and> rc = EAI_MEMORY \<and> res = [] \<and> (live s' = 0 \<or> live s' = 1) \<and> live s' \<noteq> 0"
proof -
  let ?hints = "default_hints\<lparr>ai_flags := AI_CANONNAME\<rparr>"
  have p: "inet_pton AF_INET ''demo'' = (0, None)" "inet_pton AF_INET6 ''demo'' = (0, None)"
    using pton4_refuses [of "CHR ''d''" "''demo''"] pton6_refuses [of "''demo''"] by (simp_all add: digits_def)
  have one: "search_one demo_db (Some ''demo'') ?hints 2 (''demo'', AF_INET6) = search_name demo_db (Some ''demo'') ?hints 2 ''demo'' AF_INET6"
    using p by (rule search_one_name)
  have fl: "flag_set AI_CANONNAME AI_CANONNAME" by (simp add: flag_set_def AI_CANONNAME_def)
  obtain s' where r: "search_name demo_db (Some ''demo'') ?hints 2 ''demo'' AF_INET6 (start [True, True, False]) = Inr (EAI_MEMORY, s')"
    and s': "live s' = 2" "ais s' = [new_ai ?hints AF_INET6]"
    using fl by (simp add: search_name_def lookup_def demo_db_def demo_host_def save_canon_def absent_def default_hints_def start_def
        cm_simps galloc_apply aistruct_runs_out addr_ok_def)
  have g: "ga_nsearch (Some ''demo'') ?hints (start [True, True, False]) = Inr ([(''demo'', AF_INET6), (''demo'', AF_INET)], start [True, True, False])"
    by (simp add: ga_nsearch_def absent_def default_hints_def Let_def)
  have st: "(start l)\<lparr>ais := [], canon := None\<rparr> = start l" for l by (simp add: start_def)
  have "search_loop demo_db (Some ''demo'') ?hints 2 [(''demo'', AF_INET6), (''demo'', AF_INET)] (start [True, True, False]) = Inr (EAI_MEMORY, s')"
    by (simp add: cm_simps one r)
  then have i: "ga_inet demo_db (Some ''demo'') None ?hints (start [True, True, False]) = Inr (EAI_MEMORY, s')"
    by (simp add: ga_inet_def cm_simps g numeral_2_eq_2 del: search_loop.simps)
  have "\<not> flag_set AI_CANONNAME (NOT (AI_PASSIVE OR AI_CANONNAME))"
    by (simp add: flag_set_def AI_CANONNAME_def AI_PASSIVE_def)
  then have "getaddrinfo demo_db (Some ''demo'') None (Some ?hints) (start [True, True, False]) =
      Inr ((EAI_MEMORY, []), freeaddrinfo (ais s') s')"
    using i by (simp add: getaddrinfo_def Let_def ga_echeck_def absent_def unix_name_def default_hints_def cm_simps st)
  moreover have "live (freeaddrinfo (ais s') s') = 1" using s' by (simp add: freeaddrinfo_def ai_cost_def new_ai_def)
  ultimately show ?thesis using getaddrinfo_frees [OF _ demo_ok, of "Some ''demo''" None "Some ?hints" "start [True, True, False]"]
    by (auto simp: unix_name_def start_def)
qed

text \<open>
  A caller that asks for Unix domain sockets with a name other than the two special ones is
  ended: the family passes the check, and \<^verbatim>\<open>ga_nsearch\<close> has no search for it.
\<close>

lemma local_family_quits:
  assumes "ai_family hints = AF_LOCAL" and "\<not> flag_set (ai_flags hints) (NOT (AI_PASSIVE OR AI_CANONNAME))"
    and "ai_socktype hints \<in> {0, SOCK_STREAM, SOCK_DGRAM}" and "\<not> (absent hostname \<and> absent servname)" and "\<not> unix_name hostname servname"
  shows "getaddrinfo env hostname servname (Some hints) s = Inl (Quits ''nsearch'')"
  using assms by (auto simp: getaddrinfo_def ga_echeck_def Let_def ga_inet_def ga_nsearch_def thn_def bnd_def)

end
