(* ===== verification/Gai_Old.thy ===== *)
theory Gai_Old
  imports Gai_Spec
begin

text \<open>
  The older \<^verbatim>\<open>getaddrinfo\<close> in one file, \<^verbatim>\<open>unpv13e/libfree/getaddrinfo.c\<close>, compiled with
  \<^verbatim>\<open>IPV4\<close>, \<^verbatim>\<open>IPV6\<close> and \<^verbatim>\<open>LOCAL\<close> and without \<^verbatim>\<open>REENTRANT\<close>. Its
  \<^verbatim>\<open>getaddrinfo_port\<close> and \<^verbatim>\<open>getaddrinfo_clone\<close> are line by line those of \<^verbatim>\<open>libgai\<close>.
  The pointer \<^verbatim>\<open>aihead\<close> has no value before the list is built, and the label \<^verbatim>\<open>bad\<close>
  frees what it points to: a failure before that point is undefined. The resolver's option
  \<^verbatim>\<open>RES_USE_INET6\<close> outlives a call; its value is an argument and a part of the result. Of
  \<^verbatim>\<open>gethostbyname\<close> it is known that the name it returns is no null pointer, so that
  \<^verbatim>\<open>strdup (host)\<close> is never reached. The field \<open>canon\<close> of the state is not used.
\<close>

section \<open>Definitions\<close>

definition getaddrinfo_clone :: "addrinfo \<Rightarrow> (bool \<times> addrinfo list) gam" where
  "getaddrinfo_clone = ga_clone"

definition getaddrinfo_port :: "16 word \<Rightarrow> int \<Rightarrow> nat option gam" where
  "getaddrinfo_port = ga_port"

text \<open>The checks of flags, family and socket type.\<close>

definition old_check :: "addrinfo \<Rightarrow> eai" where
  "old_check hints =
     (let st = ai_socktype hints in
      if flag_set (ai_flags hints) (NOT (AI_PASSIVE OR AI_CANONNAME)) then EAI_BADFLAGS
      else case ai_family hints of
        AF_INET \<Rightarrow> if st \<noteq> 0 \<and> st \<noteq> SOCK_STREAM \<and> st \<noteq> SOCK_DGRAM \<and> st \<noteq> SOCK_RAW then EAI_SOCKTYPE else EAI_NONE
      | AF_INET6 \<Rightarrow> if st \<noteq> 0 \<and> st \<noteq> SOCK_STREAM \<and> st \<noteq> SOCK_DGRAM \<and> st \<noteq> SOCK_RAW then EAI_SOCKTYPE else EAI_NONE
      | AF_OTHER n \<Rightarrow>
          if n = 0 then EAI_NONE
          else if n = 1 then if st \<noteq> 0 \<and> st \<noteq> SOCK_STREAM \<and> st \<noteq> SOCK_DGRAM then EAI_SOCKTYPE else EAI_NONE
          else EAI_FAMILY)"

text \<open>The pointer to the host's name and the family that the lookup uses, or an error.\<close>

definition old_host :: "string option \<Rightarrow> string option \<Rightarrow> addrinfo \<Rightarrow> eai + string option \<times> family" where
  "old_host host serv hints =
     (if absent host
      then if absent serv then Inl EAI_NONAME
           else if flag_set (ai_flags hints) AI_PASSIVE
           then (case ai_family hints of
                   AF_INET \<Rightarrow> Inr (Some ''0.0.0.0'', AF_INET)
                 | AF_INET6 \<Rightarrow> Inr (Some ''0::0'', AF_INET6)
                 | AF_OTHER n \<Rightarrow>
                     if n = 1 then if char0 (the serv) \<noteq> CHR ''/'' then Inl EAI_ADDRFAMILY else Inr (host, AF_OTHER n)
                     else if n = 0 then Inl EAI_ADDRFAMILY else Inr (host, AF_OTHER n))
           else Inr (Some ''localhost'', ai_family hints)
      else if ai_family hints = AF_UNSPEC
      then Inr (host,
             if snd (inet_pton AF_INET6 (the host)) \<noteq> None then AF_INET6
             else if snd (inet_pton AF_INET (the host)) \<noteq> None then AF_INET else AF_UNSPEC)
      else Inr (host, ai_family hints))"

text \<open>
  \<^verbatim>\<open>addrinfo_local\<close>: the value returned, and what is stored through \<^verbatim>\<open>result\<close>, if
  anything. The null pointer that it returns when its first allocation fails is 0, success.
\<close>

definition local_ai :: "string \<Rightarrow> addrinfo \<Rightarrow> addrinfo" where
  "local_ai path hints =
     \<lparr>ai_flags = 0, ai_family = AF_LOCAL, ai_socktype = ai_socktype hints, ai_protocol = 0, ai_addrlen = 110,
      ai_canonname = None, ai_addr = Some (Sun (take 108 path))\<rparr>"

definition addrinfo_local :: "string \<Rightarrow> addrinfo \<Rightarrow> (eai \<times> addrinfo list option) gam" where
  "addrinfo_local path hints =
     (if ai_socktype hints = 0 then ret (EAI_SOCKTYPE, None)
      else
      bnd galloc (\<lambda>ok.
      if \<not> ok then ret (EAI_NONE, None) else
      bnd galloc (\<lambda>ok.
      if \<not> ok then ret (EAI_MEMORY, None)
      else if flag_set (ai_flags hints) AI_PASSIVE
      then thn (modify (\<lambda>s. s\<lparr>unlinked := unlinked s @ [path]\<rparr>)) (ret (EAI_NONE, Some [local_ai path hints]))
      else ret (EAI_NONE, Some [local_ai path hints]))))"

text \<open>
  \<^verbatim>\<open>getaddrinfo_host\<close>. An address text becomes a \<^verbatim>\<open>hostent\<close> with room for 8191 characters
  of the name. The first part of the result is the resolver's option afterwards: it is set
  for IPv6 and not cleared for IPv4.
\<close>

definition made_up :: "string \<Rightarrow> family \<Rightarrow> 8 word list \<Rightarrow> hostent" where
  "made_up host fam a = \<lparr>h_name = take 8191 host, h_addrtype = fam, h_addr_list = [a]\<rparr>"

definition getaddrinfo_host :: "netdb \<Rightarrow> bool \<Rightarrow> string \<Rightarrow> family \<Rightarrow> bool \<times> (eai + hostent)" where
  "getaddrinfo_host env inet6 host fam =
     (case (if isdigit (char0 host) then inet_pton AF_INET host else (0, None)) of
        (_, Some a) \<Rightarrow> (inet6, Inr (made_up host AF_INET a))
      | _ \<Rightarrow>
      (case (if isxdigit (char0 host) \<or> char0 host = CHR '':'' then inet_pton AF_INET6 host else (0, None)) of
         (_, Some a) \<Rightarrow> (inet6, Inr (made_up host AF_INET6 a))
       | _ \<Rightarrow>
         let inet6 = (inet6 \<or> fam = AF_INET6)
         in (inet6, case gethostbyname env inet6 host of Inl e \<Rightarrow> Inl (h_error e) | Inr h \<Rightarrow> Inr h)))"

definition old_udp :: "netdb \<Rightarrow> addrinfo \<Rightarrow> string \<Rightarrow> nat \<Rightarrow> eai gam" where
  "old_udp env hints serv nfound =
     (if ai_socktype hints = 0 \<or> ai_socktype hints = SOCK_DGRAM
      then case getservbyname env serv ''udp'' of
             Some port \<Rightarrow> add_found (getaddrinfo_port port SOCK_DGRAM) (serv_end hints) nfound
           | None \<Rightarrow> serv_end hints nfound
      else serv_end hints nfound)"

definition getaddrinfo_serv :: "netdb \<Rightarrow> addrinfo \<Rightarrow> string \<Rightarrow> eai gam" where
  "getaddrinfo_serv env hints serv =
     (if isdigit (char0 serv) \<and> ai_socktype hints \<noteq> 0
      then bnd (atoi_port serv) (\<lambda>port.
           add_found (getaddrinfo_port port (ai_socktype hints)) (\<lambda>n. ret (if n = 0 then EAI_NONAME else EAI_NONE)) 0)
      else if ai_socktype hints = 0 \<or> ai_socktype hints = SOCK_STREAM
      then case getservbyname env serv ''tcp'' of
             Some port \<Rightarrow> add_found (getaddrinfo_port port SOCK_STREAM) (old_udp env hints serv) 0
           | None \<Rightarrow> old_udp env hints serv 0
      else old_udp env hints serv 0)"

text \<open>The loop over the addresses; an address of another family gets no socket address.\<close>

fun old_fill :: "family \<Rightarrow> 8 word list \<Rightarrow> eai gam" where
  "old_fill AF_INET bs = (if length bs < 4 then fail_with (Undef ''sin_addr'') else set_addr (Sin 0 (take 4 bs)) 16)"
| "old_fill AF_INET6 bs = (if length bs < 16 then fail_with (Undef ''sin6_addr'') else set_addr (Sin6 0 (take 16 bs)) 28)"
| "old_fill (AF_OTHER n) bs = ret EAI_NONE"

fun old_loop :: "addrinfo \<Rightarrow> family \<Rightarrow> 8 word list list \<Rightarrow> eai gam" where
  "old_loop hints fam [] = ret EAI_NONE"
| "old_loop hints fam (a # as) =
     bnd galloc (\<lambda>ok.
     if \<not> ok then ret EAI_MEMORY
     else thn (modify (\<lambda>s. s\<lparr>ais := ais s @ [new_ai hints fam]\<rparr>)) (
     bnd (old_fill fam a) (\<lambda>rc. if rc \<noteq> EAI_NONE then ret rc else old_loop hints fam as)))"

text \<open>The canonical name goes into the first entry, through a null pointer if there is none.\<close>

definition old_canon :: "addrinfo \<Rightarrow> string \<Rightarrow> eai gam" where
  "old_canon hints name =
     (if flag_set (ai_flags hints) AI_CANONNAME
      then bnd galloc (\<lambda>ok.
           bnd (gets ais) (\<lambda>l.
           if l = [] then fail_with (Undef ''ai_canonname'')
           else if \<not> ok then ret EAI_MEMORY
           else thn (modify (\<lambda>s. s\<lparr>ais := (hd l)\<lparr>ai_canonname := Some name\<rparr> # tl l\<rparr>)) (ret EAI_NONE)))
      else ret EAI_NONE)"

text \<open>From the point on where \<^verbatim>\<open>aihead\<close> has a value.\<close>

definition old_build :: "netdb \<Rightarrow> string option \<Rightarrow> addrinfo \<Rightarrow> hostent \<Rightarrow> eai gam" where
  "old_build env serv hints h =
     bnd (old_loop hints (h_addrtype h) (h_addr_list h)) (\<lambda>rc.
     if rc \<noteq> EAI_NONE then ret rc else
     bnd (old_canon hints (h_name h)) (\<lambda>rc.
     if rc \<noteq> EAI_NONE then ret rc
     else if absent serv then ret EAI_NONE else getaddrinfo_serv env hints (the serv)))"

definition is_path :: "string option \<Rightarrow> bool" where
  "is_path p \<longleftrightarrow> (\<exists>x \<in> set_option p. char0 x = CHR ''/'')"

text \<open>The result is the resolver's option, the value returned and what is stored through \<^verbatim>\<open>result\<close>.\<close>

definition old_getaddrinfo ::
  "netdb \<Rightarrow> bool \<Rightarrow> string option \<Rightarrow> string option \<Rightarrow> addrinfo option \<Rightarrow> (bool \<times> eai \<times> addrinfo list option) gam" where
  "old_getaddrinfo env inet6 host serv hintsp =
     (let hints = (case hintsp of None \<Rightarrow> default_hints | Some h \<Rightarrow> h) in
      if old_check hints \<noteq> EAI_NONE then fail_with (Undef ''aihead'')
      else case old_host host serv hints of
        Inl e \<Rightarrow> fail_with (Undef ''aihead'')
      | Inr (host, fam) \<Rightarrow>
      let hints = hints\<lparr>ai_family := fam\<rparr> in
      if is_path host then bnd (addrinfo_local (the host) hints) (\<lambda>r. ret (inet6, r))
      else if is_path serv then bnd (addrinfo_local (the serv) hints) (\<lambda>r. ret (inet6, r))
      else case getaddrinfo_host env inet6 (the host) fam of
        (inet6, Inl e) \<Rightarrow> fail_with (Undef ''aihead'')
      | (inet6, Inr h) \<Rightarrow>
      if fam \<noteq> AF_UNSPEC \<and> fam \<noteq> h_addrtype h then fail_with (Undef ''aihead'')
      else
      thn (modify (\<lambda>s. s\<lparr>ais := [], canon := None\<rparr>)) (
      bnd (old_build env serv hints h) (\<lambda>rc.
      bnd (gets ais) (\<lambda>l.
      if rc = EAI_NONE then ret (inet6, rc, Some l)
      else thn (modify (freeaddrinfo l)) (ret (inet6, rc, None))))))"

section \<open>What a call returns\<close>
























section \<open>Properties\<close>






text \<open>Arguments that the checks refuse make the call undefined.\<close>

lemma old_bad_arguments:
  "old_check hints \<noteq> EAI_NONE \<Longrightarrow> old_getaddrinfo env inet6 host serv (Some hints) s = Inl (Undef ''aihead'')"
  by (simp add: old_getaddrinfo_def)

text \<open>
  The resolver's option sticks. The lookup of one IPv6 name sets it, and from then on a
  resolver that answers it with IPv6 addresses makes every call for an IPv4 name undefined.
\<close>

lemma inet6_option_sticks:
  assumes "inet_pton AF_INET name = (0, None)" "inet_pton AF_INET6 name = (0, None)" and "name \<noteq> []" "\<not> is_path (Some name)" "\<not> is_path serv"
    and "old_check hints = EAI_NONE" "ai_family hints = AF_INET"
    and "\<And>h. gethostbyname env True name = Inr h \<Longrightarrow> h_addrtype h = AF_INET6"
  shows "fst (getaddrinfo_host env inet6 name AF_INET6)"
    and "old_getaddrinfo env True (Some name) serv (Some hints) s = Inl (Undef ''aihead'')"
proof -
  have h: "getaddrinfo_host env i name fam =
      (i \<or> fam = AF_INET6, case gethostbyname env (i \<or> fam = AF_INET6) name of Inl e \<Rightarrow> Inl (h_error e) | Inr h \<Rightarrow> Inr h)" for i fam
    using assms(1,2) by (simp add: getaddrinfo_host_def Let_def)
  show "fst (getaddrinfo_host env inet6 name AF_INET6)" by (simp add: h)
  show "old_getaddrinfo env True (Some name) serv (Some hints) s = Inl (Undef ''aihead'')"
    using assms(3-8) by (auto simp: old_getaddrinfo_def old_host_def absent_def h split: sum.splits)
qed

end
