(* ===== verification/Opend.thy ===== *)
theory Opend
  imports C_Prelude
begin

text \<open>
  The open server \<^verbatim>\<open>apue.3e/ipc2/opend\<close> with both of its loops, its client
  \<^verbatim>\<open>ipc2/open/open.c\<close>, and the library functions they share: \<^verbatim>\<open>buf_args\<close>,
  \<^verbatim>\<open>send_fd\<close>, \<^verbatim>\<open>send_err\<close> and \<^verbatim>\<open>recv_fd\<close>. The globals of the server are a record;
  what it sends and closes is collected there. A list tells which of the calls that may fail
  (allocations, \<^verbatim>\<open>sendmsg\<close>, \<^verbatim>\<open>writen\<close>, \<^verbatim>\<open>select\<close>, \<^verbatim>\<open>poll\<close>) do.
\<close>

section \<open>The globals\<close>

text \<open>An entry of \<^verbatim>\<open>client[]\<close>; new memory holds no user number yet.\<close>

record client =
  cfd :: int
  cuid :: "32 word option"

text \<open>A message on a connection: bytes, and a descriptor that is passed along.\<close>

type_synonym message = "char list \<times> int option"

text \<open>
  \<^verbatim>\<open>client\<close> is a null pointer exactly if the array has no entries. \<open>fails\<close> has an
  element for each call: \<open>None\<close> for success, or the number of bytes that still get out.
\<close>

record opend =
  fails :: "nat option list"
  errmsg :: string
  pathname :: string
  oflag :: int
  clients :: "client list"
  outs :: "(int \<times> message) list"
  closed :: "int list"

text \<open>The process ends with a message, or its behaviour is undefined.\<close>

datatype opend_stop = Ends string | Undefined string

type_synonym 'a om = "(opend, opend_stop, 'a) cm"

definition sys :: "nat option om" where
  "sys = (\<lambda>s. case fails s of [] \<Rightarrow> Inr (None, s) | r # rs \<Rightarrow> Inr (r, s\<lparr>fails := rs\<rparr>))"

section \<open>Passing a descriptor\<close>

definition fd_message :: "int \<Rightarrow> message" where
  "fd_message fd_to_send =
     (if fd_to_send < 0
      then let c = char_of (nat ((- fd_to_send) mod 256)) in ([NUL, if c = NUL then CHR 0x01 else c], None)
      else ([NUL, NUL], Some fd_to_send))"

definition send_fd :: "int \<Rightarrow> int \<Rightarrow> int om" where
  "send_fd fd fd_to_send =
     bnd sys (\<lambda>r.
     if r \<noteq> None then ret (-1)
     else thn (modify (\<lambda>s. s\<lparr>outs := outs s @ [(fd, fd_message fd_to_send)]\<rparr>)) (ret 0))"

definition send_err :: "int \<Rightarrow> int \<Rightarrow> string \<Rightarrow> int om" where
  "send_err fd errcode msg =
     (let code = (if errcode \<ge> 0 then -1 else errcode) in
      if msg = [] then send_fd fd code
      else bnd sys (\<lambda>r.
        case r of
          Some k \<Rightarrow> thn (modify (\<lambda>s. s\<lparr>outs := outs s @ [(fd, take k msg, None)]\<rparr>)) (ret (-1))
        | None \<Rightarrow> thn (modify (\<lambda>s. s\<lparr>outs := outs s @ [(fd, msg, None)]\<rparr>)) (send_fd fd code)))"

text \<open>
  \<^verbatim>\<open>recv_fd\<close>: what \<^verbatim>\<open>recvmsg\<close> returns call after call, an empty message at the end of
  the connection. \<open>userfunc\<close> tells whether all of a text is written; the texts passed to
  it are the second part of the result. The status byte is unsigned.
\<close>

datatype received = Failed | Received message

fun first_null :: "char list \<Rightarrow> nat option" where
  "first_null [] = None"
| "first_null (c # cs) = (if c = NUL then Some 0 else map_option Suc (first_null cs))"

fun recv_fd :: "(char list \<Rightarrow> bool) \<Rightarrow> received list \<Rightarrow> (opend_stop + int) \<times> char list list" where
  "recv_fd userfunc [] = (Inr (-1), [])"
| "recv_fd userfunc (Failed # ms) = (Inr (-1), [])"
| "recv_fd userfunc (Received (buf, ctl) # ms) =
     (if buf = [] then (Inr (-1), [])
      else case first_null buf of
        None \<Rightarrow>
          if \<not> userfunc buf then (Inr (-1), [buf])
          else (case recv_fd userfunc ms of (r, ts) \<Rightarrow> (r, buf # ts))
      | Some k \<Rightarrow>
          if k + 2 \<noteq> length buf then (Inl (Ends ''message format error''), [])
          else
          let status = of_char (buf ! (k + 1)) :: int;
              txt = take k buf;
              done = (\<lambda>newfd. if txt \<noteq> [] then (if userfunc txt then Inr newfd else Inr (-1), [txt]) else (Inr newfd, []))
          in if status = 0
             then (case ctl of None \<Rightarrow> (Inl (Ends ''status = 0 but no fd''), []) | Some newfd \<Rightarrow> done newfd)
             else done (- status))"

section \<open>The request\<close>

definition MAXARGC :: nat where "MAXARGC = 50"

definition white :: "char \<Rightarrow> bool" where
  "white c \<longleftrightarrow> c = CHR '' '' \<or> c = CHR 0x09 \<or> c = NEWLINE"

text \<open>What \<^verbatim>\<open>strtok\<close> returns call after call.\<close>

function strtoks :: "string \<Rightarrow> string list" where
  "strtoks s =
     (let t = dropWhile white s
      in if t = [] then [] else takeWhile (\<lambda>c. \<not> white c) t # strtoks (dropWhile (\<lambda>c. \<not> white c) t))"
  by pat_completeness auto
termination
proof (relation "measure length")
  fix s t :: string
  assume t: "t = dropWhile white s" "t \<noteq> []"
  then have "\<not> white (hd t)" using hd_dropWhile [of white s] by simp
  then have "length (dropWhile (\<lambda>c. \<not> white c) t) < length t"
    using t(2) by (cases t) (auto simp: le_imp_less_Suc length_dropWhile_le)
  also have "length t \<le> length s" by (simp add: t(1) length_dropWhile_le)
  finally show "(dropWhile (\<lambda>c. \<not> white c) t, s) \<in> measure length" by simp
qed simp

declare strtoks.simps [simp del]

text \<open>The first argument is the buffer itself, with any white space in front.\<close>

definition buf_args :: "string \<Rightarrow> (string list \<Rightarrow> int om) \<Rightarrow> int om" where
  "buf_args buf optfunc =
     (case strtoks buf of
        [] \<Rightarrow> ret (-1)
      | t # ts \<Rightarrow> if length ts \<ge> MAXARGC - 1 then ret (-1) else optfunc ((takeWhile white buf @ t) # ts))"

definition CL_OPEN :: string where "CL_OPEN = ''open''"

text \<open>\<^verbatim>\<open>atoi\<close> of a number that is no \<^verbatim>\<open>int\<close> is undefined.\<close>

definition atoi :: "string \<Rightarrow> int om" where
  "atoi t = (let v = atol t in if - (2 ^ 31) \<le> v \<and> v < 2 ^ 31 then ret v else fail_with (Undefined ''atoi''))"

definition cli_args :: "string list \<Rightarrow> int om" where
  "cli_args argv =
     (if length argv \<noteq> 3 \<or> argv ! 0 \<noteq> CL_OPEN
      then thn (modify (\<lambda>s. s\<lparr>errmsg := ''usage: <pathname> <oflag>'' @ [NEWLINE]\<rparr>)) (ret (-1))
      else thn (modify (\<lambda>s. s\<lparr>pathname := argv ! 1\<rparr>)) (
           bnd (atoi (argv ! 2)) (\<lambda>v. thn (modify (\<lambda>s. s\<lparr>oflag := v\<rparr>)) (ret 0))))"

text \<open>\<^verbatim>\<open>snprintf (errmsg, MAXLINE-1, ...)\<close> of a text.\<close>

definition set_errmsg :: "string \<Rightarrow> unit om" where
  "set_errmsg t = modify (\<lambda>s. s\<lparr>errmsg := take (MAXLINE - 2) t\<rparr>)"

text \<open>
  \<^verbatim>\<open>log_msg (errmsg)\<close> takes the message for a format: with a conversion that needs an
  argument it is undefined.
\<close>

fun no_args :: "string \<Rightarrow> bool" where
  "no_args [] \<longleftrightarrow> True"
| "no_args [c] \<longleftrightarrow> c \<noteq> CHR ''%''"
| "no_args (c # d # cs) \<longleftrightarrow> (if c = CHR ''%'' then (d = CHR ''%'' \<or> d = CHR ''m'') \<and> no_args cs else no_args (d # cs))"

definition log_errmsg :: "unit om" where
  "log_errmsg = bnd (gets errmsg) (\<lambda>m. if no_args m then ret () else fail_with (Undefined ''log_msg''))"

text \<open>
  \<^verbatim>\<open>handle_request\<close>, for the \<^verbatim>\<open>nread\<close> bytes \<open>buf\<close>. The argument \<open>openf\<close> is the
  system call \<^verbatim>\<open>open\<close>: a descriptor, or the text of the error.
\<close>

definition not_terminated :: "32 word \<Rightarrow> char list \<Rightarrow> string" where
  "not_terminated uid buf =
     ''request from uid '' @ sdec (sint uid) @ '' not null terminated: '' @ pad (length buf) (cstr buf) @ [NEWLINE]"

definition cannot_open :: "string \<Rightarrow> string \<Rightarrow> string" where
  "cannot_open path e = ''can't open '' @ path @ '': '' @ e @ [NEWLINE]"

definition refuse :: "int \<Rightarrow> unit om" where
  "refuse clifd = bnd (gets errmsg) (\<lambda>m. thn (send_err clifd (-1) m) (ret ()))"

definition handle_request :: "(string \<Rightarrow> int \<Rightarrow> string + int) \<Rightarrow> char list \<Rightarrow> int \<Rightarrow> 32 word \<Rightarrow> unit om" where
  "handle_request openf buf clifd uid =
     (if buf = [] then fail_with (Undefined ''buf[nread-1]'')
      else if last buf \<noteq> NUL then thn (set_errmsg (not_terminated uid buf)) (refuse clifd)
      else
      bnd (buf_args (cstr buf) cli_args) (\<lambda>rc.
      if rc < 0 then thn (refuse clifd) log_errmsg
      else
      bnd (gets pathname) (\<lambda>path. bnd (gets oflag) (\<lambda>fl.
      case openf path fl of
        Inl e \<Rightarrow> thn (set_errmsg (cannot_open path e)) (thn (refuse clifd) log_errmsg)
      | Inr newfd \<Rightarrow>
          bnd (send_fd clifd newfd) (\<lambda>rc.
          if rc < 0 then fail_with (Ends ''send_fd error'')
          else modify (\<lambda>s. s\<lparr>closed := closed s @ [newfd]\<rparr>))))))"

section \<open>The client array\<close>

definition NALLOC :: nat where "NALLOC = 10"

definition client_alloc :: "unit om" where
  "client_alloc =
     bnd sys (\<lambda>r.
     if r \<noteq> None then fail_with (Ends ''can't alloc for client array'')
     else modify (\<lambda>s. s\<lparr>clients := clients s @ replicate NALLOC \<lparr>cfd = -1, cuid = None\<rparr>\<rparr>))"

text \<open>The search in \<^verbatim>\<open>client_add\<close> and \<^verbatim>\<open>client_del\<close>.\<close>

fun find_client :: "int \<Rightarrow> client list \<Rightarrow> nat option" where
  "find_client fd [] = None"
| "find_client fd (c # cs) = (if cfd c = fd then Some 0 else map_option Suc (find_client fd cs))"

text \<open>From the label \<^verbatim>\<open>again\<close> on; the fuel 2 is enough, as the second search succeeds.\<close>

primrec again :: "nat \<Rightarrow> int \<Rightarrow> 32 word \<Rightarrow> nat om" where
  "again 0 fd uid = fail_with (Undefined ''again'')"
| "again (Suc n) fd uid =
     bnd (gets clients) (\<lambda>cs.
     case find_client (-1) cs of
       Some i \<Rightarrow> thn (modify (\<lambda>s. s\<lparr>clients := cs[i := \<lparr>cfd = fd, cuid = Some uid\<rparr>]\<rparr>)) (ret i)
     | None \<Rightarrow> thn client_alloc (again n fd uid))"

definition client_add :: "int \<Rightarrow> 32 word \<Rightarrow> nat om" where
  "client_add fd uid =
     bnd (gets clients) (\<lambda>cs. thn (if cs = [] then client_alloc else ret ()) (again 2 fd uid))"

definition client_del :: "int \<Rightarrow> unit om" where
  "client_del fd =
     bnd (gets clients) (\<lambda>cs.
     case find_client fd cs of
       Some i \<Rightarrow> modify (\<lambda>s. s\<lparr>clients := cs[i := (cs ! i)\<lparr>cfd := -1\<rparr>]\<rparr>)
     | None \<Rightarrow> fail_with (Ends ''can't find client entry''))"

text \<open>Reading the user number of an entry.\<close>

definition uid_at :: "nat \<Rightarrow> (32 word) om" where
  "uid_at i =
     bnd (gets clients) (\<lambda>cs.
     if i < length cs then (case cuid (cs ! i) of Some u \<Rightarrow> ret u | None \<Rightarrow> fail_with (Undefined ''uid''))
     else fail_with (Undefined ''client[]''))"

section \<open>The loops\<close>

text \<open>
  What the kernel does in one turn of a loop: the descriptors that can be read, those whose
  peer has hung up, what \<^verbatim>\<open>serv_accept\<close> and \<^verbatim>\<open>read\<close> return (nothing for an error), and
  the system call \<^verbatim>\<open>open\<close>.
\<close>

record turn =
  ready :: "int \<Rightarrow> bool"
  hup :: "int \<Rightarrow> bool"
  accepted :: "(int \<times> 32 word) option"
  reads :: "int \<Rightarrow> char list option"
  opens :: "string \<Rightarrow> int \<Rightarrow> string + int"

subsection \<open>With select\<close>

text \<open>The locals of \<^verbatim>\<open>loop\<close> in \<^verbatim>\<open>loop.select.c\<close>. A descriptor set has room for 1024.\<close>

record select_loop =
  globs :: opend
  listenfd :: int
  allset :: "int set"
  maxfd :: int
  maxi :: int

type_synonym 'a sm = "(select_loop, opend_stop, 'a) cm"

definition on_globs :: "'a om \<Rightarrow> 'a sm" where
  "on_globs m = (\<lambda>s. case m (globs s) of Inl e \<Rightarrow> Inl e | Inr (x, g) \<Rightarrow> Inr (x, s\<lparr>globs := g\<rparr>))"

definition FD_SETSIZE :: int where "FD_SETSIZE = 1024"

definition fd_set :: "int \<Rightarrow> unit sm" where
  "fd_set fd = (if 0 \<le> fd \<and> fd < FD_SETSIZE then modify (\<lambda>s. s\<lparr>allset := insert fd (allset s)\<rparr>) else fail_with (Undefined ''FD_SET''))"

definition start_select :: "int \<Rightarrow> opend \<Rightarrow> opend_stop + unit \<times> select_loop" where
  "start_select lfd g =
     (if lfd < 0 then Inl (Ends ''serv_listen error'')
      else fd_set lfd \<lparr>globs = g, listenfd = lfd, allset = {}, maxfd = lfd, maxi = -1\<rparr>)"

definition select_accept :: "turn \<Rightarrow> unit sm" where
  "select_accept T =
     (case accepted T of
        None \<Rightarrow> fail_with (Ends ''serv_accept error'')
      | Some (clifd, uid) \<Rightarrow>
          bnd (on_globs (client_add clifd uid)) (\<lambda>i.
          thn (fd_set clifd) (modify (\<lambda>s. s\<lparr>maxfd := max clifd (maxfd s), maxi := max (int i) (maxi s)\<rparr>))))"

definition select_one :: "turn \<Rightarrow> int set \<Rightarrow> nat \<Rightarrow> unit sm" where
  "select_one T rset i =
     bnd (gets (\<lambda>s. clients (globs s))) (\<lambda>cs.
     if i \<ge> length cs then fail_with (Undefined ''client[]'')
     else let clifd = cfd (cs ! i) in
     if clifd < 0 \<or> clifd \<notin> rset then ret ()
     else case reads T clifd of
       None \<Rightarrow> fail_with (Ends ''read error'')
     | Some buf \<Rightarrow>
         bnd (on_globs (uid_at i)) (\<lambda>uid.
         if buf = []
         then thn (on_globs (client_del clifd)) (
              modify (\<lambda>s. s\<lparr>allset := allset s - {clifd}, globs := (globs s)\<lparr>closed := closed (globs s) @ [clifd]\<rparr>\<rparr>))
         else on_globs (handle_request (opens T) (take MAXLINE buf) clifd uid)))"

fun select_all :: "turn \<Rightarrow> int set \<Rightarrow> nat list \<Rightarrow> unit sm" where
  "select_all T rset [] = ret ()"
| "select_all T rset (i # is) = thn (select_one T rset i) (select_all T rset is)"

definition select_turn :: "turn \<Rightarrow> unit sm" where
  "select_turn T =
     bnd (gets (\<lambda>s. {fd \<in> allset s. fd \<le> maxfd s \<and> ready T fd})) (\<lambda>rset.
     bnd (on_globs sys) (\<lambda>r.
     if r \<noteq> None then fail_with (Ends ''select error'')
     else bnd (gets listenfd) (\<lambda>lfd.
     if lfd \<in> rset then select_accept T
     else bnd (gets maxi) (\<lambda>mi. select_all T rset [0..<nat (mi + 1)]))))"

fun select_turns :: "turn list \<Rightarrow> unit sm" where
  "select_turns [] = ret ()"
| "select_turns (T # Ts) = thn (select_turn T) (select_turns Ts)"

subsection \<open>With poll\<close>

text \<open>
  The locals of \<^verbatim>\<open>loop\<close> in \<^verbatim>\<open>loop.poll.c\<close>. An entry of \<^verbatim>\<open>pollfd[]\<close> has a descriptor
  and the two bits of \<^verbatim>\<open>revents\<close> that are looked at; \<^verbatim>\<open>events\<close> is always \<^verbatim>\<open>POLLIN\<close>. The
  variable \<^verbatim>\<open>maxfd\<close> is the length of the array.
\<close>

record pollent =
  pfd :: int
  pollin :: bool
  pollhup :: bool

record poll_loop =
  pglobs :: opend
  pollfd :: "pollent list"
  numfd :: nat

type_synonym 'a pm = "(poll_loop, opend_stop, 'a) cm"

definition on_pglobs :: "'a om \<Rightarrow> 'a pm" where
  "on_pglobs m = (\<lambda>s. case m (pglobs s) of Inl e \<Rightarrow> Inl e | Inr (x, g) \<Rightarrow> Inr (x, s\<lparr>pglobs := g\<rparr>))"

definition free_ent :: pollent where
  "free_ent = \<lparr>pfd = -1, pollin = False, pollhup = False\<rparr>"

definition start_poll :: "int \<Rightarrow> opend \<Rightarrow> opend_stop + unit \<times> poll_loop" where
  "start_poll lfd g =
     bnd (on_pglobs sys) (\<lambda>r.
     if r \<noteq> None then fail_with (Ends ''malloc error'')
     else if lfd < 0 then fail_with (Ends ''serv_listen error'')
     else thn (on_pglobs (client_add lfd 0))
       (modify (\<lambda>s. s\<lparr>pollfd := (pollfd s)[0 := (pollfd s ! 0)\<lparr>pfd := lfd\<rparr>]\<rparr>)))
     \<lparr>pglobs = g, pollfd = replicate NALLOC free_ent, numfd = 1\<rparr>"

definition grow_pollfd :: "unit pm" where
  "grow_pollfd =
     bnd (on_pglobs sys) (\<lambda>r.
     if r \<noteq> None then fail_with (Ends ''realloc error'')
     else modify (\<lambda>s. s\<lparr>pollfd := pollfd s @ replicate NALLOC free_ent\<rparr>))"

text \<open>The system call \<^verbatim>\<open>poll\<close> sets \<^verbatim>\<open>revents\<close> of the first \<^verbatim>\<open>numfd\<close> entries.\<close>

definition poll_fill :: "turn \<Rightarrow> nat \<Rightarrow> pollent list \<Rightarrow> pollent list" where
  "poll_fill T n ps = map (\<lambda>e. e\<lparr>pollin := ready T (pfd e), pollhup := hup T (pfd e)\<rparr>) (take n ps) @ drop n ps"

definition poll_accept :: "turn \<Rightarrow> unit pm" where
  "poll_accept T =
     (case accepted T of
        None \<Rightarrow> fail_with (Ends ''serv_accept error'')
      | Some (clifd, uid) \<Rightarrow>
          bnd (on_pglobs (client_add clifd uid)) (\<lambda>_.
          bnd (gets (\<lambda>s. numfd s = length (pollfd s))) (\<lambda>full.
          thn (if full then grow_pollfd else ret ())
            (modify (\<lambda>s. s\<lparr>pollfd := (pollfd s)[numfd s := \<lparr>pfd = clifd, pollin = False, pollhup = False\<rparr>], numfd := numfd s + 1\<rparr>)))))"

text \<open>The label \<^verbatim>\<open>hungup\<close> up to \<^verbatim>\<open>close\<close>; the user number is read for the log.\<close>

definition hungup :: "nat \<Rightarrow> int \<Rightarrow> unit om" where
  "hungup i fd = thn (uid_at i) (thn (client_del fd) (modify (\<lambda>s. s\<lparr>closed := closed s @ [fd]\<rparr>)))"

text \<open>The body of the inner loop on the globals, and whether the entry is to be removed.\<close>

definition poll_one :: "turn \<Rightarrow> nat \<Rightarrow> pollent \<Rightarrow> bool om" where
  "poll_one T i e =
     (if pollhup e then thn (hungup i (pfd e)) (ret True)
      else if pollin e
      then (case reads T (pfd e) of
              None \<Rightarrow> fail_with (Ends ''read error'')
            | Some buf \<Rightarrow>
                if buf = [] then thn (hungup i (pfd e)) (ret True)
                else bnd (uid_at i) (\<lambda>uid. thn (handle_request (opens T) (take MAXLINE buf) (pfd e) uid) (ret False)))
      else ret False)"

text \<open>
  The loop from \<^verbatim>\<open>i\<close> on. The last entry replaces one that is removed and is checked in its
  place.
\<close>

function poll_all :: "turn \<Rightarrow> nat \<Rightarrow> poll_loop \<Rightarrow> opend_stop + unit \<times> poll_loop" where
  "poll_all T i s =
     (if i \<ge> numfd s then Inr ((), s)
      else case poll_one T i (pollfd s ! i) (pglobs s) of
        Inl e \<Rightarrow> Inl e
      | Inr (False, g) \<Rightarrow> poll_all T (i + 1) (s\<lparr>pglobs := g\<rparr>)
      | Inr (True, g) \<Rightarrow>
          if i < numfd s - 1
          then poll_all T i (s\<lparr>pglobs := g, pollfd := (pollfd s)[i := pollfd s ! (numfd s - 1)], numfd := numfd s - 1\<rparr>)
          else poll_all T (i + 1) (s\<lparr>pglobs := g, numfd := numfd s - 1\<rparr>))"
  by pat_completeness auto
termination by (relation "measure (\<lambda>(T, i, s). numfd s - i)") auto

declare poll_all.simps [simp del]

definition poll_turn :: "turn \<Rightarrow> unit pm" where
  "poll_turn T =
     bnd (on_pglobs sys) (\<lambda>r.
     if r \<noteq> None then fail_with (Ends ''poll error'')
     else thn (modify (\<lambda>s. s\<lparr>pollfd := poll_fill T (numfd s) (pollfd s)\<rparr>)) (
     bnd (gets (\<lambda>s. pollin (pollfd s ! 0))) (\<lambda>new.
     thn (if new then poll_accept T else ret ()) (poll_all T 1))))"

fun poll_turns :: "turn list \<Rightarrow> unit pm" where
  "poll_turns [] = ret ()"
| "poll_turns (T # Ts) = thn (poll_turn T) (poll_turns Ts)"

section \<open>The client\<close>

text \<open>What \<^verbatim>\<open>csopen\<close> sends; the number is printed into 12 bytes.\<close>

definition csopen_request :: "string \<Rightarrow> int \<Rightarrow> opend_stop + char list" where
  "csopen_request name fl =
     (let buf = '' '' @ sdec fl
      in if length buf + 1 > 12 then Inl (Undefined ''buf'') else Inr (CL_OPEN @ '' '' @ name @ buf @ [NUL]))"

text \<open>
  The call: whether there is a connection or \<^verbatim>\<open>cli_conn\<close> makes one, whether \<^verbatim>\<open>writev\<close>
  takes everything, and what the server's messages arrive as.
\<close>

definition csopen ::
  "bool \<Rightarrow> bool \<Rightarrow> (char list \<Rightarrow> received list) \<Rightarrow> (char list \<Rightarrow> bool) \<Rightarrow> string \<Rightarrow> int \<Rightarrow> (opend_stop + int) \<times> char list list" where
  "csopen connected wrote server stderr name fl =
     (if \<not> connected then (Inr (-1), [])
      else case csopen_request name fl of
        Inl e \<Rightarrow> (Inl e, [])
      | Inr req \<Rightarrow> if \<not> wrote then (Inr (-1), []) else recv_fd stderr (server req))"

end
