(* ===== verification/Opend_Props.thy ===== *)
theory Opend_Props
  imports Opend
begin

text \<open>
  Lemmas on the open server: the request and the answer of one call, and the client array
  as a map from descriptors to users.
\<close>

section \<open>The request\<close>

definition wordy :: "string \<Rightarrow> bool" where
  "wordy w \<longleftrightarrow> w \<noteq> [] \<and> (\<forall>c \<in> set w. \<not> white c \<and> c \<noteq> NUL)"

lemma strtoks_Nil [simp]: "strtoks [] = []"
  by (subst strtoks.simps) simp

lemma strtoks_white: "white c \<Longrightarrow> strtoks (c # s) = strtoks s"
  by (subst (1 2) strtoks.simps) simp

lemma wordy_first: "wordy w \<Longrightarrow> dropWhile white (w @ s) = w @ s"
  by (cases w) (auto simp: wordy_def)

lemma strtoks_word: "wordy w \<Longrightarrow> s = [] \<or> white (hd s) \<Longrightarrow> strtoks (w @ s) = w # strtoks s"
proof -
  assume w: "wordy w" and s: "s = [] \<or> white (hd s)"
  have "takeWhile (\<lambda>c. \<not> white c) (w @ s) = w" "dropWhile (\<lambda>c. \<not> white c) (w @ s) = s"
    using w s by (cases s; auto simp: wordy_def takeWhile_append2 dropWhile_append2)+
  then show ?thesis using w by (subst strtoks.simps) (auto simp: wordy_first wordy_def Let_def)
qed

lemma white_digit: "isdigit c \<Longrightarrow> \<not> white c \<and> c \<noteq> NUL"
  by (auto simp: isdigit_def white_def)

lemma wordy_sdec: "wordy (sdec v)"
proof -
  have "wordy (dec n)" for n using isdigit_dec white_digit by (auto simp: wordy_def)
  then show ?thesis by (auto simp: sdec_def wordy_def white_def)
qed

lemma atol_sdec:
  assumes "\<bar>v\<bar> \<le> LONG_MAX"
  shows "atol (sdec v) = v"
proof (cases "v < 0")
  case False
  then show ?thesis using assms by (simp add: sdec_def atol_dec)
next
  case True
  let ?n = "nat (- v)"
  have "NUL \<notin> set (CHR ''-'' # dec ?n)" by simp
  then have "cstr (CHR ''-'' # dec ?n) = CHR ''-'' # dec ?n" by (rule cstr_id)
  then show ?thesis using True assms
    by (simp add: sdec_def atol_def isspace_def clamp_long_def LONG_MAX_def LONG_MIN_def)
qed

text \<open>The request of \<^verbatim>\<open>csopen\<close>, and the arguments it is read as.\<close>

lemma request_made:
  assumes "- 1000000000 < fl" "fl < 2147483648"
  shows "csopen_request name fl = Inr (CL_OPEN @ '' '' @ name @ '' '' @ sdec fl @ [NUL])"
proof -
  have "length (sdec fl) \<le> 10"
  proof (cases "fl < 0")
    case True
    then have "length (dec (nat (- fl))) \<le> Suc 8" using assms(1) by (intro length_dec_le) simp
    then show ?thesis using True by (simp add: sdec_def)
  next
    case False
    then have "length (dec (nat fl)) \<le> Suc 9" using assms(2) by (intro length_dec_le) simp
    then show ?thesis using False by (simp add: sdec_def)
  qed
  then show ?thesis by (simp add: csopen_request_def)
qed

lemma request_read:
  assumes "wordy name" "- (2 ^ 31) \<le> fl" "fl < 2 ^ 31"
  shows "buf_args (cstr (CL_OPEN @ '' '' @ name @ '' '' @ sdec fl @ [NUL])) cli_args s = Inr (0, s\<lparr>pathname := name, oflag := fl\<rparr>)"
proof -
  have o: "wordy CL_OPEN" by (simp add: wordy_def CL_OPEN_def white_def)
  let ?t = "CL_OPEN @ '' '' @ name @ '' '' @ sdec fl"
  have "NUL \<notin> set ?t" using assms(1) o wordy_sdec [of fl] by (auto simp: wordy_def)
  then have c: "cstr (?t @ [NUL]) = ?t" unfolding cstr_def by (rule takeWhile_sep)
  have sp: "white (CHR '' '')" by (simp add: white_def)
  have "strtoks ?t = [CL_OPEN, name, sdec fl]"
    using strtoks_word [OF o, of "'' '' @ name @ '' '' @ sdec fl"] strtoks_word [OF assms(1), of "'' '' @ sdec fl"]
      strtoks_word [OF wordy_sdec, of "[]" fl] by (simp add: sp strtoks_white)
  moreover have "takeWhile white ?t = []" by (simp add: CL_OPEN_def white_def)
  moreover have "atoi (sdec fl) t = Inr (fl, t)" for t
    using assms(2,3) atol_sdec [of fl] by (simp add: atoi_def LONG_MAX_def Let_def)
  ultimately show ?thesis unfolding append_assoc [symmetric] c [unfolded append_assoc [symmetric]]
    by (simp add: buf_args_def MAXARGC_def cli_args_def cm_simps)
qed

section \<open>The answer\<close>

lemma first_null_none: "NUL \<notin> set t \<Longrightarrow> first_null t = None"
  by (induction t) auto

lemma first_null_at: "NUL \<notin> set t \<Longrightarrow> first_null (t @ NUL # u) = Some (length t)"
  by (induction t) auto

text \<open>The texts of an answer, in any pieces, and the last two bytes in one piece.\<close>

lemma recv_fd_pieces:
  assumes "[] \<notin> set ts" "NUL \<notin> set (concat ts)" "NUL \<notin> set t"
    and "of_char c = (0 :: int) \<Longrightarrow> ctl = Some newfd" "of_char c \<noteq> (0 :: int) \<Longrightarrow> newfd = - of_char c"
  shows "recv_fd (\<lambda>_. True) (map (\<lambda>x. Received (x, None)) ts @ [Received (t @ [NUL, c], ctl)]) =
    (Inr newfd, ts @ (if t = [] then [] else [t]))"
  using assms
proof (induction ts)
  case Nil
  then show ?case by (auto simp: first_null_at nth_append Let_def)
next
  case (Cons x ts)
  then have "x \<noteq> []" by auto
  with Cons show ?case by (simp add: first_null_none)
qed

text \<open>What the server does with the request, when its calls succeed.\<close>

lemma sys_fine: "fails s = [] \<Longrightarrow> sys s = Inr (None, s)"
  by (simp add: sys_def)

lemma handle_opens:
  assumes "buf_args (cstr buf) cli_args s = Inr (0, s\<lparr>pathname := name, oflag := fl\<rparr>)" "buf \<noteq> []" "last buf = NUL"
    and "fails s = []" "openf name fl = Inr newfd"
  shows "handle_request openf buf clifd uid s = Inr ((), s\<lparr>pathname := name, oflag := fl,
    outs := outs s @ [(clifd, fd_message newfd)], closed := closed s @ [newfd]\<rparr>)"
  using assms by (simp add: handle_request_def cm_simps send_fd_def sys_fine)

lemma refuse_fine:
  "fails s = [] \<Longrightarrow> errmsg s \<noteq> [] \<Longrightarrow> refuse clifd s = Inr ((), s\<lparr>outs := outs s @ [(clifd, errmsg s, None), (clifd, fd_message (-1))]\<rparr>)"
  by (simp add: refuse_def send_err_def send_fd_def thn_def bnd_def sys_fine Let_def)

lemma handle_refuses:
  assumes "buf_args (cstr buf) cli_args s = Inr (0, s\<lparr>pathname := name, oflag := fl\<rparr>)" "buf \<noteq> []" "last buf = NUL"
    and "fails s = []" "openf name fl = Inl e" and "no_args (take (MAXLINE - 2) (cannot_open name e))"
  shows "handle_request openf buf clifd uid s = Inr ((), s\<lparr>pathname := name, oflag := fl, errmsg := take (MAXLINE - 2) (cannot_open name e),
    outs := outs s @ [(clifd, take (MAXLINE - 2) (cannot_open name e), None), (clifd, fd_message (-1))]\<rparr>)"
proof -
  have "take (MAXLINE - 2) (cannot_open name e) \<noteq> []" by (simp add: cannot_open_def)
  then show ?thesis using assms
    by (simp add: handle_request_def cm_simps set_errmsg_def refuse_fine log_errmsg_def)
qed

section \<open>The client array\<close>

text \<open>What leaves the client array alone, and does not depend on it.\<close>

definition keeps :: "'a om \<Rightarrow> bool" where
  "keeps m \<longleftrightarrow> (\<forall>s cs. m (s\<lparr>clients := cs\<rparr>) = (case m s of Inl e \<Rightarrow> Inl e | Inr (x, s') \<Rightarrow> Inr (x, s'\<lparr>clients := cs\<rparr>)))"

lemma keepsD: "keeps m \<Longrightarrow> m (s\<lparr>clients := cs\<rparr>) = (case m s of Inl e \<Rightarrow> Inl e | Inr (x, s') \<Rightarrow> Inr (x, s'\<lparr>clients := cs\<rparr>))"
  unfolding keeps_def by blast

lemma keeps_clients: "keeps m \<Longrightarrow> m s = Inr (x, s') \<Longrightarrow> clients s' = clients s"
  using keepsD [where m = m and s = s and cs = "clients s"] by (cases s') (auto simp: opend.defs)

lemma keeps_ret: "keeps (ret x)"
  by (simp add: keeps_def)

lemma keeps_fail: "keeps (fail_with e)"
  by (simp add: keeps_def)

lemma keeps_gets: "(\<And>s cs. f (s\<lparr>clients := cs\<rparr>) = f s) \<Longrightarrow> keeps (gets f)"
  by (simp add: keeps_def)

lemma keeps_modify: "(\<And>s cs. f (s\<lparr>clients := cs\<rparr>) = (f s)\<lparr>clients := cs\<rparr>) \<Longrightarrow> keeps (modify f)"
  by (simp add: keeps_def)

lemma keeps_sys: "keeps sys"
  by (simp add: keeps_def sys_def split: list.splits)

lemma keeps_bnd: "keeps m \<Longrightarrow> (\<And>x. keeps (f x)) \<Longrightarrow> keeps (bnd m f)"
  unfolding keeps_def bnd_def by (auto split: sum.splits prod.splits)

lemma keeps_thn: "keeps m \<Longrightarrow> keeps n \<Longrightarrow> keeps (thn m n)"
  unfolding thn_def by (rule keeps_bnd)

lemma keeps_if: "(b \<Longrightarrow> keeps m) \<Longrightarrow> (\<not> b \<Longrightarrow> keeps n) \<Longrightarrow> keeps (if b then m else n)"
  by simp

lemma keeps_option: "keeps m \<Longrightarrow> (\<And>x. keeps (f x)) \<Longrightarrow> keeps (case v of None \<Rightarrow> m | Some x \<Rightarrow> f x)"
  by (cases v) auto

lemma keeps_sum: "(\<And>x. keeps (f x)) \<Longrightarrow> (\<And>x. keeps (g x)) \<Longrightarrow> keeps (case v of Inl x \<Rightarrow> f x | Inr x \<Rightarrow> g x)"
  by (cases v) auto

lemma keeps_list: "keeps m \<Longrightarrow> (\<And>x xs. keeps (f x xs)) \<Longrightarrow> keeps (case v of [] \<Rightarrow> m | x # xs \<Rightarrow> f x xs)"
  by (cases v) auto

lemmas keeps_intros = keeps_ret keeps_fail keeps_sys keeps_bnd keeps_thn keeps_if keeps_option keeps_sum keeps_list keeps_gets keeps_modify

lemma keeps_send_fd: "keeps (send_fd fd f)"
  unfolding send_fd_def by (intro keeps_intros) simp_all

lemma keeps_refuse: "keeps (refuse fd)"
  unfolding refuse_def send_err_def Let_def by (intro keeps_intros keeps_send_fd) simp_all

lemma keeps_cli_args: "keeps (cli_args argv)"
  unfolding cli_args_def atoi_def Let_def by (intro keeps_intros) simp_all

lemma keeps_handle: "keeps (handle_request openf buf clifd uid)"
  unfolding handle_request_def buf_args_def set_errmsg_def log_errmsg_def
  by (intro keeps_intros keeps_send_fd keeps_refuse keeps_cli_args) simp_all

text \<open>The searches.\<close>

lemma find_client_Some:
  "find_client fd cs = Some i \<Longrightarrow> i < length cs \<and> cfd (cs ! i) = fd"
  by (induction cs arbitrary: i) (auto split: if_splits)

lemma find_client_None: "find_client fd cs = None \<longleftrightarrow> (\<forall>c \<in> set cs. cfd c \<noteq> fd)"
  by (induction cs) auto

definition spare_ents :: "client list" where
  "spare_ents = replicate NALLOC \<lparr>cfd = -1, cuid = None\<rparr>"

lemma find_spare: "\<exists>i. find_client (-1) (cs @ spare_ents) = Some i"
proof (rule ccontr)
  assume "\<not> ?thesis"
  then have "find_client (-1) (cs @ spare_ents) = None" by auto
  then show False by (simp add: find_client_None spare_ents_def NALLOC_def)
qed

text \<open>
  \<^verbatim>\<open>client_add\<close> uses a free entry, after at most one enlargement of the array; the fuel
  never runs out.
\<close>

lemma client_alloc_cases:
  obtains "client_alloc s = Inl (Ends ''can't alloc for client array'')"
  | k where "client_alloc s = Inr ((), s\<lparr>fails := drop k (fails s), clients := clients s @ spare_ents\<rparr>)"
proof (cases "fails s")
  case Nil
  then have "s\<lparr>fails := drop 0 (fails s), clients := clients s @ spare_ents\<rparr> = s\<lparr>clients := clients s @ spare_ents\<rparr>" by simp
  then show ?thesis using Nil that(2) [of 0] by (simp add: client_alloc_def cm_simps sys_def spare_ents_def)
next
  case (Cons r rs)
  then show ?thesis using that(1) that(2) [of 1]
    by (cases r) (simp_all add: client_alloc_def bnd_def sys_def spare_ents_def)
qed

lemma again_finds:
  "find_client (-1) (clients s) = Some i \<Longrightarrow>
    again (Suc n) fd uid s = Inr (i, s\<lparr>clients := (clients s)[i := \<lparr>cfd = fd, cuid = Some uid\<rparr>]\<rparr>)"
  by (simp add: cm_simps)

lemma client_add_cases:
  obtains (fails) "client_add fd uid s = Inl (Ends ''can't alloc for client array'')"
  | (adds) i k cs where "client_add fd uid s = Inr (i, s\<lparr>fails := drop k (fails s), clients := cs[i := \<lparr>cfd = fd, cuid = Some uid\<rparr>]\<rparr>)"
      and "cs = clients s \<or> cs = clients s @ spare_ents" and "i < length cs" "cfd (cs ! i) = -1"
proof (cases "clients s \<noteq> [] \<and> find_client (-1) (clients s) \<noteq> None")
  case True
  then obtain i where i: "find_client (-1) (clients s) = Some i" "clients s \<noteq> []" by auto
  have "client_add fd uid s = Inr (i, s\<lparr>fails := drop 0 (fails s), clients := (clients s)[i := \<lparr>cfd = fd, cuid = Some uid\<rparr>]\<rparr>)"
    using i again_finds [OF i(1), of 1] by (simp add: client_add_def cm_simps numeral_2_eq_2)
  then show ?thesis by (rule adds) (use find_client_Some [OF i(1)] in auto)
next
  case False
  obtain i where i: "find_client (-1) (clients s @ spare_ents) = Some i" using find_spare by blast
  show ?thesis
  proof (rule client_alloc_cases [of s])
    assume "client_alloc s = Inl (Ends ''can't alloc for client array'')"
    then show ?thesis using False fails by (auto simp: client_add_def bnd_def thn_def numeral_2_eq_2)
  next
    fix k
    let ?s = "s\<lparr>fails := drop k (fails s), clients := clients s @ spare_ents\<rparr>"
    assume a: "client_alloc s = Inr ((), ?s)"
    have g: "again (Suc n) fd uid ?s = Inr (i, ?s\<lparr>clients := (clients s @ spare_ents)[i := \<lparr>cfd = fd, cuid = Some uid\<rparr>]\<rparr>)" for n
      using again_finds [of ?s i n fd uid] i by simp
    have "client_add fd uid s = Inr (i, ?s\<lparr>clients := (clients s @ spare_ents)[i := \<lparr>cfd = fd, cuid = Some uid\<rparr>]\<rparr>)"
    proof (cases "clients s = []")
      case True
      then have "client_add fd uid s = again (Suc 1) fd uid ?s" using a by (simp add: client_add_def thn_def bnd_def numeral_2_eq_2)
      then show ?thesis using g by simp
    next
      case ne: False
      then have "find_client (-1) (clients s) = None" using False by auto
      then have "client_add fd uid s = again (Suc 0) fd uid ?s" using a ne by (simp add: client_add_def thn_def bnd_def numeral_2_eq_2)
      then show ?thesis using g [of 0] by simp
    qed
    then have "client_add fd uid s = Inr (i, s\<lparr>fails := drop k (fails s),
        clients := (clients s @ spare_ents)[i := \<lparr>cfd = fd, cuid = Some uid\<rparr>]\<rparr>)" by simp
    then show ?thesis by (rule adds) (use find_client_Some [OF i] in auto)
  qed
qed

text \<open>The array stands for a map from the descriptors of the clients to their users.\<close>

definition table :: "client list \<Rightarrow> (int \<rightharpoonup> 32 word) \<Rightarrow> bool" where
  "table cs m \<longleftrightarrow>
     (\<forall>i < length cs. cfd (cs ! i) = -1 \<or> 0 \<le> cfd (cs ! i) \<and> cuid (cs ! i) \<noteq> None \<and> m (cfd (cs ! i)) = cuid (cs ! i)) \<and>
     (\<forall>fd \<in> dom m. 0 \<le> fd \<and> (\<exists>i < length cs. cfd (cs ! i) = fd)) \<and>
     (\<forall>i < length cs. \<forall>j < length cs. cfd (cs ! i) = cfd (cs ! j) \<longrightarrow> 0 \<le> cfd (cs ! i) \<longrightarrow> i = j)"

lemma table_Nil: "table [] Map.empty"
  by (simp add: table_def)

lemma table_entry: "table cs m \<Longrightarrow> i < length cs \<Longrightarrow> 0 \<le> cfd (cs ! i) \<Longrightarrow> \<exists>u. cuid (cs ! i) = Some u \<and> m (cfd (cs ! i)) = Some u"
  unfolding table_def by force

lemma table_index: "table cs m \<Longrightarrow> fd \<in> dom m \<Longrightarrow> 0 \<le> fd \<and> (\<exists>i < length cs. cfd (cs ! i) = fd)"
  unfolding table_def by blast

lemma table_same: "table cs m \<Longrightarrow> i < length cs \<Longrightarrow> j < length cs \<Longrightarrow> cfd (cs ! i) = cfd (cs ! j) \<Longrightarrow> 0 \<le> cfd (cs ! i) \<Longrightarrow> i = j"
  unfolding table_def by blast

lemma table_cases: "table cs m \<Longrightarrow> i < length cs \<Longrightarrow> cfd (cs ! i) = -1 \<or> 0 \<le> cfd (cs ! i)"
  unfolding table_def by blast

lemma tableI:
  assumes "\<And>i. i < length cs \<Longrightarrow> cfd (cs ! i) = -1 \<or> 0 \<le> cfd (cs ! i) \<and> cuid (cs ! i) \<noteq> None \<and> m (cfd (cs ! i)) = cuid (cs ! i)"
    and "\<And>fd. fd \<in> dom m \<Longrightarrow> 0 \<le> fd \<and> (\<exists>i < length cs. cfd (cs ! i) = fd)"
    and "\<And>i j. i < length cs \<Longrightarrow> j < length cs \<Longrightarrow> cfd (cs ! i) = cfd (cs ! j) \<Longrightarrow> 0 \<le> cfd (cs ! i) \<Longrightarrow> i = j"
  shows "table cs m"
  using assms unfolding table_def by blast

lemma spare_nth: "i < length spare_ents \<Longrightarrow> cfd (spare_ents ! i) = -1"
  by (simp add: spare_ents_def)

lemma table_grow:
  assumes "table cs m"
  shows "table (cs @ spare_ents) m"
proof (rule tableI)
  fix i
  assume "i < length (cs @ spare_ents)"
  then show "cfd ((cs @ spare_ents) ! i) = -1 \<or> 0 \<le> cfd ((cs @ spare_ents) ! i) \<and> cuid ((cs @ spare_ents) ! i) \<noteq> None \<and>
      m (cfd ((cs @ spare_ents) ! i)) = cuid ((cs @ spare_ents) ! i)"
    using assms spare_nth [of "i - length cs"] unfolding table_def by (cases "i < length cs") (auto simp: nth_append)
next
  fix fd
  assume "fd \<in> dom m"
  then obtain i where "0 \<le> fd" "i < length cs" "cfd (cs ! i) = fd" using table_index [OF assms] by blast
  then show "0 \<le> fd \<and> (\<exists>i < length (cs @ spare_ents). cfd ((cs @ spare_ents) ! i) = fd)"
    by (intro conjI exI [of _ i]) (auto simp: nth_append)
next
  fix i j
  assume a: "i < length (cs @ spare_ents)" "j < length (cs @ spare_ents)" "cfd ((cs @ spare_ents) ! i) = cfd ((cs @ spare_ents) ! j)"
    "0 \<le> cfd ((cs @ spare_ents) ! i)"
  have "i < length cs" using a(1,4) spare_nth [of "i - length cs"] by (cases "i < length cs") (simp_all add: nth_append)
  moreover have "j < length cs" using a(2-4) spare_nth [of "j - length cs"] by (cases "j < length cs") (simp_all add: nth_append)
  ultimately show "i = j" using table_same [OF assms] a by (simp add: nth_append)
qed

lemma table_add:
  assumes t: "table cs m" and i: "i < length cs" "cfd (cs ! i) = -1" and fd: "0 \<le> fd" "fd \<notin> dom m"
  shows "table (cs[i := \<lparr>cfd = fd, cuid = Some uid\<rparr>]) (m(fd \<mapsto> uid))"
proof -
  have other: "cfd (cs ! j) \<noteq> fd" if "j < length cs" for j
    using table_entry [OF t that] fd by auto
  show ?thesis
  proof (rule tableI)
    fix j
    assume j: "j < length (cs[i := \<lparr>cfd = fd, cuid = Some uid\<rparr>])"
    then show "cfd (cs[i := \<lparr>cfd = fd, cuid = Some uid\<rparr>] ! j) = -1 \<or>
      0 \<le> cfd (cs[i := \<lparr>cfd = fd, cuid = Some uid\<rparr>] ! j) \<and> cuid (cs[i := \<lparr>cfd = fd, cuid = Some uid\<rparr>] ! j) \<noteq> None \<and>
      (m(fd \<mapsto> uid)) (cfd (cs[i := \<lparr>cfd = fd, cuid = Some uid\<rparr>] ! j)) = cuid (cs[i := \<lparr>cfd = fd, cuid = Some uid\<rparr>] ! j)"
      using t other [of j] fd(1) unfolding table_def by (cases "j = i") auto
  next
    fix fd'
    assume d: "fd' \<in> dom (m(fd \<mapsto> uid))"
    show "0 \<le> fd' \<and> (\<exists>j < length (cs[i := \<lparr>cfd = fd, cuid = Some uid\<rparr>]). cfd (cs[i := \<lparr>cfd = fd, cuid = Some uid\<rparr>] ! j) = fd')"
    proof (cases "fd' = fd")
      case True
      then show ?thesis using fd(1) i(1) by (intro conjI exI [of _ i]) auto
    next
      case False
      then obtain j where j: "0 \<le> fd'" "j < length cs" "cfd (cs ! j) = fd'" using d table_index [OF t, of fd'] by auto
      then have "j \<noteq> i" using i(2) by auto
      then show ?thesis using j by (intro conjI exI [of _ j]) auto
    qed
  next
    fix j k
    assume "j < length (cs[i := \<lparr>cfd = fd, cuid = Some uid\<rparr>])" "k < length (cs[i := \<lparr>cfd = fd, cuid = Some uid\<rparr>])"
      "cfd (cs[i := \<lparr>cfd = fd, cuid = Some uid\<rparr>] ! j) = cfd (cs[i := \<lparr>cfd = fd, cuid = Some uid\<rparr>] ! k)"
      "0 \<le> cfd (cs[i := \<lparr>cfd = fd, cuid = Some uid\<rparr>] ! j)"
    then show "j = k" using table_same [OF t, of j k] other [of j] other [of k] i(1)
      by (cases "j = i"; cases "k = i") auto
  qed
qed

lemma table_del:
  assumes t: "table cs m" and i: "i < length cs" "0 \<le> cfd (cs ! i)"
  shows "table (cs[i := (cs ! i)\<lparr>cfd := -1\<rparr>]) (m(cfd (cs ! i) := None))"
proof -
  have other: "cfd (cs ! j) \<noteq> cfd (cs ! i)" if "j < length cs" "j \<noteq> i" for j
    using table_same [OF t i(1) that(1)] that(2) i(2) by auto
  show ?thesis
  proof (rule tableI)
    fix j
    assume "j < length (cs[i := (cs ! i)\<lparr>cfd := -1\<rparr>])"
    then show "cfd (cs[i := (cs ! i)\<lparr>cfd := -1\<rparr>] ! j) = -1 \<or> 0 \<le> cfd (cs[i := (cs ! i)\<lparr>cfd := -1\<rparr>] ! j) \<and>
      cuid (cs[i := (cs ! i)\<lparr>cfd := -1\<rparr>] ! j) \<noteq> None \<and>
      (m(cfd (cs ! i) := None)) (cfd (cs[i := (cs ! i)\<lparr>cfd := -1\<rparr>] ! j)) = cuid (cs[i := (cs ! i)\<lparr>cfd := -1\<rparr>] ! j)"
      using t other [of j] unfolding table_def by (cases "j = i") auto
  next
    fix fd
    assume d: "fd \<in> dom (m(cfd (cs ! i) := None))"
    then obtain j where "0 \<le> fd" "j < length cs" "cfd (cs ! j) = fd" "fd \<noteq> cfd (cs ! i)" using table_index [OF t, of fd] by (auto split: if_splits)
    moreover from this have "j \<noteq> i" by auto
    ultimately show "0 \<le> fd \<and> (\<exists>j < length (cs[i := (cs ! i)\<lparr>cfd := -1\<rparr>]). cfd (cs[i := (cs ! i)\<lparr>cfd := -1\<rparr>] ! j) = fd)"
      by (intro conjI exI [of _ j]) auto
  next
    fix j k
    assume "j < length (cs[i := (cs ! i)\<lparr>cfd := -1\<rparr>])" "k < length (cs[i := (cs ! i)\<lparr>cfd := -1\<rparr>])"
      "cfd (cs[i := (cs ! i)\<lparr>cfd := -1\<rparr>] ! j) = cfd (cs[i := (cs ! i)\<lparr>cfd := -1\<rparr>] ! k)" "0 \<le> cfd (cs[i := (cs ! i)\<lparr>cfd := -1\<rparr>] ! j)"
    then show "j = k" using table_same [OF t, of j k] i(1) by (cases "j = i"; cases "k = i") auto
  qed
qed

lemma table_find:
  assumes "table cs m" "i < length cs" "0 \<le> cfd (cs ! i)"
  shows "find_client (cfd (cs ! i)) cs = Some i"
proof (cases "find_client (cfd (cs ! i)) cs")
  case None
  then show ?thesis using assms(2) nth_mem [of i cs] by (auto simp: find_client_None)
next
  case (Some j)
  then show ?thesis using find_client_Some [OF Some] table_same [OF assms(1), of j i] assms(2,3) by simp
qed

end
