(* ===== verification/Opend_Loop.thy ===== *)
theory Opend_Loop
  imports Opend_Props
begin

text \<open>
  The loop with \<^verbatim>\<open>select\<close> as a server of a map: what one turn is to do with the
  connections and the globals, and that the loop over the array does that.
\<close>

section \<open>What a turn is to do\<close>

type_synonym conns = "int \<rightharpoonup> 32 word"

definition spec_one :: "turn \<Rightarrow> int \<Rightarrow> opend \<times> conns \<Rightarrow> opend_stop + opend \<times> conns" where
  "spec_one T fd a =
     (case a of (g, m) \<Rightarrow>
      case reads T fd of
        None \<Rightarrow> Inl (Ends ''read error'')
      | Some buf \<Rightarrow>
          if buf = [] then Inr (g\<lparr>closed := closed g @ [fd]\<rparr>, m(fd := None))
          else case handle_request (opens T) (take MAXLINE buf) fd (the (m fd)) g of
            Inl e \<Rightarrow> Inl e | Inr (_, g') \<Rightarrow> Inr (g', m))"

fun spec_all :: "turn \<Rightarrow> int list \<Rightarrow> opend \<times> conns \<Rightarrow> opend_stop + opend \<times> conns" where
  "spec_all T [] a = Inr a"
| "spec_all T (fd # fds) a = (case spec_one T fd a of Inl e \<Rightarrow> Inl e | Inr a' \<Rightarrow> spec_all T fds a')"

text \<open>
  A turn that serves the clients \<open>fds\<close>; a new client may need memory, and so consume \<open>k\<close>
  outcomes.
\<close>

definition spec_turn :: "turn \<Rightarrow> int \<Rightarrow> int list \<Rightarrow> nat \<Rightarrow> opend \<times> conns \<Rightarrow> opend_stop + opend \<times> conns" where
  "spec_turn T lfd fds k a =
     (case a of (g, m) \<Rightarrow>
      case sys g of
        Inl e \<Rightarrow> Inl e
      | Inr (r, g) \<Rightarrow>
          if r \<noteq> None then Inl (Ends ''select error'')
          else if ready T lfd
          then (case accepted T of
                  None \<Rightarrow> Inl (Ends ''serv_accept error'')
                | Some (fd, uid) \<Rightarrow> Inr (g\<lparr>fails := drop k (fails g)\<rparr>, m(fd \<mapsto> uid)))
          else spec_all T fds (g, m))"

text \<open>The connections after a turn.\<close>

definition conns_after :: "turn \<Rightarrow> int \<Rightarrow> conns \<Rightarrow> conns" where
  "conns_after T lfd m =
     (if ready T lfd then (case accepted T of None \<Rightarrow> m | Some (fd, uid) \<Rightarrow> m(fd \<mapsto> uid))
      else (\<lambda>fd. if ready T fd \<and> reads T fd = Some [] then None else m fd))"

text \<open>The kernel's part: a new descriptor is not in use, and fits into a descriptor set.\<close>

definition fresh :: "turn \<Rightarrow> int \<Rightarrow> conns \<Rightarrow> bool" where
  "fresh T lfd m \<longleftrightarrow> (\<forall>fd uid. accepted T = Some (fd, uid) \<longrightarrow> 0 \<le> fd \<and> fd < FD_SETSIZE \<and> fd \<noteq> lfd \<and> fd \<notin> dom m)"

section \<open>The invariant\<close>

definition select_inv :: "select_loop \<Rightarrow> conns \<Rightarrow> bool" where
  "select_inv s m \<longleftrightarrow>
     table (clients (globs s)) m \<and> allset s = insert (listenfd s) (dom m) \<and> listenfd s \<notin> dom m \<and>
     (\<forall>fd \<in> allset s. fd \<le> maxfd s) \<and> -1 \<le> maxi s \<and> maxi s < int (length (clients (globs s))) \<and>
     (\<forall>i < length (clients (globs s)). 0 \<le> cfd (clients (globs s) ! i) \<longrightarrow> int i \<le> maxi s)"

definition bare :: "select_loop \<Rightarrow> opend" where
  "bare s = (globs s)\<lparr>clients := []\<rparr>"

definition same_but :: "nat \<Rightarrow> select_loop \<Rightarrow> select_loop \<Rightarrow> bool" where
  "same_but i s s' \<longleftrightarrow>
     length (clients (globs s')) = length (clients (globs s)) \<and> (\<forall>j. j \<noteq> i \<longrightarrow> clients (globs s') ! j = clients (globs s) ! j) \<and>
     maxi s' = maxi s \<and> listenfd s' = listenfd s"

text \<open>A result of the code that is the required one; \<open>P\<close> holds for the new state.\<close>

definition sim :: "opend_stop + opend \<times> conns \<Rightarrow> (select_loop \<Rightarrow> bool) \<Rightarrow> opend_stop + unit \<times> select_loop \<Rightarrow> bool" where
  "sim a P r \<longleftrightarrow>
     (case a of
        Inl e \<Rightarrow> r = Inl e
      | Inr (g, m) \<Rightarrow> (\<exists>s'. r = Inr ((), s') \<and> select_inv s' m \<and> bare s' = g \<and> P s'))"

lemma sim_simps [simp]:
  "sim (Inl e) P r \<longleftrightarrow> r = Inl e"
  "sim (Inr (g, m)) P r \<longleftrightarrow> (\<exists>s'. r = Inr ((), s') \<and> select_inv s' m \<and> bare s' = g \<and> P s')"
  by (simp_all add: sim_def)

lemma on_globs_Inr: "on_globs m s = Inr (x, s') \<longleftrightarrow> (\<exists>g. m (globs s) = Inr (x, g) \<and> s' = s\<lparr>globs := g\<rparr>)"
  by (auto simp: on_globs_def split: sum.splits)

lemma on_globs_run [cm_simps]: "m (globs s) = Inr (x, g) \<Longrightarrow> on_globs m s = Inr (x, s\<lparr>globs := g\<rparr>)"
  by (simp add: on_globs_def)

lemma on_globs_stop [cm_simps]: "m (globs s) = Inl e \<Longrightarrow> on_globs m s = Inl e"
  by (simp add: on_globs_def)

lemma closing:
  assumes inv: "select_inv s m" and i: "i < length (clients (globs s))" "cfd (clients (globs s) ! i) = fd" "0 \<le> fd"
    and r: "reads T fd = Some []" "fd \<in> rset"
  shows "\<exists>s'. select_one T rset i s = Inr ((), s') \<and> select_inv s' (m(fd := None)) \<and>
    bare s' = (bare s)\<lparr>closed := closed (bare s) @ [fd]\<rparr> \<and> same_but i s s'"
proof -
  let ?cs = "clients (globs s)"
  have t: "table ?cs m" using inv by (simp add: select_inv_def)
  obtain u where u: "cuid (?cs ! i) = Some u" using table_entry [OF t i(1)] i(2,3) by auto
  let ?g = "(globs s)\<lparr>clients := ?cs[i := (?cs ! i)\<lparr>cfd := -1\<rparr>]\<rparr>"
  let ?s = "s\<lparr>globs := ?g\<lparr>closed := closed ?g @ [fd]\<rparr>, allset := allset s - {fd}\<rparr>"
  have "client_del fd (globs s) = Inr ((), ?g)"
    using table_find [OF t i(1)] i(2,3) by (simp add: client_del_def cm_simps)
  then have run: "select_one T rset i s = Inr ((), ?s)"
    using i r u by (simp add: select_one_def uid_at_def cm_simps)
  have "table (?cs[i := (?cs ! i)\<lparr>cfd := -1\<rparr>]) (m(fd := None))" using table_del [OF t i(1)] i(2,3) by simp
  moreover have "fd \<in> dom m" using table_entry [OF t i(1)] i(2,3) by auto
  ultimately have "select_inv ?s (m(fd := None))" using inv i(1) by (auto simp: select_inv_def nth_list_update split: if_splits)
  then show ?thesis using run by (intro exI [of _ ?s]) (simp add: bare_def same_but_def)
qed

lemma requesting:
  assumes inv: "select_inv s m" and i: "i < length (clients (globs s))" "cfd (clients (globs s) ! i) = fd" "0 \<le> fd"
    and r: "reads T fd = Some buf" "buf \<noteq> []" "fd \<in> rset"
  shows "case handle_request (opens T) (take MAXLINE buf) fd (the (m fd)) (bare s) of
      Inl e \<Rightarrow> select_one T rset i s = Inl e
    | Inr (_, g') \<Rightarrow> \<exists>s'. select_one T rset i s = Inr ((), s') \<and> select_inv s' m \<and> bare s' = g' \<and> same_but i s s'"
proof -
  let ?cs = "clients (globs s)"
  let ?h = "handle_request (opens T) (take MAXLINE buf) fd (the (m fd))"
  have t: "table ?cs m" using inv by (simp add: select_inv_def)
  have u: "cuid (?cs ! i) = Some (the (m fd))" using table_entry [OF t i(1)] i(2,3) by auto
  have one: "select_one T rset i s = on_globs ?h s"
    using i r u by (simp add: select_one_def uid_at_def cm_simps Let_def)
  have k: "?h (bare s) = (case ?h (globs s) of Inl e \<Rightarrow> Inl e | Inr (x, g) \<Rightarrow> Inr (x, g\<lparr>clients := []\<rparr>))"
    unfolding bare_def by (rule keepsD [OF keeps_handle])
  show ?thesis
  proof (cases "?h (globs s)")
    case (Inl e)
    then show ?thesis using k one by (simp add: on_globs_def)
  next
    case (Inr p)
    obtain x g where p: "p = (x, g)" by (cases p)
    let ?s = "s\<lparr>globs := g\<rparr>"
    have c: "clients g = ?cs" using keeps_clients [OF keeps_handle Inr [unfolded p]] .
    then have "select_inv ?s m" "same_but i s ?s" using inv by (simp_all add: select_inv_def same_but_def)
    moreover have "select_one T rset i s = Inr ((), ?s)" using one Inr p by (simp add: on_globs_def)
    moreover have "bare ?s = g\<lparr>clients := []\<rparr>" by (simp add: bare_def)
    ultimately show ?thesis using k Inr p by auto
  qed
qed

lemma select_one_sim:
  assumes "select_inv s m" "i < length (clients (globs s))" "cfd (clients (globs s) ! i) = fd" "0 \<le> fd" "fd \<in> rset"
  shows "sim (spec_one T fd (bare s, m)) (same_but i s) (select_one T rset i s)"
proof (cases "reads T fd")
  case None
  then show ?thesis using assms by (simp add: spec_one_def select_one_def cm_simps)
next
  case (Some buf)
  show ?thesis
  proof (cases "buf = []")
    case True
    then show ?thesis using closing [OF assms(1-4) _ assms(5), of T] Some by (simp add: spec_one_def)
  next
    case False
    let ?h = "handle_request (opens T) (take MAXLINE buf) fd (the (m fd)) (bare s)"
    have "spec_one T fd (bare s, m) = (case ?h of Inl e \<Rightarrow> Inl e | Inr (_, g') \<Rightarrow> Inr (g', m))"
      using Some False by (simp add: spec_one_def)
    then show ?thesis using requesting [OF assms(1-4) Some False assms(5)] by (cases ?h) auto
  qed
qed

text \<open>The clients that a pass over the entries \<open>is\<close> serves.\<close>

definition due :: "client list \<Rightarrow> int set \<Rightarrow> nat list \<Rightarrow> int list" where
  "due cs rset is = map (\<lambda>i. cfd (cs ! i)) (filter (\<lambda>i. 0 \<le> cfd (cs ! i) \<and> cfd (cs ! i) \<in> rset) is)"

lemma due_same: "same_but i s s' \<Longrightarrow> i \<notin> set is \<Longrightarrow> due (clients (globs s')) rset is = due (clients (globs s)) rset is"
  by (induction "is") (auto simp: due_def same_but_def)

lemma select_all_sim:
  assumes "select_inv s m" "distinct is" "\<forall>i \<in> set is. i < length (clients (globs s))"
  shows "sim (spec_all T (due (clients (globs s)) rset is) (bare s, m)) (\<lambda>s'. listenfd s' = listenfd s) (select_all T rset is s)"
  using assms
proof (induction "is" arbitrary: s m)
  case Nil
  then show ?case by (simp add: due_def)
next
  case (Cons i "is")
  let ?fd = "cfd (clients (globs s) ! i)"
  have i: "i < length (clients (globs s))" "i \<notin> set is" using Cons.prems by auto
  show ?case
  proof (cases "0 \<le> ?fd \<and> ?fd \<in> rset")
    case False
    then have "select_all T rset (i # is) s = select_all T rset is s"
      using i by (auto simp: select_one_def cm_simps Let_def)
    moreover have "due (clients (globs s)) rset (i # is) = due (clients (globs s)) rset is" using False by (auto simp: due_def)
    ultimately show ?thesis using Cons.IH [OF Cons.prems(1)] Cons.prems by (simp del: select_all.simps)
  next
    case True
    then have d: "due (clients (globs s)) rset (i # is) = ?fd # due (clients (globs s)) rset is" by (simp add: due_def)
    have one: "sim (spec_one T ?fd (bare s, m)) (same_but i s) (select_one T rset i s)"
      using select_one_sim [OF Cons.prems(1) i(1) refl] True by blast
    show ?thesis
    proof (cases "spec_one T ?fd (bare s, m)")
      case (Inl e)
      then show ?thesis using one by (simp add: d cm_simps)
    next
      case (Inr a)
      obtain g1 m1 where a: "a = (g1, m1)" by (cases a)
      from one [unfolded Inr a] obtain s1
        where s1: "select_one T rset i s = Inr ((), s1)" "select_inv s1 m1" "bare s1 = g1" "same_but i s s1" by auto
      have "\<forall>j \<in> set is. j < length (clients (globs s1))" "listenfd s1 = listenfd s" using s1(4) Cons.prems(3) by (simp_all add: same_but_def)
      then have "sim (spec_all T (due (clients (globs s1)) rset is) (bare s1, m1)) (\<lambda>s'. listenfd s' = listenfd s) (select_all T rset is s1)"
        using Cons.IH [OF s1(2)] Cons.prems(2) by simp
      moreover have "select_all T rset (i # is) s = select_all T rset is s1" using s1(1) by (simp add: cm_simps)
      moreover have "spec_all T (?fd # due (clients (globs s)) rset is) (bare s, m) = spec_all T (due (clients (globs s1)) rset is) (bare s1, m1)"
        using Inr a s1(3) due_same [OF s1(4) i(2), of rset] by simp
      ultimately show ?thesis unfolding d by simp
    qed
  qed
qed

section \<open>Turns\<close>

lemma due_all:
  fixes rset :: "int set"
  assumes "select_inv s m"
  defines "fds \<equiv> due (clients (globs s)) rset [0..<nat (maxi s + 1)]"
  shows "distinct fds" "set fds = dom m \<inter> rset"
proof -
  let ?cs = "clients (globs s)"
  have t: "table ?cs m" and mi: "maxi s < int (length ?cs)" "\<And>i. i < length ?cs \<Longrightarrow> 0 \<le> cfd (?cs ! i) \<Longrightarrow> int i \<le> maxi s"
    using assms(1) by (simp_all add: select_inv_def)
  have "i < length ?cs" if "i \<in> set (filter P [0..<nat (maxi s + 1)])" for i P using that mi(1) by auto
  then have "inj_on (\<lambda>i. cfd (?cs ! i)) (set (filter (\<lambda>i. 0 \<le> cfd (?cs ! i) \<and> cfd (?cs ! i) \<in> rset) [0..<nat (maxi s + 1)]))"
    using table_same [OF t] by (intro inj_onI) auto
  then show "distinct fds" by (simp add: fds_def due_def distinct_map)
  show "set fds = dom m \<inter> rset"
  proof (intro equalityI subsetI)
    fix fd
    assume "fd \<in> set fds"
    then obtain i where "i < nat (maxi s + 1)" "fd = cfd (?cs ! i)" "0 \<le> fd" "fd \<in> rset" by (auto simp: fds_def due_def)
    moreover from this have "i < length ?cs" using mi(1) by linarith
    ultimately show "fd \<in> dom m \<inter> rset" using table_entry [OF t, of i] by auto
  next
    fix fd
    assume fd: "fd \<in> dom m \<inter> rset"
    then obtain i where i: "0 \<le> fd" "i < length ?cs" "cfd (?cs ! i) = fd" using table_index [OF t, of fd] by auto
    then have "i < nat (maxi s + 1)" using mi(2) [of i] by simp
    then show "fd \<in> set fds" using i fd by (auto simp: fds_def due_def)
  qed
qed

lemma spec_all_conns:
  "spec_all T fds (g, m) = Inr (g', m') \<Longrightarrow> m' = (\<lambda>fd. if fd \<in> set fds \<and> reads T fd = Some [] then None else m fd)"
proof (induction fds arbitrary: g m)
  case (Cons fd fds)
  then obtain g1 m1 where one: "spec_one T fd (g, m) = Inr (g1, m1)" and "spec_all T fds (g1, m1) = Inr (g', m')"
    by (auto split: sum.splits)
  from Cons.IH [OF this(2)] one show ?case
    by (auto simp: spec_one_def fun_eq_iff split: option.splits if_splits sum.splits)
qed auto

lemma sys_globs: "on_globs sys s = Inr (r, s') \<Longrightarrow> \<exists>f. s' = s\<lparr>globs := (globs s)\<lparr>fails := f\<rparr>\<rparr> \<and> sys (bare s) = Inr (r, bare s')"
  by (auto simp: on_globs_def sys_def bare_def split: list.splits intro: exI [of _ "fails (globs s)"])

lemma select_inv_fails: "select_inv s m \<Longrightarrow> select_inv (s\<lparr>globs := (globs s)\<lparr>fails := f\<rparr>\<rparr>) m"
  by (simp add: select_inv_def)

lemma accepting:
  assumes inv: "select_inv s m" and acc: "accepted T = Some (fd, uid)" and fr: "fresh T (listenfd s) m"
  obtains "select_accept T s = Inl (Ends ''can't alloc for client array'')"
  | k s' where "select_accept T s = Inr ((), s')" "select_inv s' (m(fd \<mapsto> uid))" "bare s' = (bare s)\<lparr>fails := drop k (fails (bare s))\<rparr>"
      "listenfd s' = listenfd s"
proof (cases rule: client_add_cases [of fd uid "globs s"])
  case fails
  then show ?thesis using that(1) acc by (simp add: select_accept_def cm_simps)
next
  case (adds i k cs)
  have fd: "0 \<le> fd" "fd < FD_SETSIZE" "fd \<noteq> listenfd s" "fd \<notin> dom m" using fr acc by (auto simp: fresh_def)
  let ?cs = "cs[i := \<lparr>cfd = fd, cuid = Some uid\<rparr>]"
  let ?g = "(globs s)\<lparr>fails := drop k (fails (globs s)), clients := ?cs\<rparr>"
  let ?s = "s\<lparr>globs := ?g, allset := insert fd (allset s), maxfd := max fd (maxfd s), maxi := max (int i) (maxi s)\<rparr>"
  have run: "select_accept T s = Inr ((), ?s)"
    using acc adds(1) fd(1,2) by (simp add: select_accept_def cm_simps fd_set_def)
  have t: "table cs m" using adds(2) inv table_grow by (auto simp: select_inv_def)
  have live: "int j \<le> maxi s" if "j < length cs" "0 \<le> cfd (cs ! j)" for j
    using adds(2) that inv spare_nth [of "j - length (clients (globs s))"]
    by (cases "j < length (clients (globs s))") (auto simp: select_inv_def nth_append)
  have "maxi s < int (length cs)" using adds(2) inv by (auto simp: select_inv_def)
  moreover have "int j \<le> max (int i) (maxi s)" if "j < length cs" "0 \<le> cfd (?cs ! j)" for j
    using live [OF that(1)] that by (cases "j = i") auto
  moreover have "\<forall>x \<in> allset s. x \<le> max fd (maxfd s)" using inv by (auto simp: select_inv_def intro: max.coboundedI2)
  ultimately have "select_inv ?s (m(fd \<mapsto> uid))"
    using inv table_add [OF t adds(3,4) fd(1,4)] adds(3) fd(3) by (auto simp: select_inv_def)
  then show ?thesis using that(2) [OF run, of k] by (simp add: bare_def)
qed

text \<open>A turn does what it is to do, unless there is no memory for a new client.\<close>

lemma select_turn_sim:
  assumes inv: "select_inv s m" and fr: "fresh T (listenfd s) m"
  shows "\<exists>fds k. distinct fds \<and> set fds = {fd \<in> dom m. ready T fd} \<and>
    (select_turn T s = Inl (Ends ''can't alloc for client array'') \<or>
     sim (spec_turn T (listenfd s) fds k (bare s, m)) (\<lambda>s'. listenfd s' = listenfd s) (select_turn T s))"
proof -
  let ?rset = "{fd \<in> allset s. fd \<le> maxfd s \<and> ready T fd}"
  let ?fds = "due (clients (globs s)) ?rset [0..<nat (maxi s + 1)]"
  have "dom m \<inter> ?rset = {fd \<in> dom m. ready T fd}" using inv by (auto simp: select_inv_def)
  then have fds: "distinct ?fds" "set ?fds = {fd \<in> dom m. ready T fd}" using due_all [OF inv, of ?rset] by simp_all
  have lfd: "listenfd s \<in> ?rset \<longleftrightarrow> ready T (listenfd s)" using inv by (simp add: select_inv_def)
  obtain r s1 where r: "on_globs sys s = Inr (r, s1)" by (cases "fails (globs s)") (auto simp: on_globs_def sys_def)
  obtain f where f: "s1 = s\<lparr>globs := (globs s)\<lparr>fails := f\<rparr>\<rparr>" "sys (bare s) = Inr (r, bare s1)" using sys_globs [OF r] by blast
  have inv1: "select_inv s1 m" using select_inv_fails [OF inv] f(1) by simp
  have l1: "listenfd s1 = listenfd s" "maxi s1 = maxi s" "clients (globs s1) = clients (globs s)" using f(1) by simp_all
  have turn: "select_turn T s = (if r \<noteq> None then Inl (Ends ''select error'')
      else if ready T (listenfd s) then select_accept T s1 else select_all T ?rset [0..<nat (maxi s + 1)] s1)"
    using r lfd l1 by (simp add: select_turn_def cm_simps del: mem_Collect_eq)
  have "\<exists>k. select_turn T s = Inl (Ends ''can't alloc for client array'') \<or>
     sim (spec_turn T (listenfd s) ?fds k (bare s, m)) (\<lambda>s'. listenfd s' = listenfd s) (select_turn T s)"
  proof (cases "r = None \<and> ready T (listenfd s)")
    case True
    then have t: "select_turn T s = select_accept T s1" using turn by simp
    show ?thesis
    proof (cases "accepted T")
      case None
      then show ?thesis using True t f(2) by (simp add: spec_turn_def select_accept_def)
    next
      case (Some p)
      obtain fd uid where p: "accepted T = Some (fd, uid)" using Some by (cases p) auto
      show ?thesis
      proof (rule accepting [OF inv1 p])
        show "fresh T (listenfd s1) m" using fr l1 by simp
      next
        assume "select_accept T s1 = Inl (Ends ''can't alloc for client array'')"
        then show ?thesis using t by simp
      next
        fix k s'
        assume "select_accept T s1 = Inr ((), s')" "select_inv s' (m(fd \<mapsto> uid))" "bare s' = (bare s1)\<lparr>fails := drop k (fails (bare s1))\<rparr>"
          "listenfd s' = listenfd s1"
        then show ?thesis using t True p f(2) l1 by (intro exI [of _ k]) (simp add: spec_turn_def)
      qed
    qed
  next
    case False
    have "\<forall>i \<in> set [0..<nat (maxi s + 1)]. i < length (clients (globs s1))" using inv l1 by (auto simp: select_inv_def)
    from select_all_sim [OF inv1 _ this, of T ?rset]
    have "sim (spec_all T ?fds (bare s1, m)) (\<lambda>s'. listenfd s' = listenfd s) (select_all T ?rset [0..<nat (maxi s + 1)] s1)"
      using l1 by simp
    then show ?thesis using turn False f(2) by (auto simp: spec_turn_def)
  qed
  then show ?thesis using fds by blast
qed

lemma spec_turn_conns:
  assumes "spec_turn T lfd fds k (g, m) = Inr (g', m')" "set fds = {fd \<in> dom m. ready T fd}"
  shows "m' = conns_after T lfd m"
proof (cases "ready T lfd")
  case True
  then show ?thesis using assms(1) by (auto simp: spec_turn_def conns_after_def split: sum.splits if_splits option.splits)
next
  case False
  then obtain g1 where "spec_all T fds (g1, m) = Inr (g', m')"
    using assms(1) by (auto simp: spec_turn_def split: sum.splits if_splits)
  from spec_all_conns [OF this] show ?thesis using assms(2) False by (auto simp: conns_after_def fun_eq_iff)
qed

text \<open>The states that the loop reaches, with the connections at that time.\<close>

inductive select_reach :: "int \<Rightarrow> select_loop \<Rightarrow> conns \<Rightarrow> bool" for lfd where
  start: "clients g = [] \<Longrightarrow> start_select lfd g = Inr ((), s) \<Longrightarrow> select_reach lfd s Map.empty"
| turn: "select_reach lfd s m \<Longrightarrow> fresh T lfd m \<Longrightarrow> select_turn T s = Inr ((), s') \<Longrightarrow> select_reach lfd s' (conns_after T lfd m)"

lemma select_reach_inv: "select_reach lfd s m \<Longrightarrow> select_inv s m \<and> listenfd s = lfd"
proof (induction rule: select_reach.induct)
  case (start g s)
  then show ?case by (auto simp: start_select_def fd_set_def select_inv_def table_Nil split: if_splits)
next
  case (turn s m T s')
  then obtain fds k where fds: "set fds = {fd \<in> dom m. ready T fd}"
    and sm: "sim (spec_turn T lfd fds k (bare s, m)) (\<lambda>s'. listenfd s' = lfd) (Inr ((), s'))"
    using select_turn_sim [of s m T] by auto
  show ?case
  proof (cases "spec_turn T lfd fds k (bare s, m)")
    case (Inr a)
    obtain g' m' where a: "a = (g', m')" by (cases a)
    then show ?thesis using sm Inr spec_turn_conns [OF Inr [unfolded a] fds] by simp
  qed (use sm in simp)
qed

end
