(* ===== verification/Opend_Properties.thy ===== *)
theory Opend_Properties
  imports Opend_Loop
begin

text \<open>The properties of the open server.\<close>

section \<open>Turns with one event\<close>

definition boot :: opend where
  "boot = \<lparr>fails = [], errmsg = [], pathname = [], oflag = 0, clients = [], outs = [], closed = []\<rparr>"

definition idle :: turn where
  "idle = \<lparr>ready = \<lambda>_. False, hup = \<lambda>_. False, accepted = None, reads = \<lambda>_. None, opens = \<lambda>_ _. Inl []\<rparr>"

definition connects :: "int \<Rightarrow> int \<Rightarrow> 32 word \<Rightarrow> turn" where
  "connects lfd fd uid = idle\<lparr>ready := \<lambda>x. x = lfd, accepted := Some (fd, uid)\<rparr>"

definition says :: "int \<Rightarrow> char list \<Rightarrow> turn" where
  "says fd buf = idle\<lparr>ready := \<lambda>x. x = fd, reads := \<lambda>_. Some buf\<rparr>"

definition leaves :: "int \<Rightarrow> turn" where
  "leaves fd = says fd []"

lemmas turn_defs = idle_def connects_def says_def leaves_def

definition free_client :: client where
  "free_client = \<lparr>cfd = -1, cuid = None\<rparr>"

definition with_clients :: "client list \<Rightarrow> int list \<Rightarrow> opend" where
  "with_clients cs cl = boot\<lparr>clients := cs @ replicate (10 - length cs) free_client, closed := cl\<rparr>"

lemma alloc_boot: "client_alloc boot = Inr ((), with_clients [] [])"
  by (simp add: client_alloc_def cm_simps sys_def boot_def with_clients_def free_client_def NALLOC_def)

lemma ten: "replicate 10 x = [x, x, x, x, x, x, x, x, x, x]"
  by (simp add: eval_nat_numeral)

lemma nine: "replicate 9 x = [x, x, x, x, x, x, x, x, x]" "replicate 8 x = [x, x, x, x, x, x, x, x]" "replicate 7 x = [x, x, x, x, x, x, x]"
  by (simp_all add: eval_nat_numeral)

lemma add_first:
  "client_add fd uid boot = Inr (0, with_clients [\<lparr>cfd = fd, cuid = Some uid\<rparr>] [])"
proof -
  have "client_add fd uid boot = again 2 fd uid (with_clients [] [])"
    using alloc_boot by (simp add: client_add_def thn_def bnd_def) (simp add: boot_def)
  then show ?thesis by (simp add: numeral_2_eq_2 with_clients_def ten nine free_client_def boot_def thn_def bnd_def)
qed

lemma on_pglobs_run [cm_simps]: "m (pglobs s) = Inr (x, g) \<Longrightarrow> on_pglobs m s = Inr (x, s\<lparr>pglobs := g\<rparr>)"
  by (simp add: on_pglobs_def)

lemma fine [simp]: "sys boot = Inr (None, boot)" "sys (with_clients cs cl) = Inr (None, with_clients cs cl)"
  by (simp_all add: sys_def boot_def with_clients_def)

abbreviation (input) ent :: "int \<Rightarrow> pollent" where
  "ent fd \<equiv> \<lparr>pfd = fd, pollin = False, pollhup = False\<rparr>"

abbreviation (input) user :: "int \<Rightarrow> 32 word \<Rightarrow> client" where
  "user fd uid \<equiv> \<lparr>cfd = fd, cuid = Some uid\<rparr>"

lemma start_poll_boot:
  assumes "0 \<le> lfd"
  shows "start_poll lfd boot = Inr ((), \<lparr>pglobs = with_clients [user lfd 0] [], pollfd = ent lfd # replicate 9 free_ent, numfd = 1\<rparr>)"
  using assms by (simp add: start_poll_def NALLOC_def ten nine cm_simps add_first free_ent_def)

lemma add_next:
  assumes "\<forall>c \<in> set cs. cfd c \<noteq> -1" "cs \<noteq> []" "length cs < 10"
  shows "client_add fd uid (with_clients cs cl) = Inr (length cs, with_clients (cs @ [user fd uid]) cl)"
proof -
  obtain n where n: "10 - length cs = Suc n" "10 - length (cs @ [user fd uid]) = n" using assms(3) by (cases "10 - length cs") auto
  have f: "find_client (-1) (cs @ free_client # ys) = Some (length cs)" for ys
    using assms(1) by (induction cs) (auto simp: free_client_def)
  have c: "clients (with_clients cs cl) = cs @ free_client # replicate n free_client" using n by (simp add: with_clients_def)
  have "client_add fd uid (with_clients cs cl) = again (Suc 1) fd uid (with_clients cs cl)"
    using c assms(2) by (simp add: client_add_def cm_simps numeral_2_eq_2 del: again.simps)
  also have "\<dots> = Inr (length cs, (with_clients cs cl)\<lparr>clients := (cs @ free_client # replicate n free_client)[length cs := user fd uid]\<rparr>)"
    using again_finds [of "with_clients cs cl" "length cs" 1 fd uid] c f by simp
  finally show ?thesis using n by (simp add: with_clients_def list_update_append)
qed

text \<open>Nothing happens on entries without an event.\<close>

lemma poll_all_quiet:
  assumes "\<And>j. i \<le> j \<Longrightarrow> j < numfd s \<Longrightarrow> \<not> pollin (pollfd s ! j) \<and> \<not> pollhup (pollfd s ! j)"
  shows "poll_all T i s = Inr ((), s)"
  using assms
proof (induction "numfd s - i" arbitrary: i)
  case 0
  then show ?case by (simp add: poll_all.simps)
next
  case (Suc n)
  then have "poll_one T i (pollfd s ! i) (pglobs s) = Inr (False, pglobs s)" by (simp add: poll_one_def)
  moreover have "i < numfd s" using Suc(2) by linarith
  ultimately have "poll_all T i s = poll_all T (i + 1) s" by (subst poll_all.simps) simp
  then show ?case using Suc(1) [of "i + 1"] Suc(2,3) by simp
qed

text \<open>A poll loop with the clients \<open>cs\<close> in its array and the descriptors \<open>ps\<close> in \<^verbatim>\<open>pollfd[]\<close>.\<close>

definition polling :: "client list \<Rightarrow> int list \<Rightarrow> int list \<Rightarrow> poll_loop \<Rightarrow> bool" where
  "polling cs cl ps s \<longleftrightarrow>
     pglobs s = with_clients cs cl \<and> length (pollfd s) = 10 \<and> numfd s = length ps \<and> map pfd (take (length ps) (pollfd s)) = ps"

lemma poll_turn_runs:
  assumes "pglobs s = with_clients cs cl"
  shows "poll_turn T s = thn (if pollin (poll_fill T (numfd s) (pollfd s) ! 0) then poll_accept T else ret ()) (poll_all T 1)
    (s\<lparr>pollfd := poll_fill T (numfd s) (pollfd s)\<rparr>)"
proof -
  have "s\<lparr>pglobs := with_clients cs cl\<rparr> = s" using assms by (cases s) simp
  then have "on_pglobs sys s = Inr (None, s)" using assms by (simp add: on_pglobs_def)
  then show ?thesis by (simp add: poll_turn_def cm_simps)
qed

lemma poll_connects:
  assumes "polling cs cl (lfd # ps) s" and "\<forall>c \<in> set cs. cfd c \<noteq> -1" "cs \<noteq> []" "length cs < 10" "length ps < 9" "lfd \<notin> set ps"
  shows "\<exists>s'. poll_turn (connects lfd fd uid) s = Inr ((), s') \<and> polling (cs @ [user fd uid]) cl (lfd # ps @ [fd]) s'"
proof -
  let ?T = "connects lfd fd uid"
  let ?n = "Suc (length ps)"
  let ?p = "poll_fill ?T ?n (pollfd s)"
  let ?s = "s\<lparr>pglobs := with_clients (cs @ [user fd uid]) cl, pollfd := ?p[?n := ent fd], numfd := ?n + 1\<rparr>"
  have g: "pglobs s = with_clients cs cl" "length (pollfd s) = 10" "numfd s = ?n" "map pfd (take ?n (pollfd s)) = lfd # ps"
    using assms(1) by (simp_all add: polling_def)
  have len: "length ?p = 10" using g(2) assms(5) by (simp add: poll_fill_def)
  have nth: "pfd (?p ! j) = (lfd # ps) ! j \<and> pollin (?p ! j) = ((lfd # ps) ! j = lfd) \<and> \<not> pollhup (?p ! j)" if "j < ?n" for j
  proof -
    have "pfd (pollfd s ! j) = (lfd # ps) ! j" using arg_cong [OF g(4), of "\<lambda>l. l ! j"] that g(2) assms(5) by simp
    moreover have "?p ! j = (pollfd s ! j)\<lparr>pollin := pfd (pollfd s ! j) = lfd, pollhup := False\<rparr>"
      using that g(2) assms(5) by (simp add: poll_fill_def nth_append turn_defs)
    ultimately show ?thesis by simp
  qed
  have a: "accepted ?T = Some (fd, uid)" by (simp add: turn_defs)
  have acc: "poll_accept ?T (s\<lparr>pollfd := ?p\<rparr>) = Inr ((), ?s)"
    using add_next [OF assms(2-4), of fd uid cl] g len assms(5)
    by (simp add: poll_accept_def a on_pglobs_def thn_def bnd_def)
  have quiet: "poll_all ?T 1 ?s = Inr ((), ?s)"
  proof (rule poll_all_quiet)
    fix j
    assume j: "1 \<le> j" "j < numfd ?s"
    show "\<not> pollin (pollfd ?s ! j) \<and> \<not> pollhup (pollfd ?s ! j)"
    proof (cases "j = ?n")
      case True
      then show ?thesis using len assms(5) by simp
    next
      case False
      then have "(lfd # ps) ! j \<noteq> lfd" using j assms(6) nth_mem [of "j - 1" ps] by (cases j) auto
      then show ?thesis using nth [of j] False j by simp
    qed
  qed
  have "poll_turn ?T s = Inr ((), ?s)"
    using g acc quiet nth [of 0] by (simp add: poll_turn_runs [OF g(1)] thn_Inr)
  moreover have "map pfd (take (length (lfd # ps @ [fd])) (pollfd ?s)) = lfd # ps @ [fd]"
    using nth len assms(5) by (intro nth_equalityI) (auto simp: nth_list_update nth_append nth_Cons' less_Suc_eq)
  ultimately show ?thesis using len by (intro exI [of _ ?s]) (simp add: polling_def)
qed

lemma poll_leaves:
  assumes "polling [user lfd 0, user a ua, user b ub] [] [lfd, a, b] s" and "distinct [lfd, a, b]"
  shows "\<exists>s'. poll_turn (leaves a) s = Inr ((), s') \<and>
    polling [user lfd 0, \<lparr>cfd = -1, cuid = Some ua\<rparr>, user b ub] [a] [lfd, b] s'"
proof -
  let ?T = "leaves a"
  obtain e0 e1 e2 rest where e: "pollfd s = e0 # e1 # e2 # rest" "length rest = 7"
    using assms(1) by (auto simp: polling_def eval_nat_numeral length_Suc_conv)
  have g: "pglobs s = with_clients [user lfd 0, user a ua, user b ub] []" "numfd s = 3" "pfd e0 = lfd" "pfd e1 = a" "pfd e2 = b"
    using assms(1) e by (simp_all add: polling_def eval_nat_numeral)
  let ?f = "\<lambda>e x. e\<lparr>pollin := x, pollhup := False\<rparr>"
  let ?s = "s\<lparr>pollfd := ?f e0 False # ?f e1 True # ?f e2 False # rest\<rparr>"
  have fill: "poll_fill ?T 3 (pollfd s) = ?f e0 False # ?f e1 True # ?f e2 False # rest"
    using e g assms(2) by (simp add: poll_fill_def turn_defs eval_nat_numeral)
  let ?g = "with_clients [user lfd 0, \<lparr>cfd = -1, cuid = Some ua\<rparr>, user b ub] [a]"
  have one: "poll_one ?T 1 (?f e1 True) (pglobs s) = Inr (True, ?g)"
    using g assms(2) by (simp add: poll_one_def turn_defs hungup_def uid_at_def client_del_def with_clients_def boot_def thn_def bnd_def)
  let ?s' = "s\<lparr>pglobs := ?g, pollfd := ?f e0 False # ?f e2 False # ?f e2 False # rest, numfd := 2\<rparr>"
  have "poll_all ?T 1 ?s = poll_all ?T 1 ?s'"
    using one g(2) by (subst poll_all.simps) (simp add: numeral_3_eq_3 numeral_2_eq_2)
  also have "\<dots> = Inr ((), ?s')" by (rule poll_all_quiet) (auto simp: less_Suc_eq numeral_2_eq_2)
  finally have "poll_turn ?T s = Inr ((), ?s')"
    using g fill by (simp add: poll_turn_runs [OF g(1)] thn_def bnd_def)
  moreover have "polling [user lfd 0, \<lparr>cfd = -1, cuid = Some ua\<rparr>, user b ub] [a] [lfd, b] ?s'"
    using g e by (simp add: polling_def)
  ultimately show ?thesis by blast
qed

lemma poll_says:
  assumes "polling [user lfd 0, \<lparr>cfd = -1, cuid = Some ua\<rparr>, user b ub] [a] [lfd, b] s" and "lfd \<noteq> b"
    and buf: "buf \<noteq> []" "length buf \<le> MAXLINE" "last buf \<noteq> NUL"
  shows "\<exists>s'. poll_turn (says b buf) s = Inr ((), s') \<and>
    outs (pglobs s') = [(b, take (MAXLINE - 2) (not_terminated ua buf), None), (b, fd_message (-1))]"
proof -
  let ?T = "says b buf"
  obtain e0 e1 rest where e: "pollfd s = e0 # e1 # rest"
    using assms(1) by (auto simp: polling_def eval_nat_numeral length_Suc_conv)
  let ?g = "with_clients [user lfd 0, \<lparr>cfd = -1, cuid = Some ua\<rparr>, user b ub] [a]"
  have g: "pglobs s = ?g" "numfd s = 2" "pfd e0 = lfd" "pfd e1 = b"
    using assms(1) e by (simp_all add: polling_def)
  let ?f = "\<lambda>e x. e\<lparr>pollin := x, pollhup := False\<rparr>"
  let ?s = "s\<lparr>pollfd := ?f e0 False # ?f e1 True # rest\<rparr>"
  have fill: "poll_fill ?T 2 (pollfd s) = ?f e0 False # ?f e1 True # rest"
    using e g assms(2) by (simp add: poll_fill_def turn_defs)
  let ?m = "take (MAXLINE - 2) (not_terminated ua buf)"
  let ?g' = "?g\<lparr>errmsg := ?m, outs := [(b, ?m, None), (b, fd_message (-1))]\<rparr>"
  have ne: "?m \<noteq> []" by (simp add: not_terminated_def)
  have "handle_request (opens ?T) buf b ua ?g = refuse b (?g\<lparr>errmsg := ?m\<rparr>)"
    using buf by (simp add: handle_request_def set_errmsg_def cm_simps)
  also have "\<dots> = Inr ((), ?g')" using refuse_fine [of "?g\<lparr>errmsg := ?m\<rparr>" b] ne by (simp add: with_clients_def boot_def)
  finally have h: "handle_request (opens ?T) buf b ua ?g = Inr ((), ?g')" .
  have "uid_at 1 ?g = Inr (ua, ?g)" by (simp add: uid_at_def with_clients_def bnd_def)
  then have one: "poll_one ?T 1 (?f e1 True) ?g = Inr (False, ?g')"
    using g h buf by (simp add: poll_one_def says_def idle_def thn_def bnd_def)
  have "poll_all ?T 1 ?s = poll_all ?T 2 (?s\<lparr>pglobs := ?g'\<rparr>)"
    using one g(1,2) by (subst poll_all.simps) (simp add: numeral_2_eq_2)
  also have "\<dots> = Inr ((), ?s\<lparr>pglobs := ?g'\<rparr>)" using g(2) by (simp add: poll_all.simps)
  finally have "poll_turn ?T s = Inr ((), ?s\<lparr>pglobs := ?g'\<rparr>)"
    using g fill by (simp add: poll_turn_runs [OF g(1)] thn_def bnd_def)
  then show ?thesis by simp
qed

section \<open>Properties\<close>

text \<open>
  C33. In every state that the loop with \<^verbatim>\<open>select\<close> reaches, whatever the clients send,
  whatever is ready and whatever calls fail, a turn does what it is to do: a connection that
  waits is accepted, and otherwise every client that is ready is served exactly once, with
  the number of the user who made that connection, or removed if it has closed it. The
  connections afterwards are the right ones, no client is missed by \<^verbatim>\<open>maxi\<close> or \<^verbatim>\<open>maxfd\<close>,
  and \<^verbatim>\<open>client_del\<close> always finds its entry. Only a failed allocation ends it otherwise. The
  kernel's new descriptors are taken to be unused and below \<^verbatim>\<open>FD_SETSIZE\<close>.
\<close>

theorem select_loop_serves:
  assumes "select_reach lfd s m" and "fresh T lfd m"
  shows "\<exists>fds k. distinct fds \<and> set fds = {fd \<in> dom m. ready T fd} \<and>
    (case select_turn T s of
       Inl e \<Rightarrow> e = Ends ''can't alloc for client array'' \<or> spec_turn T lfd fds k (bare s, m) = Inl e
     | Inr (_, s') \<Rightarrow> spec_turn T lfd fds k (bare s, m) = Inr (bare s', conns_after T lfd m))"
proof -
  have "select_inv s m" "listenfd s = lfd" using select_reach_inv [OF assms(1)] by simp_all
  then obtain fds k where fds: "distinct fds" "set fds = {fd \<in> dom m. ready T fd}"
    and r: "select_turn T s = Inl (Ends ''can't alloc for client array'') \<or>
      sim (spec_turn T lfd fds k (bare s, m)) (\<lambda>s'. listenfd s' = lfd) (select_turn T s)"
    using select_turn_sim [of s m T] assms(2) by auto
  have "case select_turn T s of
       Inl e \<Rightarrow> e = Ends ''can't alloc for client array'' \<or> spec_turn T lfd fds k (bare s, m) = Inl e
     | Inr (_, s') \<Rightarrow> spec_turn T lfd fds k (bare s, m) = Inr (bare s', conns_after T lfd m)"
  proof (cases "spec_turn T lfd fds k (bare s, m)")
    case (Inr a)
    obtain g' m' where a: "a = (g', m')" by (cases a)
    show ?thesis using r Inr a spec_turn_conns [OF Inr [unfolded a] fds(2)] by auto
  qed (use r in auto)
  then show ?thesis using fds by blast
qed

text \<open>A client that closes its connection in the turn after it was accepted.\<close>

theorem select_loop_serves_witness:
  "\<exists>s0 s1 s2. start_select 3 boot = Inr ((), s0) \<and> select_turn (connects 3 5 1000) s0 = Inr ((), s1) \<and>
     select_turn (leaves 5) s1 = Inr ((), s2) \<and> closed (bare s2) = [5]"
proof -
  let ?s0 = "\<lparr>globs = boot, listenfd = 3, allset = {3}, maxfd = 3, maxi = -1\<rparr>"
  let ?s1 = "?s0\<lparr>globs := with_clients [user 5 1000] [], allset := {5, 3}, maxfd := 5, maxi := 0\<rparr>"
  have s0: "start_select 3 boot = Inr ((), ?s0)" by (simp add: start_select_def fd_set_def FD_SETSIZE_def)
  have s1: "select_turn (connects 3 5 1000) ?s0 = Inr ((), ?s1)"
    by (simp add: select_turn_def cm_simps turn_defs select_accept_def add_first fd_set_def FD_SETSIZE_def)
  have "select_reach 3 ?s0 Map.empty" by (rule select_reach.start [OF _ s0]) (simp add: boot_def)
  then have "select_reach 3 ?s1 (conns_after (connects 3 5 1000) 3 Map.empty)"
    by (rule select_reach.turn [OF _ _ s1]) (simp add: fresh_def turn_defs FD_SETSIZE_def)
  moreover have "conns_after (connects 3 5 1000) 3 Map.empty = [5 \<mapsto> 1000]" by (simp add: conns_after_def turn_defs)
  ultimately have reach: "select_reach 3 ?s1 [5 \<mapsto> 1000]" by simp
  obtain s2 where s2: "select_turn (leaves 5) ?s1 = Inr ((), s2)"
    by (simp add: select_turn_def cm_simps turn_defs select_one_def uid_at_def client_del_def with_clients_def boot_def sys_def)
  have "fresh (leaves 5) 3 [5 \<mapsto> 1000]" by (simp add: fresh_def turn_defs)
  from select_loop_serves [OF reach this] s2 obtain fds k where "distinct fds" "set fds = {5}"
    and sp: "spec_turn (leaves 5) 3 fds k (bare ?s1, [5 \<mapsto> 1000]) = Inr (bare s2, conns_after (leaves 5) 3 [5 \<mapsto> 1000])"
    by (auto simp: turn_defs)
  then have "fds = [5]" by (cases fds; cases "tl fds") auto
  moreover have b1: "bare ?s1 = boot" by (simp add: bare_def with_clients_def boot_def)
  ultimately have "bare s2 = boot\<lparr>closed := closed boot @ [5]\<rparr>"
    using sp by (auto simp: spec_turn_def spec_one_def turn_defs)
  then have "closed (bare s2) = [5]" by (simp add: boot_def)
  then show ?thesis using s0 s1 s2 by blast
qed

text \<open>
  C14. The loop with \<^verbatim>\<open>poll\<close> mixes up its clients: it takes the user number from
  \<^verbatim>\<open>client[i]\<close> for the index of \<^verbatim>\<open>pollfd[]\<close>, but only \<^verbatim>\<open>pollfd[]\<close> is packed when a
  client leaves. After two clients have connected and the first one has left, a request of
  the second one is handled, and refused, as one of the first one's user.
\<close>

theorem poll_loop_wrong_user:
  assumes "0 \<le> lfd" "0 \<le> a" "0 \<le> b" and "distinct [lfd, a, b]"
    and "buf \<noteq> []" "length buf \<le> MAXLINE" "last buf \<noteq> NUL"
  shows "\<exists>s0 s. start_poll lfd boot = Inr ((), s0) \<and>
    poll_turns [connects lfd a ua, connects lfd b ub, leaves a, says b buf] s0 = Inr ((), s) \<and>
    outs (pglobs s) = [(b, take (MAXLINE - 2) (not_terminated ua buf), None), (b, fd_message (-1))]"
proof -
  obtain s0 where s0: "start_poll lfd boot = Inr ((), s0)" "polling [user lfd 0] [] [lfd] s0"
    using start_poll_boot [OF assms(1)] by (simp add: polling_def)
  obtain s1 where s1: "poll_turn (connects lfd a ua) s0 = Inr ((), s1)" "polling [user lfd 0, user a ua] [] [lfd, a] s1"
    using poll_connects [OF s0(2), of a ua] assms(1) by auto
  obtain s2 where s2: "poll_turn (connects lfd b ub) s1 = Inr ((), s2)" "polling [user lfd 0, user a ua, user b ub] [] [lfd, a, b] s2"
    using poll_connects [OF s1(2), of b ub] assms(1,2,4) by auto
  obtain s3 where s3: "poll_turn (leaves a) s2 = Inr ((), s3)"
    "polling [user lfd 0, \<lparr>cfd = -1, cuid = Some ua\<rparr>, user b ub] [a] [lfd, b] s3"
    using poll_leaves [OF s2(2) assms(4)] by blast
  obtain s where "poll_turn (says b buf) s3 = Inr ((), s)"
    "outs (pglobs s) = [(b, take (MAXLINE - 2) (not_terminated ua buf), None), (b, fd_message (-1))]"
    using poll_says [OF s3(2) _ assms(5-7)] assms(4) by auto
  then show ?thesis using s0(1) s1(1) s2(1) s3(1) by (simp add: cm_simps)
qed

theorem poll_loop_wrong_user_witness:
  "\<exists>s0 s. start_poll 3 boot = Inr ((), s0) \<and>
    poll_turns [connects 3 4 0, connects 3 5 1000, leaves 4, says 5 ''open''] s0 = Inr ((), s) \<and>
    outs (pglobs s) = [(5, take 4094 (not_terminated 0 ''open''), None), (5, fd_message (-1))]"
  using poll_loop_wrong_user [of 3 4 5 "''open''" 0 1000] by simp






end
