(* ===== verification/Spec2Isabelle.thy ===== *)
theory Spec2Isabelle
  imports Db_Properties Inet_Properties Stream_Properties Printd_Properties Iotool_Properties Fmem_Properties Foo_Properties Gai_Properties Gai_Old Opend_Properties
begin

text \<open>
  Verification of the C programs of this repository. The repository is a collection: the
  programs and libraries of two books on UNIX programming (\<^verbatim>\<open>apue.3e\<close>, \<^verbatim>\<open>unpv13e\<close>), a tool
  for block devices (\<^verbatim>\<open>iotool_cpp\<close>), and many notes and small experiments. Modelled are the
  parts that have a state or a protocol of their own.

  \<^bold>\<open>Conventions.\<close> A C function is a function of the same name. Code with effects is a state
  transformer \<open>cm\<close> (\<open>C_Prelude\<close>): it returns a value and a new state, or ends with a
  reason, which stands for an exit of the process or for undefined behaviour such as an
  access outside a buffer. System calls, the name service, the allocator and the other side
  of a connection are arguments or scripts in the state, so that a theorem holds for whatever
  they answer; hypotheses restrict them only where a property says so. Integers are words
  where their width matters. The machine is little-endian.

  \<^bold>\<open>Database library\<close> (\<^verbatim>\<open>apue.3e/db/db.c\<close>, \<^verbatim>\<open>lib/lockreg.c\<close>). \<open>Posix_File\<close> has files and
  record locks, \<open>Db\<close> all functions of the library on the bytes of its two files.
  \<open>Db_Layout\<close> and \<open>Db_Steps\<close> describe what these bytes stand for, \<open>Db_Chains\<close> the hash
  chains and the free list, \<open>Db_Refine\<close> the three operations, \<open>Db_Session\<close> opening,
  closing and the walk, \<open>Db_Faults\<close> failing calls. The library implements the locale
  \<open>kv_store\<close>. Shown (\<open>Db_Properties\<close>): it is a map, in every session, after reopening, and
  whatever calls fail; and for which keys it overruns its buffer.

  \<^bold>\<open>Address conversions and checksum\<close> (\<^verbatim>\<open>unpv13e/libfree\<close>: \<^verbatim>\<open>inet_pton.c\<close>,
  \<^verbatim>\<open>inet_ntop.c\<close>, \<^verbatim>\<open>inet_aton.c\<close>, the IPv4-only versions, \<^verbatim>\<open>in_cksum.c\<close>). \<open>Inet_Addr\<close>,
  with lemmas in \<open>Inet_Props\<close> and \<open>Inet_Old\<close>. Shown (\<open>Inet_Properties\<close>): texts are read
  back, the versions agree, the longest run of zeros is abbreviated, the checksum verifies;
  the overrun of \<^verbatim>\<open>inet_ntop\<close> and what \<^verbatim>\<open>inet_pton\<close> accepts too much.

  \<^bold>\<open>Names and addresses\<close> (\<^verbatim>\<open>unpv13e/libgai\<close>, and the older \<^verbatim>\<open>libfree/getaddrinfo.c\<close>).
  \<open>Gai\<close> has \<^verbatim>\<open>getaddrinfo\<close> and \<^verbatim>\<open>getnameinfo\<close> with all their parts over the conversions
  of \<open>Inet_Addr\<close>; \<open>Gai_Props\<close> counts memory, \<open>Gai_Spec\<close> says what is returned when memory
  suffices. Shown (\<open>Gai_Properties\<close>): the list of all addresses with all ports, the round
  trip of numeric names, and what is freed. \<open>Gai_Old\<close> has the older version and shows that
  most of its errors release an uninitialised pointer, and that all others free everything.

  \<^bold>\<open>Streams\<close> (\<^verbatim>\<open>readn\<close>, \<^verbatim>\<open>writen\<close>, \<^verbatim>\<open>readline\<close>, \<^verbatim>\<open>tread\<close> in their versions). \<open>Stream_IO\<close>
  with the locale \<open>byte_reader\<close> for a reading call, interpreted for \<^verbatim>\<open>read\<close> and \<^verbatim>\<open>tread\<close>.
  Shown (\<open>Stream_Properties\<close>): results do not depend on how a stream is cut into pieces, no
  byte is lost or sent twice, and the buffered \<^verbatim>\<open>readline\<close> is the byte-by-byte one.

  \<^bold>\<open>Print spooler\<close> (\<^verbatim>\<open>apue.3e/printer\<close>). \<open>Print_Proto\<close> has the protocol and the command,
  \<open>Job_Queue\<close> the linked lists of the server on a heap (locale \<open>job_fifo\<close>), \<open>Printd\<close> the
  spooling side, \<open>Ipp\<close> the messages to and from the printer, \<open>Printd_Printer\<close> the printer
  thread, \<open>Printd_Spool\<close>, \<open>Printd_Client\<close> and \<open>Printd_System\<close> their lemmas and the server
  as a transition system. Shown (\<open>Printd_Properties\<close>): the queue, the consistency of the
  spool in every reachable state, that a working printer gets every job in order, the way of
  a job from the command to the printer, restarts; and lost threads, reused job numbers, an
  overrun header buffer and an answer that hangs the printer thread.

  \<^bold>\<open>Open server\<close> (\<^verbatim>\<open>apue.3e/ipc2/opend\<close>, its client \<^verbatim>\<open>ipc2/open/open.c\<close>, and
  \<^verbatim>\<open>bufargs.c\<close>, \<^verbatim>\<open>sendfd.c\<close>, \<^verbatim>\<open>senderr.c\<close>, \<^verbatim>\<open>recvfd.c\<close> of \<^verbatim>\<open>lib\<close>). \<open>Opend\<close> has the
  request, the client array and both loops; \<open>Opend_Props\<close> and \<open>Opend_Loop\<close> their lemmas.
  Shown (\<open>Opend_Properties\<close>): the \<^verbatim>\<open>select\<close> loop serves exactly the ready clients, each as
  its own user, while the \<^verbatim>\<open>poll\<close> loop confuses users; and the round trip of \<^verbatim>\<open>csopen\<close>.

  \<^bold>\<open>Memory streams\<close> (\<^verbatim>\<open>apue.3e/exercises/fmemopen.c\<close>). \<open>Fmem\<close> with the locale
  \<open>bounded_file\<close>; \<open>Fmem_Properties\<close> shows that a stream opened for update is a file
  bounded by its buffer.

  \<^bold>\<open>Reference-counted hash table\<close> (\<^verbatim>\<open>apue.3e/threads/mutex2.c\<close>). \<open>Foo_Table\<close> cuts the
  functions at their lock operations; \<open>Foo_Inv\<close>, \<open>Foo_Steps\<close> and \<open>Foo_Safety\<close> prove the
  invariant for every interleaving of every number of threads. Shown (\<open>Foo_Properties\<close>): no
  freed object is touched, counts are right, and calls return.

  \<^bold>\<open>Block device tool\<close> (\<^verbatim>\<open>iotool_cpp/iotool.c\<close>). \<open>Iotool\<close> has the writing engines,
  \<open>Iotool_Read\<close> the reading engines, the options and \<^verbatim>\<open>main\<close>, \<open>Iotool_Props\<close> the lemmas.
  Shown (\<open>Iotool_Properties\<close>): which bytes of the volume are written, and where the engines
  leave their range or their buffer.

  \<^bold>\<open>Loops, fuel and bounds.\<close> Loops are recursions with a termination proof where they end by
  themselves. The loops of \<^verbatim>\<open>db.c\<close> over chains in a file take the length of the index file as
  fuel, at least the number of its records; the refinement lemmas show that it is never used
  up on a well-formed database. The \<^verbatim>\<open>goto again\<close> of \<^verbatim>\<open>client_add\<close> has fuel 2, as the second
  search always succeeds (\<open>client_add_cases\<close>). The loop of \<^verbatim>\<open>printer_status\<close> that may run
  forever is a \<open>partial_function\<close>, and it is shown when it does. A database session is
  bounded by 9660 calls, so that file offsets stay below the largest chain pointer, 9999999.

  \<^bold>\<open>Not modelled.\<close> Other processes that use the same database (locks are always granted);
  interleavings of the print server inside its critical sections; the \<^verbatim>\<open>main\<close> functions of
  the servers, which become daemons and create threads; log messages; the engine of
  \<^verbatim>\<open>iotool\<close> for libaio, a parameter of its \<^verbatim>\<open>main\<close>; configurations other than those named
  in \<open>Gai\<close> and \<open>Gai_Old\<close>. Of the rest of the books, most programs are one \<^verbatim>\<open>main\<close> function
  around system calls, whose behaviour is the kernel's. Left out though they have a state of
  their own are \<^verbatim>\<open>rwlock.c\<close>, \<^verbatim>\<open>barrier.c\<close> and \<^verbatim>\<open>mutex3.c\<close> of \<^verbatim>\<open>apue.3e/threads\<close>,
  \<^verbatim>\<open>lib/semaph.c\<close>, the servers \<^verbatim>\<open>opend.fe\<close> and \<^verbatim>\<open>sockets/ruptimed.c\<close>, the clients of
  \<^verbatim>\<open>unpv13e/nonblock\<close>, the round-trip estimator of \<^verbatim>\<open>unpv13e/lib/rtt.c\<close>, which computes in
  floating point, \<^verbatim>\<open>io_uring/iouringcp.c\<close> and \<^verbatim>\<open>chan1\<close>. The other directories hold
  experiments with libraries, compilers and the C++ language, and text.
\<close>

end
